(* ===== verification/Pkix_Prelude.thy ===== *)
theory Pkix_Prelude
  imports Main "HOL-Library.Word"
begin

text \<open>
  Shared vocabulary of the development: bytes, the error codes of \<^verbatim>\<open>ssherr.h\<close>,
  \<^verbatim>\<open>size_t\<close> arithmetic with its wrap-around written out, in-place writes to arrays,
  and the allocator of \<^verbatim>\<open>openbsd-compat/recallocarray.c\<close>.
\<close>

named_theorems size_simps "size_t arithmetic inside the 64-bit range"
named_theorems array_simps "length and content of arrays after memcpy and memmove"

type_synonym byte = "8 word"

section \<open>Error codes\<close>

datatype (plugins only: code) ssh_err =
    SSH_ERR_INTERNAL_ERROR | SSH_ERR_ALLOC_FAIL | SSH_ERR_MESSAGE_INCOMPLETE
  | SSH_ERR_INVALID_FORMAT | SSH_ERR_BIGNUM_IS_NEGATIVE | SSH_ERR_STRING_TOO_LARGE
  | SSH_ERR_BIGNUM_TOO_LARGE | SSH_ERR_ECPOINT_TOO_LARGE | SSH_ERR_NO_BUFFER_SPACE
  | SSH_ERR_INVALID_ARGUMENT | SSH_ERR_KEY_BITS_MISMATCH | SSH_ERR_EC_CURVE_INVALID
  | SSH_ERR_KEY_TYPE_MISMATCH | SSH_ERR_KEY_TYPE_UNKNOWN | SSH_ERR_EC_CURVE_MISMATCH
  | SSH_ERR_EXPECTED_CERT | SSH_ERR_KEY_LACKS_CERTBLOB | SSH_ERR_KEY_CERT_UNKNOWN_TYPE
  | SSH_ERR_KEY_CERT_INVALID_SIGN_KEY | SSH_ERR_KEY_INVALID_EC_VALUE
  | SSH_ERR_SIGNATURE_INVALID | SSH_ERR_LIBCRYPTO_ERROR | SSH_ERR_UNEXPECTED_TRAILING_DATA
  | SSH_ERR_SYSTEM_ERROR | SSH_ERR_KEY_CERT_INVALID | SSH_ERR_AGENT_COMMUNICATION
  | SSH_ERR_AGENT_FAILURE | SSH_ERR_DH_GEX_OUT_OF_RANGE | SSH_ERR_DISCONNECTED
  | SSH_ERR_MAC_INVALID | SSH_ERR_NO_CIPHER_ALG_MATCH | SSH_ERR_NO_MAC_ALG_MATCH
  | SSH_ERR_NO_COMPRESS_ALG_MATCH | SSH_ERR_NO_KEX_ALG_MATCH | SSH_ERR_NO_HOSTKEY_ALG_MATCH
  | SSH_ERR_NO_HOSTKEY_LOADED | SSH_ERR_PROTOCOL_MISMATCH | SSH_ERR_NO_PROTOCOL_VERSION
  | SSH_ERR_NEED_REKEY | SSH_ERR_PASSPHRASE_TOO_SHORT | SSH_ERR_FILE_CHANGED
  | SSH_ERR_KEY_UNKNOWN_CIPHER | SSH_ERR_KEY_WRONG_PASSPHRASE | SSH_ERR_KEY_BAD_PERMISSIONS
  | SSH_ERR_KEY_CERT_MISMATCH | SSH_ERR_KEY_NOT_FOUND | SSH_ERR_AGENT_NOT_PRESENT
  | SSH_ERR_AGENT_NO_IDENTITIES | SSH_ERR_BUFFER_READ_ONLY | SSH_ERR_KRL_BAD_MAGIC
  | SSH_ERR_KEY_REVOKED | SSH_ERR_CONN_CLOSED | SSH_ERR_CONN_TIMEOUT | SSH_ERR_CONN_CORRUPT
  | SSH_ERR_PROTOCOL_ERROR | SSH_ERR_KEY_LENGTH | SSH_ERR_NUMBER_TOO_LARGE
  | SSH_ERR_SIGN_ALG_UNSUPPORTED

text \<open>A C function that returns 0 or a negative code, with its out-parameters: \<open>Inl\<close> the code,
  \<open>Inr\<close> the values stored on success.\<close>

type_synonym 'a res = "ssh_err + 'a"

section \<open>Arithmetic on size_t\<close>

text \<open>A 64-bit \<^verbatim>\<open>size_t\<close> is a natural number below \<open>SIZE_MAX + 1\<close>; every addition and
  subtraction of the code that could leave the range goes through these two functions.\<close>

definition SIZE_MAX :: nat where
  "SIZE_MAX = 18446744073709551615"

definition size_add :: "nat \<Rightarrow> nat \<Rightarrow> nat" where
  "size_add a b = (a + b) mod (SIZE_MAX + 1)"

definition size_sub :: "nat \<Rightarrow> nat \<Rightarrow> nat" where
  "size_sub a b = (if b \<le> a then a - b else SIZE_MAX + 1 + a - b)"

lemma size_add_exact [size_simps]: "a + b \<le> SIZE_MAX \<Longrightarrow> size_add a b = a + b"
  by (simp add: size_add_def)

lemma size_sub_exact [size_simps]: "b \<le> a \<Longrightarrow> size_sub a b = a - b"
  by (simp add: size_sub_def)

definition ROUNDUP :: "nat \<Rightarrow> nat \<Rightarrow> nat" where
  "ROUNDUP x y = ((size_add x (y - 1) div y) * y) mod (SIZE_MAX + 1)"

lemma ROUNDUP_exact:
  assumes "x + (y - 1) \<le> SIZE_MAX" and "0 < y"
  shows "ROUNDUP x y = (x + (y - 1)) div y * y"
proof -
  have "(x + (y - 1)) div y * y \<le> x + (y - 1)" by (rule div_times_less_eq_dividend)
  then have "(x + (y - 1)) div y * y \<le> SIZE_MAX" using assms(1) by (rule le_trans)
  then show ?thesis using assms by (simp add: ROUNDUP_def size_add_exact)
qed

lemma ROUNDUP_ge:
  assumes "x + (y - 1) \<le> SIZE_MAX" and "0 < y"
  shows "x \<le> ROUNDUP x y"
proof -
  have "(x + (y - 1)) mod y < y" using assms(2) by simp
  moreover have "(x + (y - 1)) div y * y + (x + (y - 1)) mod y = x + (y - 1)"
    by (rule div_mult_mod_eq)
  ultimately have "x \<le> (x + (y - 1)) div y * y" by linarith
  then show ?thesis using assms by (simp only: ROUNDUP_exact)
qed

section \<open>Array writes\<close>

text \<open>\<open>write_at i v xs\<close> is the array \<open>xs\<close> after \<^verbatim>\<open>memcpy(xs + i, v, length v)\<close>.\<close>

definition write_at :: "nat \<Rightarrow> 'a list \<Rightarrow> 'a list \<Rightarrow> 'a list" where
  "write_at i v xs = take i xs @ v @ drop (i + length v) xs"

lemma length_write_at [array_simps]:
  "i + length v \<le> length xs \<Longrightarrow> length (write_at i v xs) = length xs"
  by (simp add: write_at_def)

lemma write_at_Nil [array_simps, simp]: "write_at i [] xs = xs"
  by (simp add: write_at_def)

lemma drop_write_at:
  "k \<le> i \<Longrightarrow> i + length v \<le> length xs \<Longrightarrow>
   drop k (write_at i v xs) = take (i - k) (drop k xs) @ v @ drop (i + length v) xs"
  by (simp add: write_at_def drop_take)

lemma slice_write_at_before:
  assumes "j \<le> i" and "i + length v \<le> length xs"
  shows "take (j - k) (drop k (write_at i v xs)) = take (j - k) (drop k xs)"
proof (cases "k \<le> j")
  case True
  then have "drop k (write_at i v xs) = take (i - k) (drop k xs) @ v @ drop (i + length v) xs"
    using assms by (intro drop_write_at) auto
  moreover have "j - k \<le> length (take (i - k) (drop k xs))" using assms by simp
  ultimately show ?thesis using assms by (simp add: min_def)
qed simp

lemma slice_write_at_append:
  assumes "k \<le> i" and "i + length v \<le> length xs"
  shows "take (i + length v - k) (drop k (write_at i v xs)) = take (i - k) (drop k xs) @ v"
proof -
  have "drop k (write_at i v xs) = take (i - k) (drop k xs) @ v @ drop (i + length v) xs"
    using assms by (rule drop_write_at)
  moreover have "length (take (i - k) (drop k xs) @ v) = i + length v - k"
    using assms by simp
  ultimately show ?thesis by (metis append_assoc append_eq_conv_conj)
qed

lemma write_at_front_take:
  "length v \<le> length xs \<Longrightarrow> take (length v) (write_at 0 v xs) = v"
  by (simp add: write_at_def)

section \<open>Allocation\<close>

text \<open>What the code asks of the C allocator: whether a request of a given size succeeds, and the
  page size. Both are arguments of every operation that allocates.\<close>

record allocator =
  malloc_ok :: "nat \<Rightarrow> bool"
  pagesize :: nat

definition calloc :: "allocator \<Rightarrow> nat \<Rightarrow> nat \<Rightarrow> 'a::zero list option" where
  "calloc A nmemb sz = (if malloc_ok A (nmemb * sz) then Some (replicate nmemb 0) else None)"

definition MUL_NO_OVERFLOW :: nat where
  "MUL_NO_OVERFLOW = 4294967296"

text \<open>Arrays are lists of elements of \<open>sz\<close> bytes each; the result is the array of \<open>newnmemb\<close>
  elements that the returned pointer addresses.\<close>

definition recallocarray ::
    "allocator \<Rightarrow> 'a::zero list option \<Rightarrow> nat \<Rightarrow> nat \<Rightarrow> nat \<Rightarrow> 'a list option" where
  "recallocarray A ptr oldnmemb newnmemb sz =
    (case ptr of
       None \<Rightarrow> calloc A newnmemb sz
     | Some xs \<Rightarrow>
         if (newnmemb \<ge> MUL_NO_OVERFLOW \<or> sz \<ge> MUL_NO_OVERFLOW) \<and>
            newnmemb > 0 \<and> SIZE_MAX div newnmemb < sz then None
         else let newsize = newnmemb * sz in
         if (oldnmemb \<ge> MUL_NO_OVERFLOW \<or> sz \<ge> MUL_NO_OVERFLOW) \<and>
            oldnmemb > 0 \<and> SIZE_MAX div oldnmemb < sz then None
         else let oldsize = oldnmemb * sz in
         if newsize \<le> oldsize \<and> oldsize - newsize < oldsize div 2 \<and>
            oldsize - newsize < pagesize A then Some (take newnmemb xs)
         else if \<not> malloc_ok A newsize then None
         else if newsize > oldsize
           then Some (take oldnmemb xs @ replicate (newnmemb - oldnmemb) 0)
         else Some (take newnmemb xs))"

lemma recallocarray_Some_length:
  assumes "recallocarray A (Some xs) (length xs) n sz = Some ys" and "0 < sz"
  shows "length ys = n" and "take (min (length xs) n) ys = take n xs"
  using assms
  by (auto simp: recallocarray_def Let_def split: if_splits)

lemma recallocarray_ok:
  assumes "\<forall>k. malloc_ok A k" and "n < MUL_NO_OVERFLOW" and "length xs < MUL_NO_OVERFLOW"
    and "sz < MUL_NO_OVERFLOW"
  shows "\<exists>ys. recallocarray A (Some xs) (length xs) n sz = Some ys"
  using assms by (auto simp: recallocarray_def Let_def)

lemma recallocarray_grow:
  assumes "recallocarray A (Some xs) (length xs) n sz = Some ys" and "length xs \<le> n" and "0 < sz"
  shows "ys = xs @ replicate (n - length xs) 0"
  using assms by (auto simp: recallocarray_def Let_def split: if_splits)

end
