(* ===== verification/Sshbuf.thy ===== *)
theory Sshbuf
  imports Pkix_Prelude
begin

text \<open>
  The byte buffer of \<^verbatim>\<open>sshbuf.c\<close>: its state, the operations on one buffer, the sanity invariant
  and the abstraction to the byte sequence it holds. Reference counting and parent buffers are in
  \<open>Sshbuf_Heap\<close>, the wire encodings in \<open>Sshbuf_Getput\<close>.
\<close>

named_theorems sshbuf_defs "definitions of the buffer operations"

section \<open>State\<close>

text \<open>
  The pointers \<^verbatim>\<open>d\<close> and \<^verbatim>\<open>cd\<close> of \<^verbatim>\<open>struct sshbuf\<close> are one value: \<open>MemAlloc xs\<close> when both point to
  the allocated array \<open>xs\<close>, \<open>MemConst xs\<close> when \<^verbatim>\<open>d\<close> is NULL and \<^verbatim>\<open>cd\<close> points to foreign bytes
  \<open>xs\<close>, and \<open>MemNull\<close> when both are NULL.
\<close>

datatype bufmem = MemNull | MemAlloc "byte list" | MemConst "byte list"

fun mem_bytes :: "bufmem \<Rightarrow> byte list" where
  "mem_bytes MemNull = []"
| "mem_bytes (MemAlloc xs) = xs"
| "mem_bytes (MemConst xs) = xs"

fun mem_d :: "bufmem \<Rightarrow> byte list option" where
  "mem_d (MemAlloc xs) = Some xs"
| "mem_d _ = None"

record sshbuf =
  bmem :: bufmem
  off :: nat
  bsize :: nat
  max_size :: nat
  alloc :: nat
  readonly :: bool
  refcount :: nat
  parent :: "nat option"

definition SSHBUF_SIZE_MAX :: nat where "SSHBUF_SIZE_MAX = 0x8000000"
definition SSHBUF_REFS_MAX :: nat where "SSHBUF_REFS_MAX = 0x100000"
definition SSHBUF_SIZE_INIT :: nat where "SSHBUF_SIZE_INIT = 256"
definition SSHBUF_SIZE_INC :: nat where "SSHBUF_SIZE_INC = 256"
definition SSHBUF_PACK_MIN :: nat where "SSHBUF_PACK_MIN = 8192"

lemmas sshbuf_consts = SSHBUF_SIZE_MAX_def SSHBUF_REFS_MAX_def SSHBUF_SIZE_INIT_def
  SSHBUF_SIZE_INC_def SSHBUF_PACK_MIN_def SIZE_MAX_def

section \<open>Operations\<close>

text \<open>On a corrupted buffer the code raises SIGSEGV with its default action; the value it would
  return if the signal were blocked is the error of the model.\<close>

definition sshbuf_check_sanity :: "sshbuf \<Rightarrow> unit res" where
  "sshbuf_check_sanity buf =
    (if (\<not> readonly buf \<and> (case bmem buf of MemConst _ \<Rightarrow> True | _ \<Rightarrow> False)) \<or>
        refcount buf < 1 \<or> refcount buf > SSHBUF_REFS_MAX \<or>
        bmem buf = MemNull \<or>
        max_size buf > SSHBUF_SIZE_MAX \<or>
        alloc buf > max_size buf \<or>
        bsize buf > alloc buf \<or>
        off buf > bsize buf
     then Inl SSH_ERR_INTERNAL_ERROR else Inr ())"

definition sane :: "sshbuf \<Rightarrow> bool" where
  "sane buf \<longleftrightarrow> sshbuf_check_sanity buf = Inr ()"

definition set_bytes :: "byte list \<Rightarrow> sshbuf \<Rightarrow> sshbuf" where
  "set_bytes xs buf = buf\<lparr>bmem := (case bmem buf of MemNull \<Rightarrow> MemNull
     | MemAlloc _ \<Rightarrow> MemAlloc xs | MemConst _ \<Rightarrow> MemConst xs)\<rparr>"

definition sshbuf_maybe_pack :: "sshbuf \<Rightarrow> bool \<Rightarrow> sshbuf" where
  "sshbuf_maybe_pack buf force =
    (if off buf = 0 \<or> readonly buf \<or> refcount buf > 1 then buf
     else if force \<or> (off buf \<ge> SSHBUF_PACK_MIN \<and> off buf \<ge> bsize buf div 2) then
       let d = mem_bytes (bmem buf); n = bsize buf - off buf in
       (set_bytes (write_at 0 (take n (drop (off buf) d)) d) buf)\<lparr>bsize := n, off := 0\<rparr>
     else buf)"

definition sshbuf_new :: "allocator \<Rightarrow> bool \<Rightarrow> sshbuf option" where
  "sshbuf_new A struct_ok =
    (if \<not> struct_ok then None
     else (case calloc A SSHBUF_SIZE_INIT 1 of
         None \<Rightarrow> None
       | Some d \<Rightarrow>
           Some \<lparr>bmem = MemAlloc d, off = 0, bsize = 0,
                 max_size = SSHBUF_SIZE_MAX, alloc = SSHBUF_SIZE_INIT, readonly = False,
                 refcount = 1, parent = None\<rparr>))"

definition sshbuf_from :: "bool \<Rightarrow> byte list option \<Rightarrow> nat \<Rightarrow> sshbuf option" where
  "sshbuf_from struct_ok blob len =
    (case blob of
       None \<Rightarrow> None
     | Some xs \<Rightarrow>
         if len > SSHBUF_SIZE_MAX \<or> \<not> struct_ok then None
         else Some \<lparr>bmem = MemConst (take len xs), off = 0, bsize = len, max_size = len,
                    alloc = len, readonly = True, refcount = 1, parent = None\<rparr>)"

definition sshbuf_reset :: "allocator \<Rightarrow> sshbuf \<Rightarrow> sshbuf" where
  "sshbuf_reset A buf =
    (if readonly buf \<or> refcount buf > 1 then buf\<lparr>off := bsize buf\<rparr>
     else let buf1 = buf\<lparr>off := 0, bsize := 0\<rparr>;
              buf2 = (if alloc buf1 \<noteq> SSHBUF_SIZE_INIT then
                  (case recallocarray A (mem_d (bmem buf1)) (alloc buf1) SSHBUF_SIZE_INIT 1 of
                     None \<Rightarrow> buf1
                   | Some d \<Rightarrow> buf1\<lparr>bmem := MemAlloc d, alloc := SSHBUF_SIZE_INIT\<rparr>)
                else buf1)
       in set_bytes (write_at 0 (replicate (min SSHBUF_SIZE_INIT (length (mem_bytes (bmem buf2)))) 0)
            (mem_bytes (bmem buf2))) buf2)"

text \<open>The shrunken allocation size of \<^verbatim>\<open>sshbuf_set_max_size\<close>, and its last test.\<close>

definition set_max_rlen :: "sshbuf \<Rightarrow> nat \<Rightarrow> nat" where
  "set_max_rlen buf msize =
    (let rlen = (if bsize buf < SSHBUF_SIZE_INIT then SSHBUF_SIZE_INIT
                 else ROUNDUP (bsize buf) SSHBUF_SIZE_INC)
     in if rlen > msize then msize else rlen)"

definition set_max_commit :: "sshbuf \<Rightarrow> nat \<Rightarrow> unit res \<times> sshbuf" where
  "set_max_commit buf msize =
    (if msize < alloc buf then (Inl SSH_ERR_NO_BUFFER_SPACE, buf)
     else (Inr (), buf\<lparr>max_size := msize\<rparr>))"

definition sshbuf_set_max_size :: "allocator \<Rightarrow> sshbuf \<Rightarrow> nat \<Rightarrow> unit res \<times> sshbuf" where
  "sshbuf_set_max_size A buf msize =
    (case sshbuf_check_sanity buf of Inl e \<Rightarrow> (Inl e, buf) | Inr _ \<Rightarrow>
     if msize = max_size buf then (Inr (), buf)
     else if readonly buf \<or> refcount buf > 1 then (Inl SSH_ERR_BUFFER_READ_ONLY, buf)
     else if msize > SSHBUF_SIZE_MAX then (Inl SSH_ERR_NO_BUFFER_SPACE, buf)
     else
       let buf1 = sshbuf_maybe_pack buf (msize < bsize buf) in
       if msize < alloc buf1 \<and> msize > bsize buf1 then
         let rlen = set_max_rlen buf1 msize in
         (case recallocarray A (mem_d (bmem buf1)) (alloc buf1) rlen 1 of
            None \<Rightarrow> (Inl SSH_ERR_ALLOC_FAIL, buf1)
          | Some dp \<Rightarrow> set_max_commit (buf1\<lparr>bmem := MemAlloc dp, alloc := rlen\<rparr>) msize)
       else set_max_commit buf1 msize)"

definition sshbuf_len :: "sshbuf \<Rightarrow> nat" where
  "sshbuf_len buf = (case sshbuf_check_sanity buf of Inl _ \<Rightarrow> 0 | Inr _ \<Rightarrow> bsize buf - off buf)"

definition sshbuf_avail :: "sshbuf \<Rightarrow> nat" where
  "sshbuf_avail buf =
    (case sshbuf_check_sanity buf of Inl _ \<Rightarrow> 0 | Inr _ \<Rightarrow>
     if readonly buf \<or> refcount buf > 1 then 0
     else size_sub (max_size buf) (bsize buf - off buf))"

text \<open>The pointers returned by \<^verbatim>\<open>sshbuf_ptr\<close> and \<^verbatim>\<open>sshbuf_mutable_ptr\<close> are indices into the array;
  \<open>None\<close> is NULL.\<close>

definition sshbuf_ptr :: "sshbuf \<Rightarrow> nat option" where
  "sshbuf_ptr buf = (case sshbuf_check_sanity buf of Inl _ \<Rightarrow> None | Inr _ \<Rightarrow> Some (off buf))"

definition sshbuf_mutable_ptr :: "sshbuf \<Rightarrow> nat option" where
  "sshbuf_mutable_ptr buf =
    (case sshbuf_check_sanity buf of Inl _ \<Rightarrow> None | Inr _ \<Rightarrow>
     if readonly buf \<or> refcount buf > 1 then None else Some (off buf))"

definition sshbuf_check_reserve :: "sshbuf \<Rightarrow> nat \<Rightarrow> unit res" where
  "sshbuf_check_reserve buf len =
    (case sshbuf_check_sanity buf of Inl e \<Rightarrow> Inl e | Inr _ \<Rightarrow>
     if readonly buf \<or> refcount buf > 1 then Inl SSH_ERR_BUFFER_READ_ONLY
     else if len > max_size buf \<or> max_size buf - len < bsize buf - off buf
       then Inl SSH_ERR_NO_BUFFER_SPACE
     else Inr ())"

text \<open>The new allocation size chosen in \<^verbatim>\<open>sshbuf_allocate\<close>.\<close>

definition allocate_rlen :: "sshbuf \<Rightarrow> nat \<Rightarrow> nat" where
  "allocate_rlen buf len =
    (let need = size_sub (size_add len (bsize buf)) (alloc buf);
         rlen = ROUNDUP (size_add (alloc buf) need) SSHBUF_SIZE_INC
     in if rlen > max_size buf then size_add (alloc buf) need else rlen)"

definition sshbuf_allocate :: "allocator \<Rightarrow> sshbuf \<Rightarrow> nat \<Rightarrow> unit res \<times> sshbuf" where
  "sshbuf_allocate A buf len =
    (case sshbuf_check_reserve buf len of Inl e \<Rightarrow> (Inl e, buf) | Inr _ \<Rightarrow>
     let buf1 = sshbuf_maybe_pack buf (size_add (bsize buf) len > max_size buf) in
     if size_add len (bsize buf1) \<le> alloc buf1 then (Inr (), buf1)
     else
       let rlen = allocate_rlen buf1 len
       in (case recallocarray A (mem_d (bmem buf1)) (alloc buf1) rlen 1 of
             None \<Rightarrow> (Inl SSH_ERR_ALLOC_FAIL, buf1)
           | Some dp \<Rightarrow>
               let buf2 = buf1\<lparr>alloc := rlen, bmem := MemAlloc dp\<rparr> in
               (case sshbuf_check_reserve buf2 len of
                  Inl e \<Rightarrow> (Inl e, buf2) | Inr _ \<Rightarrow> (Inr (), buf2))))"

text \<open>The pointer stored in \<^verbatim>\<open>*dpp\<close> is the index of the first reserved byte.\<close>

definition sshbuf_reserve :: "allocator \<Rightarrow> sshbuf \<Rightarrow> nat \<Rightarrow> nat res \<times> sshbuf" where
  "sshbuf_reserve A buf len =
    (case sshbuf_allocate A buf len of
       (Inl e, buf1) \<Rightarrow> (Inl e, buf1)
     | (Inr _, buf1) \<Rightarrow> (Inr (bsize buf1), buf1\<lparr>bsize := size_add (bsize buf1) len\<rparr>))"

definition sshbuf_consume :: "sshbuf \<Rightarrow> nat \<Rightarrow> unit res \<times> sshbuf" where
  "sshbuf_consume buf len =
    (case sshbuf_check_sanity buf of Inl e \<Rightarrow> (Inl e, buf) | Inr _ \<Rightarrow>
     if len = 0 then (Inr (), buf)
     else if len > sshbuf_len buf then (Inl SSH_ERR_MESSAGE_INCOMPLETE, buf)
     else let buf1 = buf\<lparr>off := off buf + len\<rparr> in
       (Inr (), if off buf1 = bsize buf1 then buf1\<lparr>off := 0, bsize := 0\<rparr> else buf1))"

definition sshbuf_consume_end :: "sshbuf \<Rightarrow> nat \<Rightarrow> unit res \<times> sshbuf" where
  "sshbuf_consume_end buf len =
    (case sshbuf_check_sanity buf of Inl e \<Rightarrow> (Inl e, buf) | Inr _ \<Rightarrow>
     if len = 0 then (Inr (), buf)
     else if len > sshbuf_len buf then (Inl SSH_ERR_MESSAGE_INCOMPLETE, buf)
     else (Inr (), buf\<lparr>bsize := bsize buf - len\<rparr>))"

section \<open>Invariant and abstraction\<close>

text \<open>A well-formed buffer passes the sanity check and its array has exactly \<open>alloc\<close> bytes. Its
  contents are the bytes from \<^verbatim>\<open>sshbuf_ptr\<close> on, \<^verbatim>\<open>sshbuf_len\<close> of them.\<close>

definition sshbuf_wf :: "sshbuf \<Rightarrow> bool" where
  "sshbuf_wf buf \<longleftrightarrow> sane buf \<and> length (mem_bytes (bmem buf)) = alloc buf"

definition contents :: "sshbuf \<Rightarrow> byte list" where
  "contents buf = take (bsize buf - off buf) (drop (off buf) (mem_bytes (bmem buf)))"

definition writable :: "sshbuf \<Rightarrow> bool" where
  "writable buf \<longleftrightarrow> \<not> readonly buf \<and> refcount buf \<le> 1"

lemma sane_iff:
  "sane buf \<longleftrightarrow> \<not> (\<not> readonly buf \<and> (case bmem buf of MemConst _ \<Rightarrow> True | _ \<Rightarrow> False)) \<and>
     1 \<le> refcount buf \<and> refcount buf \<le> SSHBUF_REFS_MAX \<and> bmem buf \<noteq> MemNull \<and>
     max_size buf \<le> SSHBUF_SIZE_MAX \<and> alloc buf \<le> max_size buf \<and> bsize buf \<le> alloc buf \<and>
     off buf \<le> bsize buf"
  by (auto simp: sane_def sshbuf_check_sanity_def)

lemma check_sanity_sane [simp]: "sane buf \<Longrightarrow> sshbuf_check_sanity buf = Inr ()"
  by (simp add: sane_def)

lemma check_sanity_insane: "\<not> sane buf \<Longrightarrow> sshbuf_check_sanity buf = Inl SSH_ERR_INTERNAL_ERROR"
  by (simp add: sane_def sshbuf_check_sanity_def split: if_splits)

lemma sshbuf_wf_sane [simp]: "sshbuf_wf buf \<Longrightarrow> sane buf"
  by (simp add: sshbuf_wf_def)

lemma sshbuf_wf_bounds:
  assumes "sshbuf_wf buf"
  shows "off buf \<le> bsize buf" "bsize buf \<le> alloc buf" "alloc buf \<le> max_size buf"
    "max_size buf \<le> SSHBUF_SIZE_MAX" "length (mem_bytes (bmem buf)) = alloc buf"
  using assms by (auto simp: sshbuf_wf_def sane_iff)

lemma length_contents [simp]:
  assumes "sshbuf_wf buf" shows "length (contents buf) = bsize buf - off buf"
  using sshbuf_wf_bounds [OF assms] by (simp add: contents_def)

lemma sshbuf_len_contents [simp]: "sshbuf_wf buf \<Longrightarrow> sshbuf_len buf = length (contents buf)"
  by (simp add: sshbuf_len_def)

lemma writable_MemAlloc:
  assumes "sshbuf_wf buf" and "writable buf"
  obtains xs where "bmem buf = MemAlloc xs" "length xs = alloc buf"
  using assms by (cases "bmem buf") (auto simp: sshbuf_wf_def sane_iff writable_def)

section \<open>Each operation keeps the invariant\<close>

lemma sshbuf_new_wf:
  "sshbuf_new A ok = Some buf \<Longrightarrow> sshbuf_wf buf \<and> contents buf = [] \<and> writable buf"
  by (auto simp: sshbuf_new_def sshbuf_wf_def sane_iff contents_def writable_def calloc_def
      sshbuf_consts split: if_splits)

lemma sshbuf_from_wf:
  assumes "sshbuf_from ok (Some xs) len = Some buf" and "len \<le> length xs"
  shows "sshbuf_wf buf" and "contents buf = take len xs" and "readonly buf"
  using assms by (auto simp: sshbuf_from_def sshbuf_wf_def sane_iff contents_def
      sshbuf_consts split: if_splits)

lemma sshbuf_maybe_pack_frame [simp]:
  "max_size (sshbuf_maybe_pack buf f) = max_size buf"
  "alloc (sshbuf_maybe_pack buf f) = alloc buf"
  "readonly (sshbuf_maybe_pack buf f) = readonly buf"
  "refcount (sshbuf_maybe_pack buf f) = refcount buf"
  "parent (sshbuf_maybe_pack buf f) = parent buf"
  by (simp_all add: sshbuf_maybe_pack_def set_bytes_def Let_def)

lemma writable_maybe_pack [simp]: "writable (sshbuf_maybe_pack buf f) = writable buf"
  by (simp add: writable_def)

lemma sshbuf_maybe_pack_wf:
  assumes wf: "sshbuf_wf buf"
  shows "sshbuf_wf (sshbuf_maybe_pack buf f)"
    and "contents (sshbuf_maybe_pack buf f) = contents buf"
proof -
  note b = sshbuf_wf_bounds [OF wf]
  let ?d = "mem_bytes (bmem buf)" and ?n = "bsize buf - off buf"
  let ?v = "take ?n (drop (off buf) ?d)"
  have lv: "length ?v = ?n" using b by simp
  have packed: "sshbuf_wf buf' \<and> contents buf' = contents buf"
    if "buf' = (set_bytes (write_at 0 ?v ?d) buf)\<lparr>bsize := ?n, off := 0\<rparr>" for buf'
  proof -
    have m: "mem_bytes (bmem buf') = write_at 0 ?v ?d"
      using wf that by (cases "bmem buf") (auto simp: set_bytes_def sshbuf_wf_def sane_iff)
    have "length (write_at 0 ?v ?d) = alloc buf" using b lv by (subst length_write_at) auto
    moreover have "sane buf'"
      using wf that b by (cases "bmem buf") (auto simp: set_bytes_def sshbuf_wf_def sane_iff)
    ultimately have "sshbuf_wf buf'" using m that by (simp add: sshbuf_wf_def set_bytes_def)
    moreover have "contents buf' = ?v"
      using m lv that b write_at_front_take [of ?v ?d] by (simp add: contents_def)
    ultimately show ?thesis by (simp add: contents_def)
  qed
  have "sshbuf_wf (sshbuf_maybe_pack buf f) \<and> contents (sshbuf_maybe_pack buf f) = contents buf"
    using wf packed unfolding sshbuf_maybe_pack_def Let_def by simp
  then show "sshbuf_wf (sshbuf_maybe_pack buf f)"
    and "contents (sshbuf_maybe_pack buf f) = contents buf" by auto
qed

lemma sshbuf_maybe_pack_forced:
  "writable buf \<Longrightarrow> off buf \<le> bsize buf \<Longrightarrow>
   bsize (sshbuf_maybe_pack buf True) = bsize buf - off buf \<and> off (sshbuf_maybe_pack buf True) = 0"
  by (simp add: sshbuf_maybe_pack_def set_bytes_def writable_def Let_def)

lemma sshbuf_maybe_pack_shrinks:
  "bsize (sshbuf_maybe_pack buf f) \<le> bsize buf"
  by (simp add: sshbuf_maybe_pack_def set_bytes_def Let_def)

lemma sshbuf_check_reserve_iff:
  assumes "sshbuf_wf buf"
  shows "sshbuf_check_reserve buf len = Inr () \<longleftrightarrow>
    writable buf \<and> length (contents buf) + len \<le> max_size buf"
  using assms sshbuf_wf_bounds [OF assms]
  by (auto simp: sshbuf_check_reserve_def writable_def)

lemma sshbuf_check_reserve_error:
  assumes "sshbuf_wf buf"
  shows "sshbuf_check_reserve buf len =
    (if \<not> writable buf then Inl SSH_ERR_BUFFER_READ_ONLY
     else if max_size buf < length (contents buf) + len then Inl SSH_ERR_NO_BUFFER_SPACE
     else Inr ())"
  using assms sshbuf_wf_bounds [OF assms]
  by (auto simp: sshbuf_check_reserve_def writable_def)

lemma sshbuf_regrow_wf:
  assumes wf: "sshbuf_wf buf" and w: "writable buf"
    and rl: "alloc buf \<le> rlen" "rlen \<le> max_size buf"
    and rc: "recallocarray A (mem_d (bmem buf)) (alloc buf) rlen 1 = Some dp"
  shows "sshbuf_wf (buf\<lparr>alloc := rlen, bmem := MemAlloc dp\<rparr>)"
    and "contents (buf\<lparr>alloc := rlen, bmem := MemAlloc dp\<rparr>) = contents buf"
proof -
  obtain xs where xs: "bmem buf = MemAlloc xs" "length xs = alloc buf"
    using writable_MemAlloc [OF wf w] by blast
  have dp: "dp = xs @ replicate (rlen - length xs) 0"
    using rc rl xs by (intro recallocarray_grow [of A xs rlen 1]) auto
  note b = sshbuf_wf_bounds [OF wf]
  show "sshbuf_wf (buf\<lparr>alloc := rlen, bmem := MemAlloc dp\<rparr>)"
    using wf xs rl b by (simp add: sshbuf_wf_def sane_iff dp)
  show "contents (buf\<lparr>alloc := rlen, bmem := MemAlloc dp\<rparr>) = contents buf"
    using xs b by (simp add: contents_def dp)
qed

text \<open>After the packing step of \<^verbatim>\<open>sshbuf_allocate\<close> the request fits below \<open>max_size\<close>.\<close>

lemma sshbuf_pack_fits:
  assumes wf: "sshbuf_wf buf" and ok: "sshbuf_check_reserve buf len = Inr ()"
  shows "bsize (sshbuf_maybe_pack buf (size_add (bsize buf) len > max_size buf)) + len \<le> max_size buf"
proof -
  note b = sshbuf_wf_bounds [OF wf]
  have w: "writable buf" and l: "length (contents buf) + len \<le> max_size buf"
    using ok wf by (auto simp: sshbuf_check_reserve_iff)
  have sum: "size_add (bsize buf) len = bsize buf + len"
    using b l by (intro size_add_exact) (auto simp: sshbuf_consts)
  show ?thesis
  proof (cases "bsize buf + len > max_size buf")
    case True
    then show ?thesis using sshbuf_maybe_pack_forced [OF w] b l wf by (simp add: sum)
  next
    case False
    then show ?thesis using sshbuf_maybe_pack_shrinks [of buf False] by (simp add: sum)
  qed
qed

lemma allocate_rlen_bounds:
  assumes "bsize buf + len \<le> max_size buf" and "max_size buf \<le> SSHBUF_SIZE_MAX"
    and "alloc buf < bsize buf + len"
  shows "bsize buf + len \<le> allocate_rlen buf len" and "allocate_rlen buf len \<le> max_size buf"
proof -
  have e: "size_add (alloc buf) (size_sub (size_add len (bsize buf)) (alloc buf)) = bsize buf + len"
    using assms by (simp add: size_simps sshbuf_consts)
  have "bsize buf + len \<le> ROUNDUP (bsize buf + len) SSHBUF_SIZE_INC"
    using assms(1,2) by (intro ROUNDUP_ge) (auto simp: sshbuf_consts)
  then show "bsize buf + len \<le> allocate_rlen buf len"
    by (simp add: allocate_rlen_def Let_def e)
  show "allocate_rlen buf len \<le> max_size buf"
    using assms(1) by (simp add: allocate_rlen_def Let_def e)
qed

definition same_header :: "sshbuf \<Rightarrow> sshbuf \<Rightarrow> bool" where
  "same_header b b' \<longleftrightarrow> max_size b' = max_size b \<and> readonly b' = readonly b \<and>
     refcount b' = refcount b \<and> parent b' = parent b"

lemma same_header_refl [simp]: "same_header b b"
  by (simp add: same_header_def)

lemma same_header_trans: "same_header a b \<Longrightarrow> same_header b c \<Longrightarrow> same_header a c"
  by (simp add: same_header_def)

lemma same_header_writable: "same_header b b' \<Longrightarrow> writable b' = writable b"
  by (simp add: same_header_def writable_def)

lemma same_header_maybe_pack [simp]: "same_header b (sshbuf_maybe_pack b f)"
  by (simp add: same_header_def)

lemma sshbuf_allocate_correct:
  assumes wf: "sshbuf_wf buf" and run: "sshbuf_allocate A buf len = (r, buf')"
  shows "sshbuf_wf buf' \<and> contents buf' = contents buf \<and> same_header buf buf' \<and>
    (r = Inr () \<longrightarrow> bsize buf' + len \<le> alloc buf') \<and>
    (\<forall>e. r = Inl e \<longrightarrow> sshbuf_check_reserve buf len = Inl e \<or>
       e = SSH_ERR_ALLOC_FAIL \<and> sshbuf_check_reserve buf len = Inr ())"
proof (cases "sshbuf_check_reserve buf len")
  case (Inl e)
  then show ?thesis using wf run by (auto simp: sshbuf_allocate_def)
next
  case (Inr u)
  define b1 where "b1 = sshbuf_maybe_pack buf (size_add (bsize buf) len > max_size buf)"
  have ok: "sshbuf_check_reserve buf len = Inr ()" using Inr by simp
  have wf1: "sshbuf_wf b1" and c1: "contents b1 = contents buf"
    and h1: "same_header buf b1" and w1: "writable b1"
    using sshbuf_maybe_pack_wf [OF wf] ok wf by (auto simp: b1_def sshbuf_check_reserve_iff)
  have fits: "bsize b1 + len \<le> max_size b1"
    using sshbuf_pack_fits [OF wf ok] by (simp add: b1_def)
  note b = sshbuf_wf_bounds [OF wf1]
  have s1: "size_add len (bsize b1) = len + bsize b1"
    using fits b by (intro size_add_exact) (auto simp: sshbuf_consts)
  show ?thesis
  proof (cases "len + bsize b1 \<le> alloc b1")
    case True
    then have "r = Inr ()" "buf' = b1"
      using run ok by (auto simp: sshbuf_allocate_def Let_def b1_def [symmetric] s1)
    then show ?thesis using True wf1 c1 h1 by simp
  next
    case False
    let ?rlen = "allocate_rlen b1 len"
    have rl: "bsize b1 + len \<le> ?rlen" "?rlen \<le> max_size b1"
      using allocate_rlen_bounds [OF fits b(4)] False by auto
    show ?thesis
    proof (cases "recallocarray A (mem_d (bmem b1)) (alloc b1) ?rlen 1")
      case None
      then have "r = Inl SSH_ERR_ALLOC_FAIL" "buf' = b1"
        using run ok False
        by (auto simp: sshbuf_allocate_def Let_def b1_def [symmetric] s1)
      then show ?thesis using wf1 c1 h1 ok by simp
    next
      case (Some dp)
      let ?b2 = "b1\<lparr>alloc := ?rlen, bmem := MemAlloc dp\<rparr>"
      have wf2: "sshbuf_wf ?b2" and c2: "contents ?b2 = contents b1"
        using sshbuf_regrow_wf [OF wf1 w1 _ rl(2) Some] rl(1) False by auto
      have "sshbuf_check_reserve ?b2 len = Inr ()"
        using wf2 c2 w1 fits b(1) wf1
        by (simp add: sshbuf_check_reserve_iff writable_def)
      then have "r = Inr ()" "buf' = ?b2"
        using run ok False Some
        by (auto simp: sshbuf_allocate_def Let_def b1_def [symmetric] s1)
      then show ?thesis using wf2 c2 c1 h1 rl(1) by (simp add: same_header_def)
    qed
  qed
qed

text \<open>If memory is available, \<^verbatim>\<open>sshbuf_allocate\<close> succeeds exactly when \<^verbatim>\<open>sshbuf_check_reserve\<close> says so.\<close>

lemma sshbuf_allocate_total:
  assumes wf: "sshbuf_wf buf" and mem: "\<forall>k. malloc_ok A k"
  shows "fst (sshbuf_allocate A buf len) = sshbuf_check_reserve buf len"
proof (cases "sshbuf_check_reserve buf len")
  case (Inl e)
  then show ?thesis by (simp add: sshbuf_allocate_def)
next
  case (Inr u)
  then have ok: "sshbuf_check_reserve buf len = Inr ()" by simp
  obtain r buf' where run: "sshbuf_allocate A buf len = (r, buf')" by force
  define b1 where "b1 = sshbuf_maybe_pack buf (size_add (bsize buf) len > max_size buf)"
  have wf1: "sshbuf_wf b1" and w1: "writable b1"
    using sshbuf_maybe_pack_wf [OF wf] ok wf by (auto simp: b1_def sshbuf_check_reserve_iff)
  have fits: "bsize b1 + len \<le> max_size b1"
    using sshbuf_pack_fits [OF wf ok] by (simp add: b1_def)
  note b = sshbuf_wf_bounds [OF wf1]
  obtain xs where xs: "bmem b1 = MemAlloc xs" "length xs = alloc b1"
    using writable_MemAlloc [OF wf1 w1] by blast
  have s1: "size_add len (bsize b1) = len + bsize b1"
    using fits b by (intro size_add_exact) (auto simp: sshbuf_consts)
  have "r \<noteq> Inl SSH_ERR_ALLOC_FAIL"
  proof (cases "len + bsize b1 \<le> alloc b1")
    case True
    then show ?thesis
      using run ok by (auto simp: sshbuf_allocate_def Let_def b1_def [symmetric] s1)
  next
    case False
    then have "allocate_rlen b1 len \<le> max_size b1"
      by (intro allocate_rlen_bounds(2) [OF fits b(4)]) simp
    then obtain dp where
      "recallocarray A (Some xs) (length xs) (allocate_rlen b1 len) 1 = Some dp"
      using recallocarray_ok [OF mem, of "allocate_rlen b1 len" xs 1] xs b
      by (auto simp: sshbuf_consts MUL_NO_OVERFLOW_def)
    then show ?thesis
      using run ok False xs
      by (auto simp: sshbuf_allocate_def Let_def b1_def [symmetric] s1 sshbuf_check_reserve_def
          sshbuf_check_sanity_def split: if_splits)
  qed
  then show ?thesis using sshbuf_allocate_correct [OF wf run] run ok by (cases r) auto
qed

text \<open>What a successful reservation of \<open>len\<close> bytes at index \<open>p\<close> gives: the old contents, then \<open>len\<close>
  bytes inside the array.\<close>

definition reserved :: "sshbuf \<Rightarrow> sshbuf \<Rightarrow> nat \<Rightarrow> nat \<Rightarrow> bool" where
  "reserved buf buf' p len \<longleftrightarrow> bsize buf' = p + len \<and> off buf' \<le> p \<and> writable buf' \<and>
     take (p - off buf') (drop (off buf') (mem_bytes (bmem buf'))) = contents buf"

lemma sshbuf_reserve_correct:
  assumes wf: "sshbuf_wf buf" and run: "sshbuf_reserve A buf len = (r, buf')"
  shows "sshbuf_wf buf' \<and> same_header buf buf' \<and>
    (\<forall>p. r = Inr p \<longrightarrow> reserved buf buf' p len) \<and> (\<forall>e. r = Inl e \<longrightarrow> contents buf' = contents buf)"
proof -
  obtain r1 b1 where run1: "sshbuf_allocate A buf len = (r1, b1)" by force
  have c: "sshbuf_wf b1 \<and> contents b1 = contents buf \<and> same_header buf b1 \<and>
    (r1 = Inr () \<longrightarrow> bsize b1 + len \<le> alloc b1)"
    using sshbuf_allocate_correct [OF wf run1] by blast
  note b = sshbuf_wf_bounds [OF conjunct1 [OF c]]
  show ?thesis
  proof (cases r1)
    case (Inl e')
    then have "r = Inl e'" "buf' = b1" using run run1 by (auto simp: sshbuf_reserve_def)
    then show ?thesis using c by auto
  next
    case (Inr u)
    have wr: "writable buf"
      using run1 Inr wf by (auto simp: sshbuf_allocate_def sshbuf_check_reserve_iff
          split: sum.splits if_splits)
    have fits: "bsize b1 + len \<le> alloc b1" using c Inr by simp
    then have "size_add (bsize b1) len = bsize b1 + len"
      using b by (intro size_add_exact) (auto simp: sshbuf_consts)
    then have r: "r = Inr (bsize b1)" "buf' = b1\<lparr>bsize := bsize b1 + len\<rparr>"
      using run run1 Inr by (auto simp: sshbuf_reserve_def)
    have "sshbuf_wf buf'" using c fits b r by (auto simp: sshbuf_wf_def sane_iff)
    moreover have "same_header buf buf'" "reserved buf buf' (bsize b1) len"
      using c b r wr same_header_writable [of buf b1]
      by (auto simp: same_header_def writable_def contents_def reserved_def)
    ultimately show ?thesis using r by simp
  qed
qed

lemma sshbuf_reserve_total:
  assumes "sshbuf_wf buf" and "\<forall>k. malloc_ok A k"
  shows "(\<exists>p. fst (sshbuf_reserve A buf len) = Inr p) \<longleftrightarrow>
     writable buf \<and> length (contents buf) + len \<le> max_size buf"
proof -
  have "(\<exists>p. fst (sshbuf_reserve A buf len) = Inr p) \<longleftrightarrow> fst (sshbuf_allocate A buf len) = Inr ()"
    by (auto simp: sshbuf_reserve_def split: prod.splits sum.splits)
  then show ?thesis using sshbuf_allocate_total [OF assms] sshbuf_check_reserve_iff [OF assms(1)]
    by simp
qed

lemma sshbuf_consume_incomplete:
  "sshbuf_wf buf \<Longrightarrow> length (contents buf) < len \<Longrightarrow>
   sshbuf_consume buf len = (Inl SSH_ERR_MESSAGE_INCOMPLETE, buf)"
  by (simp add: sshbuf_consume_def)

lemma sshbuf_consume_correct:
  assumes wf: "sshbuf_wf buf" and len: "len \<le> length (contents buf)"
  shows "\<exists>buf'. sshbuf_consume buf len = (Inr (), buf') \<and> sshbuf_wf buf' \<and>
    contents buf' = drop len (contents buf) \<and> same_header buf buf' \<and> bmem buf' = bmem buf"
proof -
  note b = sshbuf_wf_bounds [OF wf]
  have le: "off buf + len \<le> bsize buf" using len wf b by simp
  have c: "drop len (contents buf) = take (bsize buf - (off buf + len))
      (drop (off buf + len) (mem_bytes (bmem buf)))"
    by (simp add: contents_def drop_take diff_diff_left add.commute)
  consider (zero) "len = 0" | (all) "len \<noteq> 0" "off buf + len = bsize buf"
    | (part) "len \<noteq> 0" "off buf + len < bsize buf" using le by linarith
  then show ?thesis
  proof cases
    case zero
    then show ?thesis using wf by (simp add: sshbuf_consume_def)
  next
    case all
    then have "sshbuf_consume buf len = (Inr (), buf\<lparr>off := 0, bsize := 0\<rparr>)"
      using wf len by (simp add: sshbuf_consume_def Let_def)
    moreover have "sshbuf_wf (buf\<lparr>off := 0, bsize := 0\<rparr>)"
      using wf by (auto simp: sshbuf_wf_def sane_iff)
    ultimately show ?thesis using all c by (simp add: contents_def same_header_def)
  next
    case part
    then have "sshbuf_consume buf len = (Inr (), buf\<lparr>off := off buf + len\<rparr>)"
      using wf len by (simp add: sshbuf_consume_def Let_def)
    moreover have "sshbuf_wf (buf\<lparr>off := off buf + len\<rparr>)"
      using wf part by (auto simp: sshbuf_wf_def sane_iff)
    ultimately show ?thesis unfolding c by (simp add: contents_def same_header_def)
  qed
qed

lemma sshbuf_consume_end_incomplete:
  "sshbuf_wf buf \<Longrightarrow> length (contents buf) < len \<Longrightarrow>
   sshbuf_consume_end buf len = (Inl SSH_ERR_MESSAGE_INCOMPLETE, buf)"
  by (simp add: sshbuf_consume_end_def)

lemma sshbuf_consume_end_correct:
  assumes wf: "sshbuf_wf buf" and len: "len \<le> length (contents buf)"
  shows "\<exists>buf'. sshbuf_consume_end buf len = (Inr (), buf') \<and> sshbuf_wf buf' \<and>
    contents buf' = take (length (contents buf) - len) (contents buf) \<and> same_header buf buf'"
proof (cases "len = 0")
  case True
  then show ?thesis using wf by (simp add: sshbuf_consume_end_def)
next
  case False
  note b = sshbuf_wf_bounds [OF wf]
  have le: "len \<le> bsize buf - off buf" using len wf by simp
  have "sshbuf_consume_end buf len = (Inr (), buf\<lparr>bsize := bsize buf - len\<rparr>)"
    using wf len False by (simp add: sshbuf_consume_end_def)
  moreover have "sshbuf_wf (buf\<lparr>bsize := bsize buf - len\<rparr>)"
    using wf le False by (auto simp: sshbuf_wf_def sane_iff)
  moreover have "contents (buf\<lparr>bsize := bsize buf - len\<rparr>) =
      take (length (contents buf) - len) (contents buf)"
    unfolding length_contents [OF wf] by (simp add: contents_def diff_diff_left add.commute)
  ultimately show ?thesis by (simp add: same_header_def)
qed

lemma set_max_rlen_bounds:
  assumes "bsize buf < m" and "bsize buf \<le> SSHBUF_SIZE_MAX"
  shows "bsize buf \<le> set_max_rlen buf m" and "set_max_rlen buf m \<le> m"
  using assms ROUNDUP_ge [of "bsize buf" SSHBUF_SIZE_INC]
  by (auto simp: set_max_rlen_def Let_def sshbuf_consts)

lemma set_max_commit_correct:
  assumes "set_max_commit buf m = (r, buf')" and "sshbuf_wf buf" and "m \<le> SSHBUF_SIZE_MAX"
  shows "sshbuf_wf buf' \<and> contents buf' = contents buf \<and>
    max_size buf' = (if r = Inr () then m else max_size buf)"
  using assms
  by (auto simp: set_max_commit_def sshbuf_wf_def sane_iff contents_def split: if_splits)

lemma sshbuf_shrink_wf:
  assumes wf: "sshbuf_wf buf" and w: "writable buf" and n: "bsize buf \<le> n" "n \<le> alloc buf"
    and rc: "recallocarray A (mem_d (bmem buf)) (alloc buf) n 1 = Some dp"
  shows "sshbuf_wf (buf\<lparr>bmem := MemAlloc dp, alloc := n\<rparr>)"
    and "contents (buf\<lparr>bmem := MemAlloc dp, alloc := n\<rparr>) = contents buf"
proof -
  obtain xs where xs: "bmem buf = MemAlloc xs" "length xs = alloc buf"
    using writable_MemAlloc [OF wf w] by blast
  have dp: "length dp = n" "take n dp = take n xs"
    using recallocarray_Some_length [of A xs n 1 dp] rc xs n by auto
  have "contents (buf\<lparr>bmem := MemAlloc dp, alloc := n\<rparr>) = drop (off buf) (take (bsize buf) (take n dp))"
    using n by (simp add: contents_def drop_take min_def)
  also have "\<dots> = contents buf" using n dp xs by (simp add: contents_def drop_take min_def)
  finally show "contents (buf\<lparr>bmem := MemAlloc dp, alloc := n\<rparr>) = contents buf" .
  show "sshbuf_wf (buf\<lparr>bmem := MemAlloc dp, alloc := n\<rparr>)"
    using wf xs n dp sshbuf_wf_bounds [OF wf] by (auto simp: sshbuf_wf_def sane_iff)
qed

lemma sshbuf_set_max_size_correct:
  assumes wf: "sshbuf_wf buf" and run: "sshbuf_set_max_size A buf m = (r, buf')"
  shows "sshbuf_wf buf' \<and> contents buf' = contents buf \<and>
    max_size buf' = (if r = Inr () then m else max_size buf)"
proof (cases "m = max_size buf \<or> readonly buf \<or> refcount buf > 1 \<or> m > SSHBUF_SIZE_MAX")
  case True
  then show ?thesis using run wf by (auto simp: sshbuf_set_max_size_def split: if_splits)
next
  case False
  define b1 where "b1 = sshbuf_maybe_pack buf (m < bsize buf)"
  have wf1: "sshbuf_wf b1" and c1: "contents b1 = contents buf" and m1: "max_size b1 = max_size buf"
    and w1: "writable b1"
    using sshbuf_maybe_pack_wf [OF wf] False by (auto simp: b1_def writable_def)
  have run1: "(if m < alloc b1 \<and> m > bsize b1 then
         (case recallocarray A (mem_d (bmem b1)) (alloc b1) (set_max_rlen b1 m) 1 of
            None \<Rightarrow> (Inl SSH_ERR_ALLOC_FAIL, b1)
          | Some dp \<Rightarrow> set_max_commit (b1\<lparr>bmem := MemAlloc dp, alloc := set_max_rlen b1 m\<rparr>) m)
       else set_max_commit b1 m) = (r, buf')"
    using run unfolding sshbuf_set_max_size_def Let_def b1_def [symmetric] using wf False by simp
  show ?thesis
  proof (cases "m < alloc b1 \<and> m > bsize b1")
    case nofit: False
    then have "set_max_commit b1 m = (r, buf')" using run1 by auto
    then show ?thesis using set_max_commit_correct [OF _ wf1] False c1 m1 by auto
  next
    case True
    have rl: "bsize b1 \<le> set_max_rlen b1 m" "set_max_rlen b1 m \<le> alloc b1"
      using set_max_rlen_bounds [of b1 m] True sshbuf_wf_bounds [OF wf1] by auto
    show ?thesis
    proof (cases "recallocarray A (mem_d (bmem b1)) (alloc b1) (set_max_rlen b1 m) 1")
      case None
      then show ?thesis using run1 True wf1 c1 m1 by auto
    next
      case (Some dp)
      let ?b2 = "b1\<lparr>bmem := MemAlloc dp, alloc := set_max_rlen b1 m\<rparr>"
      have "set_max_commit ?b2 m = (r, buf')" using run1 True Some by simp
      then have "sshbuf_wf buf' \<and> contents buf' = contents ?b2 \<and>
          max_size buf' = (if r = Inr () then m else max_size ?b2)"
        using sshbuf_shrink_wf(1) [OF wf1 w1 rl Some] False by (intro set_max_commit_correct) auto
      then show ?thesis using sshbuf_shrink_wf(2) [OF wf1 w1 rl Some] c1 m1 by simp
    qed
  qed
qed

text \<open>
  \<^verbatim>\<open>sshbuf_reset\<close> sets \<open>alloc\<close> back to \<open>SSHBUF_SIZE_INIT\<close> without looking at \<open>max_size\<close>, so it keeps
  the invariant for buffers that may hold at least \<open>SSHBUF_SIZE_INIT\<close> bytes.
\<close>

lemma set_bytes_simps [simp]:
  "off (set_bytes xs b) = off b" "bsize (set_bytes xs b) = bsize b"
  "max_size (set_bytes xs b) = max_size b" "alloc (set_bytes xs b) = alloc b"
  "readonly (set_bytes xs b) = readonly b" "refcount (set_bytes xs b) = refcount b"
  "parent (set_bytes xs b) = parent b"
  by (simp_all add: set_bytes_def)

lemma set_bytes_wf:
  assumes "sshbuf_wf b" and "length xs = alloc b"
  shows "sshbuf_wf (set_bytes xs b)" and "mem_bytes (bmem (set_bytes xs b)) = xs"
  using assms by (cases "bmem b"; auto simp: set_bytes_def sshbuf_wf_def sane_iff)+

lemma sshbuf_reset_wf:
  assumes wf: "sshbuf_wf buf" and m: "SSHBUF_SIZE_INIT \<le> max_size buf"
  shows "sshbuf_wf (sshbuf_reset A buf)" and "contents (sshbuf_reset A buf) = []"
proof -
  have zero: "sshbuf_wf (set_bytes (write_at 0 (replicate (min k (length (mem_bytes (bmem b)))) 0)
      (mem_bytes (bmem b))) b)" if "sshbuf_wf b" for b k
    using sshbuf_wf_bounds(5) [OF that] by (intro set_bytes_wf(1) [OF that]) (simp add: array_simps)
  have empty: "sshbuf_wf (buf\<lparr>off := 0, bsize := 0\<rparr>)"
    using wf by (auto simp: sshbuf_wf_def sane_iff)
  have grown: "sshbuf_wf (buf\<lparr>off := 0, bsize := 0, bmem := MemAlloc d, alloc := SSHBUF_SIZE_INIT\<rparr>)"
    if rc: "recallocarray A (mem_d (bmem buf)) (alloc buf) SSHBUF_SIZE_INIT 1 = Some d"
      and w: "writable buf" for d
  proof -
    obtain xs where xs: "bmem buf = MemAlloc xs" "length xs = alloc buf"
      using writable_MemAlloc [OF wf w] by blast
    then have "length d = SSHBUF_SIZE_INIT"
      using recallocarray_Some_length(1) [of A xs SSHBUF_SIZE_INIT 1 d] rc by simp
    then show ?thesis using wf m xs by (auto simp: sshbuf_wf_def sane_iff)
  qed
  show "sshbuf_wf (sshbuf_reset A buf)"
  proof (cases "readonly buf \<or> refcount buf > 1")
    case True
    then show ?thesis using wf by (auto simp: sshbuf_reset_def sshbuf_wf_def sane_iff)
  next
    case False
    then have w: "writable buf" by (simp add: writable_def)
    show ?thesis
    proof (cases "alloc buf = SSHBUF_SIZE_INIT")
      case True
      then show ?thesis using zero [OF empty] False by (simp add: sshbuf_reset_def Let_def)
    next
      case na: False
      show ?thesis
      proof (cases "recallocarray A (mem_d (bmem buf)) (alloc buf) SSHBUF_SIZE_INIT 1")
        case None
        then show ?thesis using zero [OF empty] False na by (simp add: sshbuf_reset_def Let_def)
      next
        case (Some d)
        let ?b = "buf\<lparr>off := 0, bsize := 0, bmem := MemAlloc d, alloc := SSHBUF_SIZE_INIT\<rparr>"
        have "sshbuf_reset A buf = set_bytes (write_at 0 (replicate (min SSHBUF_SIZE_INIT
            (length (mem_bytes (bmem ?b)))) 0) (mem_bytes (bmem ?b))) ?b"
          using Some False na by (simp add: sshbuf_reset_def Let_def)
        then show ?thesis using zero [OF grown [OF Some w], of SSHBUF_SIZE_INIT] by (simp only:)
      qed
    qed
  qed
  have "bsize (sshbuf_reset A buf) = off (sshbuf_reset A buf)"
    unfolding sshbuf_reset_def Let_def
    by (cases "recallocarray A (mem_d (bmem buf)) (alloc buf) SSHBUF_SIZE_INIT 1") simp_all
  then show "contents (sshbuf_reset A buf) = []" by (simp add: contents_def)
qed

end
