(* ===== verification/Wire.thy ===== *)
theory Wire
  imports Sshbuf
begin

text \<open>
  The abstract side of the buffer code: the big-endian integers of \<^verbatim>\<open>sshbuf.h\<close>, what a wire codec
  promises, and what a byte queue promises. \<open>Sshbuf_Getput\<close> interprets both interfaces on the
  operations of the C code.
\<close>

unbundle bit_operations_syntax

named_theorems wire_simps "wire encodings and their parsers"

section \<open>Big-endian integers\<close>

text \<open>The macros read from and write to a byte pointer; the pointer is the list of bytes it
  addresses.\<close>

definition PEEK_U64 :: "byte list \<Rightarrow> 64 word" where
  "PEEK_U64 p = push_bit 56 (ucast (p ! 0)) OR push_bit 48 (ucast (p ! 1)) OR
     push_bit 40 (ucast (p ! 2)) OR push_bit 32 (ucast (p ! 3)) OR
     push_bit 24 (ucast (p ! 4)) OR push_bit 16 (ucast (p ! 5)) OR
     push_bit 8 (ucast (p ! 6)) OR ucast (p ! 7)"

definition PEEK_U32 :: "byte list \<Rightarrow> 32 word" where
  "PEEK_U32 p = push_bit 24 (ucast (p ! 0)) OR push_bit 16 (ucast (p ! 1)) OR
     push_bit 8 (ucast (p ! 2)) OR ucast (p ! 3)"

definition PEEK_U16 :: "byte list \<Rightarrow> 16 word" where
  "PEEK_U16 p = push_bit 8 (ucast (p ! 0)) OR ucast (p ! 1)"

definition POKE_U64 :: "64 word \<Rightarrow> byte list" where
  "POKE_U64 v = [ucast (drop_bit 56 v AND 0xff), ucast (drop_bit 48 v AND 0xff),
     ucast (drop_bit 40 v AND 0xff), ucast (drop_bit 32 v AND 0xff),
     ucast (drop_bit 24 v AND 0xff), ucast (drop_bit 16 v AND 0xff),
     ucast (drop_bit 8 v AND 0xff), ucast (v AND 0xff)]"

definition POKE_U32 :: "32 word \<Rightarrow> byte list" where
  "POKE_U32 v = [ucast (drop_bit 24 v AND 0xff), ucast (drop_bit 16 v AND 0xff),
     ucast (drop_bit 8 v AND 0xff), ucast (v AND 0xff)]"

definition POKE_U16 :: "16 word \<Rightarrow> byte list" where
  "POKE_U16 v = [ucast (drop_bit 8 v AND 0xff), ucast (v AND 0xff)]"

lemma length_POKE [simp]:
  "length (POKE_U64 v) = 8" "length (POKE_U32 w) = 4" "length (POKE_U16 x) = 2"
  by (simp_all add: POKE_U64_def POKE_U32_def POKE_U16_def)

lemma ucast_low_byte: "(ucast (x AND 0xff) :: byte) = ucast (x :: 'a::len word)"
proof -
  have "x AND 0xff = take_bit 8 x" by (simp add: take_bit_eq_mask mask_eq_exp_minus_1)
  then show ?thesis by (simp add: unsigned_take_bit_eq take_bit_word_eq_self)
qed

lemmas POKE_alt = POKE_U64_def [unfolded ucast_low_byte] POKE_U32_def [unfolded ucast_low_byte]
  POKE_U16_def [unfolded ucast_low_byte]

lemma bit_byte_beyond: "8 \<le> n \<Longrightarrow> \<not> bit (b :: byte) n"
  by (auto dest: bit_imp_le_length)

lemma PEEK_POKE_U16 [simp]: "PEEK_U16 (POKE_U16 v @ xs) = v"
  by (rule bit_word_eqI) (auto simp: PEEK_U16_def POKE_alt bit_simps)

lemma PEEK_POKE_U32 [simp]: "PEEK_U32 (POKE_U32 v @ xs) = v"
proof (rule bit_word_eqI)
  fix n assume "n < LENGTH(32)"
  then consider "n < 8" | "8 \<le> n \<and> n < 16" | "16 \<le> n \<and> n < 24" | "24 \<le> n \<and> n < 32"
    by fastforce
  then show "bit (PEEK_U32 (POKE_U32 v @ xs)) n = bit v n"
    by cases (simp_all add: PEEK_U32_def POKE_alt bit_simps less_diff_conv2)
qed

lemma PEEK_POKE_U64 [simp]: "PEEK_U64 (POKE_U64 v @ xs) = v"
proof (rule bit_word_eqI)
  fix n assume "n < LENGTH(64)"
  then consider "n < 8" | "8 \<le> n \<and> n < 16" | "16 \<le> n \<and> n < 24" | "24 \<le> n \<and> n < 32"
    | "32 \<le> n \<and> n < 40" | "40 \<le> n \<and> n < 48" | "48 \<le> n \<and> n < 56" | "56 \<le> n \<and> n < 64"
    by fastforce
  then show "bit (PEEK_U64 (POKE_U64 v @ xs)) n = bit v n"
    by cases (simp_all add: PEEK_U64_def POKE_alt bit_simps less_diff_conv2)
qed

lemma byte_eqI: "(\<And>n. n < 8 \<Longrightarrow> bit (a :: byte) n = bit b n) \<Longrightarrow> a = b"
  by (rule bit_word_eqI) simp

lemma POKE_PEEK_U16: "POKE_U16 (PEEK_U16 (a # b # r)) = [a, b]"
  by (auto simp: PEEK_U16_def POKE_alt bit_simps bit_byte_beyond intro!: byte_eqI)

lemma POKE_PEEK_U32: "POKE_U32 (PEEK_U32 (a # b # c # d # r)) = [a, b, c, d]"
  by (auto simp: PEEK_U32_def POKE_alt bit_simps bit_byte_beyond intro!: byte_eqI)

lemma POKE_PEEK_U64: "POKE_U64 (PEEK_U64 (a # b # c # d # e # f # g # h # r)) = [a, b, c, d, e, f, g, h]"
  by (auto simp: PEEK_U64_def POKE_alt bit_simps bit_byte_beyond intro!: byte_eqI)

section \<open>The wire format of strings\<close>

definition wire_string :: "byte list \<Rightarrow> byte list" where
  "wire_string s = POKE_U32 (of_nat (length s)) @ s"

definition string_fits :: "byte list \<Rightarrow> bool" where
  "string_fits s \<longleftrightarrow> length s \<le> SSHBUF_SIZE_MAX - 4"

definition parse_fixed :: "nat \<Rightarrow> (byte list \<Rightarrow> 'v) \<Rightarrow> byte list \<Rightarrow> ('v \<times> byte list) res" where
  "parse_fixed n peek bs =
    (if length bs < n then Inl SSH_ERR_MESSAGE_INCOMPLETE else Inr (peek bs, drop n bs))"

definition parse_string :: "byte list \<Rightarrow> (byte list \<times> byte list) res" where
  "parse_string bs =
    (if length bs < 4 then Inl SSH_ERR_MESSAGE_INCOMPLETE
     else let n = unat (PEEK_U32 bs) in
       if n > SSHBUF_SIZE_MAX - 4 then Inl SSH_ERR_STRING_TOO_LARGE
       else if length bs - 4 < n then Inl SSH_ERR_MESSAGE_INCOMPLETE
       else Inr (take n (drop 4 bs), drop (4 + n) bs))"

section \<open>What a codec promises\<close>

fun parse_seq :: "(byte list \<Rightarrow> ('v \<times> byte list) res) \<Rightarrow> nat \<Rightarrow> byte list \<Rightarrow> ('v list \<times> byte list) res" where
  "parse_seq parse 0 bs = Inr ([], bs)"
| "parse_seq parse (Suc n) bs =
    (case parse bs of Inl e \<Rightarrow> Inl e
     | Inr (v, r) \<Rightarrow> (case parse_seq parse n r of Inl e \<Rightarrow> Inl e | Inr (vs, r') \<Rightarrow> Inr (v # vs, r')))"

locale wire_codec =
  fixes enc :: "'v \<Rightarrow> byte list"
    and parse :: "byte list \<Rightarrow> ('v \<times> byte list) res"
    and valid :: "'v \<Rightarrow> bool"
  assumes parse_enc: "valid v \<Longrightarrow> parse (enc v @ rest) = Inr (v, rest)"
    and parse_sound: "parse bs = Inr (v, rest) \<Longrightarrow> valid v \<and> bs = enc v @ rest"
begin

lemma prefix_free:
  assumes "valid v" and "valid w" and "enc v @ r = enc w @ s"
  shows "v = w \<and> r = s"
proof -
  have "parse (enc v @ r) = Inr (v, r)" and "parse (enc w @ s) = Inr (w, s)"
    using assms(1,2) by (simp_all only: parse_enc)
  then have "Inr (v, r) = (Inr (w, s) :: ('v \<times> byte list) res)" unfolding assms(3) by metis
  then show ?thesis by simp
qed

lemma accepts_iff: "(\<exists>v r. parse bs = Inr (v, r)) \<longleftrightarrow> (\<exists>v r. valid v \<and> bs = enc v @ r)"
  using parse_enc parse_sound by metis

lemma parse_seq_enc:
  "list_all valid vs \<Longrightarrow>
   parse_seq parse (length vs) (concat (map enc vs) @ rest) = Inr (vs, rest)"
  by (induction vs) (simp_all add: parse_enc)

lemma parse_seq_sound:
  "parse_seq parse n bs = Inr (vs, rest) \<Longrightarrow>
   list_all valid vs \<and> length vs = n \<and> bs = concat (map enc vs) @ rest"
proof (induction n arbitrary: bs vs)
  case (Suc n)
  then obtain v r vs' where "parse bs = Inr (v, r)" and "parse_seq parse n r = Inr (vs', rest)"
    and "vs = v # vs'"
    by (auto split: sum.splits prod.splits)
  then show ?case using Suc.IH parse_sound by force
qed simp

end

lemma nth_append_drop:
  "n \<le> length bs \<Longrightarrow> \<exists>xs. bs = xs @ drop n bs \<and> length xs = n"
  by (intro exI [of _ "take n bs"]) simp

lemma u16_poke_peek: "length bs = 2 \<Longrightarrow> POKE_U16 (PEEK_U16 (bs @ r)) = bs"
  by (auto simp: numeral_2_eq_2 length_Suc_conv POKE_PEEK_U16)

lemma u32_poke_peek: "length bs = 4 \<Longrightarrow> POKE_U32 (PEEK_U32 (bs @ r)) = bs"
  by (auto simp: eval_nat_numeral length_Suc_conv POKE_PEEK_U32)

lemma u64_poke_peek: "length bs = 8 \<Longrightarrow> POKE_U64 (PEEK_U64 (bs @ r)) = bs"
  by (auto simp: eval_nat_numeral length_Suc_conv POKE_PEEK_U64)

text \<open>A fixed-width integer is a codec, and so is the length-prefixed string.\<close>

lemma wire_codec_fixed:
  assumes "\<And>v. length (poke v) = n" and "\<And>v r. peek (poke v @ r) = v"
    and "\<And>bs r. length bs = n \<Longrightarrow> poke (peek (bs @ r)) = bs"
  shows "wire_codec poke (parse_fixed n peek) (\<lambda>_. True)"
proof
  show "parse_fixed n peek (poke v @ rest) = Inr (v, rest)" for v rest
    using assms by (simp add: parse_fixed_def)
next
  fix bs v rest assume p: "parse_fixed n peek bs = Inr (v, rest)"
  then have n: "n \<le> length bs" and v: "v = peek bs" and r: "rest = drop n bs"
    by (auto simp: parse_fixed_def split: if_splits)
  then have "poke v = take n bs" using assms(3) [of "take n bs" "drop n bs"] by simp
  then show "True \<and> bs = poke v @ rest" using r by simp
qed

interpretation u16: wire_codec POKE_U16 "parse_fixed 2 PEEK_U16" "\<lambda>_. True"
  by (rule wire_codec_fixed) (simp_all add: u16_poke_peek)

interpretation u32: wire_codec POKE_U32 "parse_fixed 4 PEEK_U32" "\<lambda>_. True"
  by (rule wire_codec_fixed) (simp_all add: u32_poke_peek)

interpretation u64: wire_codec POKE_U64 "parse_fixed 8 PEEK_U64" "\<lambda>_. True"
  by (rule wire_codec_fixed) (simp_all add: u64_poke_peek)

interpretation u8: wire_codec "\<lambda>b. [b]" "parse_fixed 1 hd" "\<lambda>_. True"
  by (rule wire_codec_fixed) (auto simp: length_Suc_conv)

lemma unat_of_nat_fits: "string_fits s \<Longrightarrow> unat (of_nat (length s) :: 32 word) = length s"
  by (simp add: string_fits_def SSHBUF_SIZE_MAX_def unat_of_nat)

interpretation str: wire_codec wire_string parse_string string_fits
proof
  fix s rest assume "string_fits s"
  then show "parse_string (wire_string s @ rest) = Inr (s, rest)"
    by (simp add: parse_string_def wire_string_def Let_def unat_of_nat_fits)
      (simp add: string_fits_def)
next
  fix bs s rest assume p: "parse_string bs = Inr (s, rest)"
  let ?n = "unat (PEEK_U32 bs)"
  have l: "4 + ?n \<le> length bs" "?n \<le> SSHBUF_SIZE_MAX - 4"
    and s: "s = take ?n (drop 4 bs)" and r: "rest = drop (4 + ?n) bs"
    using p by (auto simp: parse_string_def Let_def split: if_splits)
  have ln: "length s = ?n" using l s by simp
  have "POKE_U32 (PEEK_U32 bs) = take 4 bs"
    using u32_poke_peek [of "take 4 bs" "drop 4 bs"] l by simp
  then have "wire_string s = take 4 bs @ s" by (simp add: wire_string_def ln)
  then show "string_fits s \<and> bs = wire_string s @ rest"
    using l s r ln by (simp add: string_fits_def) (metis append_take_drop_id drop_drop add.commute)
qed

section \<open>What a byte queue promises\<close>

text \<open>The view the rest of the program has of a buffer: a sequence of bytes, appended at the end and
  taken from the front; an operation that fails leaves the sequence alone.\<close>

locale byte_queue =
  fixes inv :: "'b \<Rightarrow> bool"
    and bytes :: "'b \<Rightarrow> byte list"
    and put :: "'b \<Rightarrow> byte list \<Rightarrow> unit res \<times> 'b"
    and get :: "'b \<Rightarrow> nat \<Rightarrow> byte list res \<times> 'b"
  assumes put_inv: "inv b \<Longrightarrow> inv (snd (put b v))"
    and put_ok: "inv b \<Longrightarrow> fst (put b v) = Inr u \<Longrightarrow> bytes (snd (put b v)) = bytes b @ v"
    and put_error: "inv b \<Longrightarrow> fst (put b v) = Inl e \<Longrightarrow> bytes (snd (put b v)) = bytes b"
    and get_inv: "inv b \<Longrightarrow> inv (snd (get b n))"
    and get_ok: "inv b \<Longrightarrow> n \<le> length (bytes b) \<Longrightarrow>
       fst (get b n) = Inr (take n (bytes b)) \<and> bytes (snd (get b n)) = drop n (bytes b)"
    and get_error: "inv b \<Longrightarrow> length (bytes b) < n \<Longrightarrow>
       get b n = (Inl SSH_ERR_MESSAGE_INCOMPLETE, b)"

text \<open>Run a list of operations, stopping at the first error, as the \<^verbatim>\<open>||\<close> chains of the code do.\<close>

fun run_all :: "('b \<Rightarrow> 'v \<Rightarrow> unit res \<times> 'b) \<Rightarrow> 'b \<Rightarrow> 'v list \<Rightarrow> unit res \<times> 'b" where
  "run_all f b [] = (Inr (), b)"
| "run_all f b (v # vs) = (case f b v of (Inl e, b') \<Rightarrow> (Inl e, b') | (Inr _, b') \<Rightarrow> run_all f b' vs)"

fun get_all :: "('b \<Rightarrow> 'v res \<times> 'b) \<Rightarrow> 'b \<Rightarrow> nat \<Rightarrow> 'v list res \<times> 'b" where
  "get_all g b 0 = (Inr [], b)"
| "get_all g b (Suc n) = (case g b of (Inl e, b') \<Rightarrow> (Inl e, b')
     | (Inr v, b') \<Rightarrow> (case get_all g b' n of (Inl e, b'') \<Rightarrow> (Inl e, b'')
         | (Inr vs, b'') \<Rightarrow> (Inr (v # vs), b'')))"

context byte_queue
begin

lemma run_all_put:
  "inv b \<Longrightarrow> run_all put b vs = (r, b') \<Longrightarrow>
   inv b' \<and> (r = Inr () \<longrightarrow> bytes b' = bytes b @ concat vs) \<and>
   (\<exists>k. bytes b' = bytes b @ concat (take k vs))"
proof (induction vs arbitrary: b)
  case Nil
  then show ?case by simp
next
  case (Cons v vs)
  obtain r1 b1 where p: "put b v = (r1, b1)" by force
  have inv1: "inv b1" using put_inv [OF Cons.prems(1), of v] p by simp
  show ?case
  proof (cases r1)
    case (Inl e)
    then have "r = Inl e" "b' = b1" using Cons.prems p by auto
    moreover have "bytes b1 = bytes b" using put_error [OF Cons.prems(1), of v e] p Inl by simp
    ultimately show ?thesis using inv1 by (auto intro: exI [of _ 0])
  next
    case (Inr u)
    then have r1: "run_all put b1 vs = (r, b')" using Cons.prems p by simp
    have b1: "bytes b1 = bytes b @ v" using put_ok [OF Cons.prems(1), of v u] p Inr by simp
    from Cons.IH [OF inv1 r1] obtain k where
      ih: "inv b'" "r = Inr () \<longrightarrow> bytes b' = bytes b1 @ concat vs"
        "bytes b' = bytes b1 @ concat (take k vs)" by blast
    have "bytes b' = bytes b @ concat (take (Suc k) (v # vs))" using ih(3) b1 by simp
    then have "\<exists>k. bytes b' = bytes b @ concat (take k (v # vs))" by (rule exI)
    then show ?thesis using ih(1,2) b1 by simp
  qed
qed

end

text \<open>A typed pair of operations on a queue: one appends the encoding of a value, the other takes a
  value off the front exactly when the front parses.\<close>

locale queue_codec = byte_queue inv bytes put get + wire_codec enc parse valid
  for inv :: "'b \<Rightarrow> bool" and bytes and put and get
    and enc :: "'v \<Rightarrow> byte list" and parse and valid +
  fixes put_val :: "'b \<Rightarrow> 'v \<Rightarrow> unit res \<times> 'b"
    and get_val :: "'b \<Rightarrow> 'v res \<times> 'b"
  assumes put_val_put: "inv b \<Longrightarrow> valid v \<Longrightarrow> put_val b v = put b (enc v)"
    and get_val_parse: "inv b \<Longrightarrow> get_val b = (r, b') \<Longrightarrow> inv b' \<and>
      (case parse (bytes b) of
         Inl e \<Rightarrow> r = Inl e \<and> bytes b' = bytes b
       | Inr (v, rest) \<Rightarrow> r = Inr v \<and> bytes b' = rest)"
begin

lemma put_val_ok:
  assumes "inv b" and "valid v" and "put_val b v = (Inr (), b')"
  shows "inv b'" and "bytes b' = bytes b @ enc v"
  using assms put_inv [OF assms(1), of "enc v"] put_ok [OF assms(1), of "enc v"]
  by (auto simp: put_val_put)

lemma get_val_ok:
  assumes "inv b" and "valid v" and "bytes b = enc v @ rest"
  shows "\<exists>b'. get_val b = (Inr v, b') \<and> inv b' \<and> bytes b' = rest"
proof -
  obtain r b' where g: "get_val b = (r, b')" by force
  then show ?thesis using get_val_parse [OF assms(1) g] parse_enc [OF assms(2), of rest] assms(3)
    by auto
qed

lemma run_all_put_val:
  "inv b \<Longrightarrow> list_all valid vs \<Longrightarrow> run_all put_val b vs = (Inr (), b') \<Longrightarrow>
   inv b' \<and> bytes b' = bytes b @ concat (map enc vs)"
proof (induction vs arbitrary: b)
  case (Cons v vs)
  then obtain u b1 where p: "put_val b v = (Inr (), b1)" and r: "run_all put_val b1 vs = (Inr (), b')"
    by (auto split: prod.splits sum.splits)
  then show ?case using Cons put_val_ok [OF Cons.prems(1) _ p] by auto
qed simp

lemma get_all_get_val:
  "inv b \<Longrightarrow> list_all valid vs \<Longrightarrow> bytes b = concat (map enc vs) @ rest \<Longrightarrow>
   \<exists>b'. get_all get_val b (length vs) = (Inr vs, b') \<and> inv b' \<and> bytes b' = rest"
proof (induction vs arbitrary: b)
  case (Cons v vs)
  then obtain b1 where g: "get_val b = (Inr v, b1)" and b1: "inv b1"
      "bytes b1 = concat (map enc vs) @ rest"
    using get_val_ok [OF Cons.prems(1), of v "concat (map enc vs) @ rest"] by auto
  have "list_all valid vs" using Cons.prems(2) by simp
  then obtain b' where "get_all get_val b1 (length vs) = (Inr vs, b') \<and> inv b' \<and> bytes b' = rest"
    using Cons.IH [OF b1(1) _ b1(2)] by blast
  then show ?case using g by simp
qed simp

text \<open>Values appended to an empty queue come back in order.\<close>

lemma queue_round_trip:
  assumes "inv b" and "bytes b = []" and "list_all valid vs" and "run_all put_val b vs = (Inr (), b1)"
  shows "\<exists>b2. get_all get_val b1 (length vs) = (Inr vs, b2) \<and> inv b2 \<and> bytes b2 = []"
  using run_all_put_val [OF assms(1,3,4)] get_all_get_val [of b1 vs "[]"] assms(2,3) by simp

end

end
