(* ===== verification/Sshbuf_Getput.thy ===== *)
theory Sshbuf_Getput
  imports Wire
begin

text \<open>
  The extraction and insertion functions of \<^verbatim>\<open>sshbuf-getput-basic.c\<close>. A pointer into a buffer is
  the index of the byte it addresses; \<open>sshbuf_read\<close> and \<open>sshbuf_write\<close> are the reads and the
  \<^verbatim>\<open>memcpy\<close> through such a pointer.
\<close>

section \<open>Reads and writes through pointers\<close>

definition sshbuf_read :: "sshbuf \<Rightarrow> nat \<Rightarrow> nat \<Rightarrow> byte list" where
  "sshbuf_read buf p len = take len (drop p (mem_bytes (bmem buf)))"

definition sshbuf_write :: "sshbuf \<Rightarrow> nat \<Rightarrow> byte list \<Rightarrow> sshbuf" where
  "sshbuf_write buf p v = set_bytes (write_at p v (mem_bytes (bmem buf))) buf"

section \<open>Extraction\<close>

definition sshbuf_get :: "sshbuf \<Rightarrow> nat \<Rightarrow> byte list res \<times> sshbuf" where
  "sshbuf_get buf len =
    (let p = off buf in
     case sshbuf_consume buf len of
       (Inl e, b) \<Rightarrow> (Inl e, b)
     | (Inr _, b) \<Rightarrow> (Inr (sshbuf_read b p len), b))"

definition sshbuf_get_u64 :: "sshbuf \<Rightarrow> 64 word res \<times> sshbuf" where
  "sshbuf_get_u64 buf =
    (let p = off buf in
     case sshbuf_consume buf 8 of
       (Inl e, b) \<Rightarrow> (Inl e, b)
     | (Inr _, b) \<Rightarrow> (Inr (PEEK_U64 (drop p (mem_bytes (bmem b)))), b))"

definition sshbuf_get_u32 :: "sshbuf \<Rightarrow> 32 word res \<times> sshbuf" where
  "sshbuf_get_u32 buf =
    (let p = off buf in
     case sshbuf_consume buf 4 of
       (Inl e, b) \<Rightarrow> (Inl e, b)
     | (Inr _, b) \<Rightarrow> (Inr (PEEK_U32 (drop p (mem_bytes (bmem b)))), b))"

definition sshbuf_get_u16 :: "sshbuf \<Rightarrow> 16 word res \<times> sshbuf" where
  "sshbuf_get_u16 buf =
    (let p = off buf in
     case sshbuf_consume buf 2 of
       (Inl e, b) \<Rightarrow> (Inl e, b)
     | (Inr _, b) \<Rightarrow> (Inr (PEEK_U16 (drop p (mem_bytes (bmem b)))), b))"

definition sshbuf_get_u8 :: "sshbuf \<Rightarrow> byte res \<times> sshbuf" where
  "sshbuf_get_u8 buf =
    (let p = off buf in
     case sshbuf_consume buf 1 of
       (Inl e, b) \<Rightarrow> (Inl e, b)
     | (Inr _, b) \<Rightarrow> (Inr (mem_bytes (bmem b) ! p), b))"

definition check_offset :: "sshbuf \<Rightarrow> bool \<Rightarrow> nat \<Rightarrow> nat \<Rightarrow> unit res" where
  "check_offset buf wr offset len =
    (if sshbuf_ptr buf = None then Inl SSH_ERR_INTERNAL_ERROR
     else if offset \<ge> size_sub SIZE_MAX len then Inl SSH_ERR_INVALID_ARGUMENT
     else if size_add offset len > sshbuf_len buf then
       Inl (if wr then SSH_ERR_NO_BUFFER_SPACE else SSH_ERR_MESSAGE_INCOMPLETE)
     else Inr ())"

definition check_roffset :: "sshbuf \<Rightarrow> nat \<Rightarrow> nat \<Rightarrow> nat res" where
  "check_roffset buf offset len =
    (case check_offset buf False offset len of
       Inl e \<Rightarrow> Inl e
     | Inr _ \<Rightarrow> Inr (off buf + offset))"

definition sshbuf_peek_u64 :: "sshbuf \<Rightarrow> nat \<Rightarrow> 64 word res" where
  "sshbuf_peek_u64 buf offset =
    (case check_roffset buf offset 8 of
       Inl e \<Rightarrow> Inl e | Inr p \<Rightarrow> Inr (PEEK_U64 (drop p (mem_bytes (bmem buf)))))"

definition sshbuf_peek_u32 :: "sshbuf \<Rightarrow> nat \<Rightarrow> 32 word res" where
  "sshbuf_peek_u32 buf offset =
    (case check_roffset buf offset 4 of
       Inl e \<Rightarrow> Inl e | Inr p \<Rightarrow> Inr (PEEK_U32 (drop p (mem_bytes (bmem buf)))))"

definition sshbuf_peek_u16 :: "sshbuf \<Rightarrow> nat \<Rightarrow> 16 word res" where
  "sshbuf_peek_u16 buf offset =
    (case check_roffset buf offset 2 of
       Inl e \<Rightarrow> Inl e | Inr p \<Rightarrow> Inr (PEEK_U16 (drop p (mem_bytes (bmem buf)))))"

definition sshbuf_peek_u8 :: "sshbuf \<Rightarrow> nat \<Rightarrow> byte res" where
  "sshbuf_peek_u8 buf offset =
    (case check_roffset buf offset 1 of
       Inl e \<Rightarrow> Inl e | Inr p \<Rightarrow> Inr (mem_bytes (bmem buf) ! p))"

text \<open>The "direct" functions return a pointer to the string inside the buffer and its length.\<close>

definition sshbuf_peek_string_direct :: "sshbuf \<Rightarrow> (nat \<times> nat) res" where
  "sshbuf_peek_string_direct buf =
    (let p = off buf in
     if sshbuf_len buf < 4 then Inl SSH_ERR_MESSAGE_INCOMPLETE
     else let len = unat (PEEK_U32 (drop p (mem_bytes (bmem buf)))) in
       if len > SSHBUF_SIZE_MAX - 4 then Inl SSH_ERR_STRING_TOO_LARGE
       else if sshbuf_len buf - 4 < len then Inl SSH_ERR_MESSAGE_INCOMPLETE
       else Inr (p + 4, len))"

definition sshbuf_get_string_direct :: "sshbuf \<Rightarrow> (nat \<times> nat) res \<times> sshbuf" where
  "sshbuf_get_string_direct buf =
    (case sshbuf_peek_string_direct buf of
       Inl e \<Rightarrow> (Inl e, buf)
     | Inr (p, len) \<Rightarrow>
         (case sshbuf_consume buf (len + 4) of
            (Inl _, b) \<Rightarrow> (Inl SSH_ERR_INTERNAL_ERROR, b)
          | (Inr _, b) \<Rightarrow> (Inr (p, len), b)))"

abbreviation sshbuf_skip_string :: "sshbuf \<Rightarrow> (nat \<times> nat) res \<times> sshbuf" where
  "sshbuf_skip_string \<equiv> sshbuf_get_string_direct"

text \<open>\<open>want\<close> says that the caller passed a non-NULL \<^verbatim>\<open>valp\<close>; the value is the malloc'ed copy with its
  terminating NUL, and \<^verbatim>\<open>*lenp\<close>.\<close>

definition sshbuf_get_string ::
    "allocator \<Rightarrow> bool \<Rightarrow> sshbuf \<Rightarrow> (byte list \<times> nat) res \<times> sshbuf" where
  "sshbuf_get_string A want buf =
    (case sshbuf_get_string_direct buf of
       (Inl e, b) \<Rightarrow> (Inl e, b)
     | (Inr (val, len), b) \<Rightarrow>
         if want then
           (if malloc_ok A (len + 1) then (Inr (sshbuf_read b val len @ [0], len), b)
            else (Inl SSH_ERR_ALLOC_FAIL, b))
         else (Inr ([], len), b))"

text \<open>The position of the first NUL byte, as \<^verbatim>\<open>memchr(p, 0, len)\<close> finds it.\<close>

fun memchr0 :: "byte list \<Rightarrow> nat option" where
  "memchr0 [] = None"
| "memchr0 (c # cs) = (if c = 0 then Some 0 else map_option Suc (memchr0 cs))"

definition sshbuf_get_cstring ::
    "allocator \<Rightarrow> bool \<Rightarrow> sshbuf \<Rightarrow> (byte list \<times> nat) res \<times> sshbuf" where
  "sshbuf_get_cstring A want buf =
    (case sshbuf_peek_string_direct buf of
       Inl e \<Rightarrow> (Inl e, buf)
     | Inr (p, len) \<Rightarrow>
         if len > 0 \<and> (case memchr0 (sshbuf_read buf p len) of None \<Rightarrow> False | Some z \<Rightarrow> z < len - 1)
         then (Inl SSH_ERR_INVALID_FORMAT, buf)
         else
           (case sshbuf_skip_string buf of
              (Inl _, b) \<Rightarrow> (Inl SSH_ERR_INTERNAL_ERROR, b)
            | (Inr _, b) \<Rightarrow>
                if want then
                  (if malloc_ok A (len + 1) then (Inr (sshbuf_read b p len @ [0], len), b)
                   else (Inl SSH_ERR_ALLOC_FAIL, b))
                else (Inr ([], len), b)))"

section \<open>Insertion\<close>

definition sshbuf_put :: "allocator \<Rightarrow> sshbuf \<Rightarrow> byte list \<Rightarrow> unit res \<times> sshbuf" where
  "sshbuf_put A buf v =
    (case sshbuf_reserve A buf (length v) of
       (Inl e, b) \<Rightarrow> (Inl e, b)
     | (Inr p, b) \<Rightarrow> (Inr (), if length v \<noteq> 0 then sshbuf_write b p v else b))"

text \<open>\<open>v\<close> is a different buffer from \<open>buf\<close>; a NULL \<open>v\<close> is \<open>None\<close>.\<close>

definition sshbuf_putb :: "allocator \<Rightarrow> sshbuf \<Rightarrow> sshbuf option \<Rightarrow> unit res \<times> sshbuf" where
  "sshbuf_putb A buf v =
    (case v of None \<Rightarrow> (Inr (), buf)
     | Some w \<Rightarrow> sshbuf_put A buf (sshbuf_read w (off w) (sshbuf_len w)))"

text \<open>The formatted text is what \<^verbatim>\<open>vsnprintf\<close> produces for the format and arguments, \<open>None\<close> when it
  reports an error.\<close>

definition sshbuf_putfv :: "allocator \<Rightarrow> sshbuf \<Rightarrow> byte list option \<Rightarrow> unit res \<times> sshbuf" where
  "sshbuf_putfv A buf out =
    (case out of None \<Rightarrow> (Inl SSH_ERR_INVALID_ARGUMENT, buf)
     | Some txt \<Rightarrow>
         let len = length txt in
         if len = 0 then (Inr (), buf)
         else (case sshbuf_reserve A buf (len + 1) of
            (Inl e, b) \<Rightarrow> (Inl e, b)
          | (Inr p, b) \<Rightarrow> sshbuf_consume_end (sshbuf_write b p (txt @ [0])) 1))"

definition sshbuf_put_u64 :: "allocator \<Rightarrow> sshbuf \<Rightarrow> 64 word \<Rightarrow> unit res \<times> sshbuf" where
  "sshbuf_put_u64 A buf val =
    (case sshbuf_reserve A buf 8 of
       (Inl e, b) \<Rightarrow> (Inl e, b)
     | (Inr p, b) \<Rightarrow> (Inr (), sshbuf_write b p (POKE_U64 val)))"

definition sshbuf_put_u32 :: "allocator \<Rightarrow> sshbuf \<Rightarrow> 32 word \<Rightarrow> unit res \<times> sshbuf" where
  "sshbuf_put_u32 A buf val =
    (case sshbuf_reserve A buf 4 of
       (Inl e, b) \<Rightarrow> (Inl e, b)
     | (Inr p, b) \<Rightarrow> (Inr (), sshbuf_write b p (POKE_U32 val)))"

definition sshbuf_put_u16 :: "allocator \<Rightarrow> sshbuf \<Rightarrow> 16 word \<Rightarrow> unit res \<times> sshbuf" where
  "sshbuf_put_u16 A buf val =
    (case sshbuf_reserve A buf 2 of
       (Inl e, b) \<Rightarrow> (Inl e, b)
     | (Inr p, b) \<Rightarrow> (Inr (), sshbuf_write b p (POKE_U16 val)))"

definition sshbuf_put_u8 :: "allocator \<Rightarrow> sshbuf \<Rightarrow> byte \<Rightarrow> unit res \<times> sshbuf" where
  "sshbuf_put_u8 A buf val =
    (case sshbuf_reserve A buf 1 of
       (Inl e, b) \<Rightarrow> (Inl e, b)
     | (Inr p, b) \<Rightarrow> (Inr (), sshbuf_write b p [val]))"

text \<open>The destination buffer of \<^verbatim>\<open>sshbuf_get_stringb\<close> is a different buffer from the source.\<close>

definition sshbuf_get_stringb :: "allocator \<Rightarrow> sshbuf \<Rightarrow> sshbuf \<Rightarrow> unit res \<times> sshbuf \<times> sshbuf" where
  "sshbuf_get_stringb A buf v =
    (case sshbuf_peek_string_direct buf of
       Inl e \<Rightarrow> (Inl e, buf, v)
     | Inr _ \<Rightarrow>
    (case sshbuf_get_u32 buf of
       (Inl e, b1) \<Rightarrow> (Inl e, b1, v)
     | (Inr len, b1) \<Rightarrow>
    (case sshbuf_reserve A v (unat len) of
       (Inl e, v1) \<Rightarrow> (Inl e, b1, v1)
     | (Inr p, v1) \<Rightarrow>
    (case sshbuf_get b1 (unat len) of
       (Inl e, b2) \<Rightarrow> (Inl e, b2, v1)
     | (Inr xs, b2) \<Rightarrow> (Inr (), b2, if unat len \<noteq> 0 then sshbuf_write v1 p xs else v1)))))"

section \<open>Overwriting\<close>

definition check_woffset :: "sshbuf \<Rightarrow> nat \<Rightarrow> nat \<Rightarrow> nat res" where
  "check_woffset buf offset len =
    (case check_offset buf True offset len of
       Inl e \<Rightarrow> Inl e
     | Inr _ \<Rightarrow> (case sshbuf_mutable_ptr buf of
         None \<Rightarrow> Inl SSH_ERR_BUFFER_READ_ONLY
       | Some q \<Rightarrow> Inr (q + offset)))"

definition sshbuf_poke_u64 :: "sshbuf \<Rightarrow> nat \<Rightarrow> 64 word \<Rightarrow> unit res \<times> sshbuf" where
  "sshbuf_poke_u64 buf offset val =
    (case check_woffset buf offset 8 of
       Inl e \<Rightarrow> (Inl e, buf) | Inr p \<Rightarrow> (Inr (), sshbuf_write buf p (POKE_U64 val)))"

definition sshbuf_poke_u32 :: "sshbuf \<Rightarrow> nat \<Rightarrow> 32 word \<Rightarrow> unit res \<times> sshbuf" where
  "sshbuf_poke_u32 buf offset val =
    (case check_woffset buf offset 4 of
       Inl e \<Rightarrow> (Inl e, buf) | Inr p \<Rightarrow> (Inr (), sshbuf_write buf p (POKE_U32 val)))"

definition sshbuf_poke_u16 :: "sshbuf \<Rightarrow> nat \<Rightarrow> 16 word \<Rightarrow> unit res \<times> sshbuf" where
  "sshbuf_poke_u16 buf offset val =
    (case check_woffset buf offset 2 of
       Inl e \<Rightarrow> (Inl e, buf) | Inr p \<Rightarrow> (Inr (), sshbuf_write buf p (POKE_U16 val)))"

definition sshbuf_poke_u8 :: "sshbuf \<Rightarrow> nat \<Rightarrow> byte \<Rightarrow> unit res \<times> sshbuf" where
  "sshbuf_poke_u8 buf offset val =
    (case check_woffset buf offset 1 of
       Inl e \<Rightarrow> (Inl e, buf) | Inr p \<Rightarrow> (Inr (), sshbuf_write buf p [val]))"

definition sshbuf_poke :: "sshbuf \<Rightarrow> nat \<Rightarrow> byte list \<Rightarrow> unit res \<times> sshbuf" where
  "sshbuf_poke buf offset v =
    (case check_woffset buf offset (length v) of
       Inl e \<Rightarrow> (Inl e, buf) | Inr p \<Rightarrow> (Inr (), sshbuf_write buf p v))"

section \<open>Strings and big numbers\<close>

definition sshbuf_put_string :: "allocator \<Rightarrow> sshbuf \<Rightarrow> byte list \<Rightarrow> unit res \<times> sshbuf" where
  "sshbuf_put_string A buf v =
    (let len = length v in
     if len > SSHBUF_SIZE_MAX - 4 then (Inl SSH_ERR_NO_BUFFER_SPACE, buf)
     else (case sshbuf_reserve A buf (len + 4) of
         (Inl e, b) \<Rightarrow> (Inl e, b)
       | (Inr d, b) \<Rightarrow>
           let b1 = sshbuf_write b d (POKE_U32 (of_nat len)) in
           (Inr (), if len \<noteq> 0 then sshbuf_write b1 (d + 4) v else b1)))"

text \<open>A C string is the list of its bytes without the terminating NUL; NULL is \<open>None\<close>.\<close>

definition sshbuf_put_cstring :: "allocator \<Rightarrow> sshbuf \<Rightarrow> byte list option \<Rightarrow> unit res \<times> sshbuf" where
  "sshbuf_put_cstring A buf v = sshbuf_put_string A buf (case v of None \<Rightarrow> [] | Some s \<Rightarrow> s)"

definition sshbuf_put_stringb :: "allocator \<Rightarrow> sshbuf \<Rightarrow> sshbuf option \<Rightarrow> unit res \<times> sshbuf" where
  "sshbuf_put_stringb A buf v =
    (case v of None \<Rightarrow> sshbuf_put_string A buf []
     | Some w \<Rightarrow> sshbuf_put_string A buf (sshbuf_read w (off w) (sshbuf_len w)))"

definition sshbuf_put_bignum2_bytes :: "allocator \<Rightarrow> sshbuf \<Rightarrow> byte list \<Rightarrow> unit res \<times> sshbuf" where
  "sshbuf_put_bignum2_bytes A buf v =
    (if length v > SSHBUF_SIZE_MAX - 5 then (Inl SSH_ERR_NO_BUFFER_SPACE, buf)
     else
       let s = dropWhile (\<lambda>x. x = 0) v; len = length s;
           prepend = (if len > 0 \<and> (s ! 0) AND 0x80 \<noteq> 0 then 1 else 0)
       in (case sshbuf_reserve A buf (len + 4 + prepend) of
             (Inl e, b) \<Rightarrow> (Inl e, b)
           | (Inr d, b) \<Rightarrow>
               let b1 = sshbuf_write b d (POKE_U32 (of_nat (len + prepend)));
                   b2 = (if prepend \<noteq> 0 then sshbuf_write b1 (d + 4) [0] else b1)
               in (Inr (), if len \<noteq> 0 then sshbuf_write b2 (d + 4 + prepend) s else b2)))"

definition SSHBUF_MAX_BIGNUM :: nat where "SSHBUF_MAX_BIGNUM = 16384 div 8"

text \<open>The result is a pointer to the first significant byte, and the number of significant bytes.\<close>

definition sshbuf_get_bignum2_bytes_direct :: "sshbuf \<Rightarrow> (nat \<times> nat) res \<times> sshbuf" where
  "sshbuf_get_bignum2_bytes_direct buf =
    (case sshbuf_peek_string_direct buf of
       Inl e \<Rightarrow> (Inl e, buf)
     | Inr (d, olen) \<Rightarrow>
         let val = sshbuf_read buf d olen in
         if olen \<noteq> 0 \<and> (val ! 0) AND 0x80 \<noteq> 0 then (Inl SSH_ERR_BIGNUM_IS_NEGATIVE, buf)
         else if olen > SSHBUF_MAX_BIGNUM + 1 \<or> (olen = SSHBUF_MAX_BIGNUM + 1 \<and> val ! 0 \<noteq> 0)
           then (Inl SSH_ERR_BIGNUM_TOO_LARGE, buf)
         else
           let zeros = length (takeWhile (\<lambda>x. x = 0) val) in
           (case sshbuf_consume buf (olen + 4) of
              (Inl _, b) \<Rightarrow> (Inl SSH_ERR_INTERNAL_ERROR, b)
            | (Inr _, b) \<Rightarrow> (Inr (d + zeros, olen - zeros), b)))"

section \<open>The buffer is a byte queue\<close>

lemma sshbuf_write_simps [simp]:
  "off (sshbuf_write b p v) = off b" "bsize (sshbuf_write b p v) = bsize b"
  "max_size (sshbuf_write b p v) = max_size b" "alloc (sshbuf_write b p v) = alloc b"
  "readonly (sshbuf_write b p v) = readonly b" "refcount (sshbuf_write b p v) = refcount b"
  "parent (sshbuf_write b p v) = parent b"
  by (simp_all add: sshbuf_write_def)

lemma same_header_write [simp]: "same_header b (sshbuf_write b p v)"
  by (simp add: same_header_def)

lemma sshbuf_write_wf:
  assumes "sshbuf_wf b" and "p + length v \<le> alloc b"
  shows "sshbuf_wf (sshbuf_write b p v)"
    and "mem_bytes (bmem (sshbuf_write b p v)) = write_at p v (mem_bytes (bmem b))"
  using set_bytes_wf [OF assms(1), of "write_at p v (mem_bytes (bmem b))"] assms(2)
    sshbuf_wf_bounds(5) [OF assms(1)]
  by (simp_all add: sshbuf_write_def array_simps)

lemma sshbuf_write_Nil [simp]: "sshbuf_write b p [] = b"
  by (cases "bmem b") (simp_all add: sshbuf_write_def set_bytes_def)

lemma sshbuf_write_write:
  "sshbuf_wf b \<Longrightarrow> p + length v + length w \<le> alloc b \<Longrightarrow>
   sshbuf_write (sshbuf_write b p v) (p + length v) w = sshbuf_write b p (v @ w)"
  using sshbuf_wf_bounds(5) [of b]
  by (cases "bmem b") (auto simp: sshbuf_write_def set_bytes_def write_at_def ac_simps)

text \<open>Every insertion function is one \<^verbatim>\<open>sshbuf_put\<close> of the encoded bytes.\<close>

lemma sshbuf_put_write:
  "sshbuf_put A buf v = (case sshbuf_reserve A buf (length v) of
     (Inl e, b) \<Rightarrow> (Inl e, b) | (Inr p, b) \<Rightarrow> (Inr (), sshbuf_write b p v))"
  by (simp add: sshbuf_put_def split: prod.split sum.split)

lemma sshbuf_put_ints:
  "sshbuf_put_u64 A buf x = sshbuf_put A buf (POKE_U64 x)"
  "sshbuf_put_u32 A buf y = sshbuf_put A buf (POKE_U32 y)"
  "sshbuf_put_u16 A buf z = sshbuf_put A buf (POKE_U16 z)"
  "sshbuf_put_u8 A buf c = sshbuf_put A buf [c]"
  by (simp_all add: sshbuf_put_write sshbuf_put_u64_def sshbuf_put_u32_def sshbuf_put_u16_def
      sshbuf_put_u8_def)

lemma reserved_alloc:
  "sshbuf_wf b \<Longrightarrow> reserved buf b p len \<Longrightarrow> p + len \<le> alloc b"
  using sshbuf_wf_bounds(2) [of b] by (simp add: reserved_def)

lemma sshbuf_put_string_put:
  assumes "sshbuf_wf buf" and "string_fits v"
  shows "sshbuf_put_string A buf v = sshbuf_put A buf (wire_string v)"
proof -
  obtain r b where run: "sshbuf_reserve A buf (length v + 4) = (r, b)" by force
  have c: "sshbuf_wf b" "\<And>p. r = Inr p \<Longrightarrow> reserved buf b p (length v + 4)"
    using sshbuf_reserve_correct [OF assms(1) run] by auto
  have "sshbuf_write (sshbuf_write b p (POKE_U32 (of_nat (length v)))) (p + 4) v =
      sshbuf_write b p (wire_string v)" if "r = Inr p" for p
    using sshbuf_write_write [OF c(1), of p "POKE_U32 (of_nat (length v))" v]
      reserved_alloc [OF c(1) c(2) [OF that]] by (simp add: wire_string_def)
  moreover have "length (wire_string v) = length v + 4" by (simp add: wire_string_def)
  ultimately show ?thesis
    using run assms(2)
    by (auto simp: sshbuf_put_string_def sshbuf_put_write Let_def string_fits_def split: sum.split)
qed

lemma sshbuf_put_correct:
  assumes wf: "sshbuf_wf buf" and run: "sshbuf_put A buf v = (r, buf')"
  shows "sshbuf_wf buf' \<and> same_header buf buf' \<and>
    contents buf' = contents buf @ (if r = Inr () then v else [])"
proof -
  obtain r1 b where res: "sshbuf_reserve A buf (length v) = (r1, b)" by force
  have c: "sshbuf_wf b" "same_header buf b" "\<And>p. r1 = Inr p \<Longrightarrow> reserved buf b p (length v)"
    "\<And>e. r1 = Inl e \<Longrightarrow> contents b = contents buf"
    using sshbuf_reserve_correct [OF wf res] by auto
  show ?thesis
  proof (cases r1)
    case (Inl e)
    then show ?thesis using run res c by (auto simp: sshbuf_put_write)
  next
    case (Inr p)
    then have buf': "r = Inr ()" "buf' = sshbuf_write b p v"
      using run res by (auto simp: sshbuf_put_write)
    have rv: "reserved buf b p (length v)" using c(3) Inr by simp
    note al = reserved_alloc [OF c(1) rv]
    have "contents buf' = take (p + length v - off b) (drop (off b) (write_at p v (mem_bytes (bmem b))))"
      using buf' sshbuf_write_wf(2) [OF c(1) al] rv by (simp add: contents_def reserved_def)
    also have "\<dots> = contents buf @ v"
      using slice_write_at_append [of "off b" p v "mem_bytes (bmem b)"] al rv
        sshbuf_wf_bounds(5) [OF c(1)] by (simp add: reserved_def)
    finally show ?thesis
      using buf' sshbuf_write_wf(1) [OF c(1) al] same_header_trans [OF c(2) same_header_write] by simp
  qed
qed

lemma sshbuf_get_correct:
  assumes wf: "sshbuf_wf buf" and n: "n \<le> length (contents buf)"
  shows "\<exists>b. sshbuf_get buf n = (Inr (take n (contents buf)), b) \<and> sshbuf_wf b \<and>
    contents b = drop n (contents buf) \<and> same_header buf b"
proof -
  obtain b where b: "sshbuf_consume buf n = (Inr (), b)" "sshbuf_wf b"
      "contents b = drop n (contents buf)" "same_header buf b" "bmem b = bmem buf"
    using sshbuf_consume_correct [OF wf n] by blast
  have "n \<le> bsize buf - off buf" using n wf by simp
  then have "take n (contents buf) = take n (drop (off buf) (mem_bytes (bmem buf)))"
    by (simp add: contents_def min_def)
  then show ?thesis using b by (simp add: sshbuf_get_def sshbuf_read_def)
qed

interpretation sq: byte_queue sshbuf_wf contents "sshbuf_put A" sshbuf_get for A
proof
  fix b v and u :: unit and e
  assume wf: "sshbuf_wf b"
  note p = sshbuf_put_correct [OF wf prod.collapse [symmetric], of A v]
  show "sshbuf_wf (snd (sshbuf_put A b v))" using p by blast
  show "contents (snd (sshbuf_put A b v)) = contents b @ v" if "fst (sshbuf_put A b v) = Inr u"
    using p that by auto
  show "contents (snd (sshbuf_put A b v)) = contents b" if "fst (sshbuf_put A b v) = Inl e"
    using p that by auto
next
  fix b n assume wf: "sshbuf_wf b"
  show err: "sshbuf_get b n = (Inl SSH_ERR_MESSAGE_INCOMPLETE, b)" if "length (contents b) < n"
    using sshbuf_consume_incomplete [OF wf that] by (simp add: sshbuf_get_def)
  show "sshbuf_wf (snd (sshbuf_get b n))"
    using sshbuf_get_correct [OF wf, of n] err wf by (cases "n \<le> length (contents b)") force+
  show "fst (sshbuf_get b n) = Inr (take n (contents b)) \<and>
      contents (snd (sshbuf_get b n)) = drop n (contents b)" if "n \<le> length (contents b)"
    using sshbuf_get_correct [OF wf that] by auto
qed

section \<open>Typed values\<close>

lemma contents_front:
  "sshbuf_wf buf \<Longrightarrow> drop (off buf) (mem_bytes (bmem buf)) =
   contents buf @ drop (bsize buf) (mem_bytes (bmem buf))"
  using sshbuf_wf_bounds(1) [of buf]
  by (metis contents_def append_take_drop_id drop_drop le_add_diff_inverse2)

lemma PEEK_append:
  "8 \<le> length xs \<Longrightarrow> PEEK_U64 (xs @ ys) = PEEK_U64 xs"
  "4 \<le> length xs \<Longrightarrow> PEEK_U32 (xs @ ys) = PEEK_U32 xs"
  "2 \<le> length xs \<Longrightarrow> PEEK_U16 (xs @ ys) = PEEK_U16 xs"
  by (auto simp: PEEK_U64_def PEEK_U32_def PEEK_U16_def nth_append)

text \<open>The integer readers refine \<^const>\<open>parse_fixed\<close>: a lemma for any width and peek function.\<close>

lemma get_fixed_parse:
  assumes wf: "sshbuf_wf buf"
    and ext: "\<And>xs ys. n \<le> length xs \<Longrightarrow> peek (xs @ ys) = peek xs"
    and run: "(case sshbuf_consume buf n of (Inl e, b) \<Rightarrow> (Inl e, b)
      | (Inr _, b) \<Rightarrow> (Inr (peek (drop (off buf) (mem_bytes (bmem b)))), b)) = (r, buf')"
  shows "sshbuf_wf buf' \<and>
      (case parse_fixed n peek (contents buf) of
         Inl e \<Rightarrow> r = Inl e \<and> contents buf' = contents buf
       | Inr (v, rest) \<Rightarrow> r = Inr v \<and> contents buf' = rest)"
proof (cases "n \<le> length (contents buf)")
  case True
  then obtain b where b: "sshbuf_consume buf n = (Inr (), b)" "sshbuf_wf b"
      "contents b = drop n (contents buf)" "bmem b = bmem buf"
    using sshbuf_consume_correct [OF wf] by blast
  have "peek (drop (off buf) (mem_bytes (bmem buf))) = peek (contents buf)"
    using contents_front [OF wf] ext [OF True] by simp
  then show ?thesis using run b True by (auto simp: parse_fixed_def)
next
  case False
  then show ?thesis using run wf sshbuf_consume_incomplete [OF wf, of n]
    by (auto simp: parse_fixed_def)
qed

lemma sshbuf_peek_string_direct_parse:
  assumes wf: "sshbuf_wf buf"
  shows "sshbuf_peek_string_direct buf =
    (case parse_string (contents buf) of
       Inl e \<Rightarrow> Inl e
     | Inr (s, rest) \<Rightarrow> Inr (off buf + 4, length s))"
    and "parse_string (contents buf) = Inr (s, rest) \<Longrightarrow>
      sshbuf_read buf (off buf + 4) (length s) = s \<and> length s + 4 \<le> length (contents buf) \<and>
      rest = drop (length s + 4) (contents buf)"
proof -
  have peek: "PEEK_U32 (drop (off buf) (mem_bytes (bmem buf))) = PEEK_U32 (contents buf)"
    if "4 \<le> length (contents buf)"
    using contents_front [OF wf] PEEK_append(2) [OF that] by simp
  then show "sshbuf_peek_string_direct buf = (case parse_string (contents buf) of
       Inl e \<Rightarrow> Inl e | Inr (s, rest) \<Rightarrow> Inr (off buf + 4, length s))"
    using wf by (auto simp: sshbuf_peek_string_direct_def parse_string_def Let_def min_def
        simp del: length_contents)
next
  assume p: "parse_string (contents buf) = Inr (s, rest)"
  then have c: "contents buf = wire_string s @ rest" using str.parse_sound by blast
  have "drop (off buf + 4) (mem_bytes (bmem buf)) =
      drop 4 (contents buf @ drop (bsize buf) (mem_bytes (bmem buf)))"
    using contents_front [OF wf] by (metis drop_drop add.commute)
  then show "sshbuf_read buf (off buf + 4) (length s) = s \<and> length s + 4 \<le> length (contents buf) \<and>
      rest = drop (length s + 4) (contents buf)"
    using c by (simp add: sshbuf_read_def wire_string_def)
qed

lemma sshbuf_get_string_direct_parse:
  assumes wf: "sshbuf_wf buf" and run: "sshbuf_get_string_direct buf = (r, buf')"
  shows "sshbuf_wf buf' \<and>
    (case parse_string (contents buf) of
       Inl e \<Rightarrow> r = Inl e \<and> buf' = buf
     | Inr (s, rest) \<Rightarrow> (\<exists>p. r = Inr (p, length s) \<and> sshbuf_read buf' p (length s) = s) \<and>
         contents buf' = rest \<and> same_header buf buf' \<and> bmem buf' = bmem buf)"
proof (cases "parse_string (contents buf)")
  case (Inl e)
  then show ?thesis using run wf sshbuf_peek_string_direct_parse(1) [OF wf]
    by (auto simp: sshbuf_get_string_direct_def)
next
  case (Inr v)
  obtain s rest where v: "v = (s, rest)" by force
  have d: "sshbuf_peek_string_direct buf = Inr (off buf + 4, length s)"
    using sshbuf_peek_string_direct_parse(1) [OF wf] Inr v by simp
  have p: "sshbuf_read buf (off buf + 4) (length s) = s" "length s + 4 \<le> length (contents buf)"
      "rest = drop (length s + 4) (contents buf)"
    using sshbuf_peek_string_direct_parse(2) [OF wf, of s rest] Inr v by auto
  obtain b where b: "sshbuf_consume buf (length s + 4) = (Inr (), b)" "sshbuf_wf b"
      "contents b = rest" "same_header buf b" "bmem b = bmem buf"
    using sshbuf_consume_correct [OF wf p(2)] p(3) by blast
  have "r = Inr (off buf + 4, length s)" "buf' = b"
    using run d b(1) by (auto simp: sshbuf_get_string_direct_def)
  then show ?thesis using Inr v b p(1) by (simp add: sshbuf_read_def)
qed

text \<open>The string a caller reads through \<^verbatim>\<open>sshbuf_get_string_direct\<close>.\<close>

definition get_string_bytes :: "sshbuf \<Rightarrow> byte list res \<times> sshbuf" where
  "get_string_bytes buf = (case sshbuf_get_string_direct buf of
     (Inl e, b) \<Rightarrow> (Inl e, b) | (Inr (p, len), b) \<Rightarrow> (Inr (sshbuf_read b p len), b))"

interpretation q64: queue_codec sshbuf_wf contents "sshbuf_put A" sshbuf_get
  POKE_U64 "parse_fixed 8 PEEK_U64" "\<lambda>_. True" "sshbuf_put_u64 A" sshbuf_get_u64 for A
proof
  show "sshbuf_put_u64 A b v = sshbuf_put A b (POKE_U64 v)" for b v by (rule sshbuf_put_ints)
qed (rule get_fixed_parse, auto simp: PEEK_append sshbuf_get_u64_def Let_def)

interpretation q32: queue_codec sshbuf_wf contents "sshbuf_put A" sshbuf_get
  POKE_U32 "parse_fixed 4 PEEK_U32" "\<lambda>_. True" "sshbuf_put_u32 A" sshbuf_get_u32 for A
proof
  show "sshbuf_put_u32 A b v = sshbuf_put A b (POKE_U32 v)" for b v by (rule sshbuf_put_ints)
qed (rule get_fixed_parse, auto simp: PEEK_append sshbuf_get_u32_def Let_def)

interpretation q16: queue_codec sshbuf_wf contents "sshbuf_put A" sshbuf_get
  POKE_U16 "parse_fixed 2 PEEK_U16" "\<lambda>_. True" "sshbuf_put_u16 A" sshbuf_get_u16 for A
proof
  show "sshbuf_put_u16 A b v = sshbuf_put A b (POKE_U16 v)" for b v by (rule sshbuf_put_ints)
qed (rule get_fixed_parse, auto simp: PEEK_append sshbuf_get_u16_def Let_def)

lemma sshbuf_get_u8_hd:
  assumes wf: "sshbuf_wf buf"
  shows "sshbuf_get_u8 buf = (case sshbuf_consume buf 1 of (Inl e, b) \<Rightarrow> (Inl e, b)
    | (Inr _, b) \<Rightarrow> (Inr (hd (drop (off buf) (mem_bytes (bmem b)))), b))"
proof (cases "1 \<le> length (contents buf)")
  case True
  then obtain b where b: "sshbuf_consume buf 1 = (Inr (), b)" "bmem b = bmem buf"
    using sshbuf_consume_correct [OF wf] by blast
  have "off buf < length (mem_bytes (bmem buf))" using True wf sshbuf_wf_bounds [OF wf] by simp
  then show ?thesis using b by (simp add: sshbuf_get_u8_def Let_def hd_drop_conv_nth)
next
  case False
  then have "sshbuf_consume buf 1 = (Inl SSH_ERR_MESSAGE_INCOMPLETE, buf)"
    by (intro sshbuf_consume_incomplete [OF wf]) linarith
  then show ?thesis by (simp add: sshbuf_get_u8_def del: One_nat_def)
qed

interpretation q8: queue_codec sshbuf_wf contents "sshbuf_put A" sshbuf_get
  "\<lambda>c. [c]" "parse_fixed 1 hd" "\<lambda>_. True" "sshbuf_put_u8 A" sshbuf_get_u8 for A
proof
  show "sshbuf_put_u8 A b v = sshbuf_put A b [v]" for b v by (rule sshbuf_put_ints)
  show "sshbuf_wf b' \<and> (case parse_fixed 1 hd (contents b) of
      Inl e \<Rightarrow> r = Inl e \<and> contents b' = contents b
    | Inr (v, rest) \<Rightarrow> r = Inr v \<and> contents b' = rest)"
    if "sshbuf_wf b" "sshbuf_get_u8 b = (r, b')" for b r b'
    using that sshbuf_get_u8_hd [OF that(1)]
    by (intro get_fixed_parse) (auto simp: hd_append Suc_le_eq)
qed

interpretation qs: queue_codec sshbuf_wf contents "sshbuf_put A" sshbuf_get
  wire_string parse_string string_fits "sshbuf_put_string A" get_string_bytes for A
proof
  show "sshbuf_put_string A b v = sshbuf_put A b (wire_string v)"
    if "sshbuf_wf b" "string_fits v" for b v using that by (rule sshbuf_put_string_put)
  fix b r b' assume wf: "sshbuf_wf b" and g: "get_string_bytes b = (r, b')"
  obtain r1 b1 where run: "sshbuf_get_string_direct b = (r1, b1)" by force
  show "sshbuf_wf b' \<and> (case parse_string (contents b) of
      Inl e \<Rightarrow> r = Inl e \<and> contents b' = contents b
    | Inr (v, rest) \<Rightarrow> r = Inr v \<and> contents b' = rest)"
    using sshbuf_get_string_direct_parse [OF wf run] run g
    by (auto simp: get_string_bytes_def split: sum.splits)
qed

section \<open>Strings copied out of the buffer\<close>

lemma sshbuf_get_string_correct:
  assumes wf: "sshbuf_wf buf" and run: "sshbuf_get_string A True buf = (r, buf')"
  shows "sshbuf_wf buf' \<and>
    (case parse_string (contents buf) of
       Inl e \<Rightarrow> r = Inl e \<and> buf' = buf
     | Inr (s, rest) \<Rightarrow> contents buf' = rest \<and>
         r = (if malloc_ok A (length s + 1) then Inr (s @ [0], length s) else Inl SSH_ERR_ALLOC_FAIL))"
proof -
  obtain r1 b1 where d: "sshbuf_get_string_direct buf = (r1, b1)" by force
  show ?thesis
    using sshbuf_get_string_direct_parse [OF wf d] d run
    by (auto simp: sshbuf_get_string_def split: sum.splits if_splits)
qed

lemma memchr0_None: "memchr0 xs = None \<longleftrightarrow> 0 \<notin> set xs"
  by (induction xs) auto

lemma memchr0_Some: "memchr0 xs = Some z \<longleftrightarrow> z < length xs \<and> xs ! z = 0 \<and> 0 \<notin> set (take z xs)"
proof (induction xs arbitrary: z)
  case (Cons c cs)
  show ?case by (cases z) (auto simp: Cons.IH)
qed simp

text \<open>The strings \<^verbatim>\<open>sshbuf_get_cstring\<close> accepts: no NUL except possibly the last byte.\<close>

definition cstring_ok :: "byte list \<Rightarrow> bool" where
  "cstring_ok s \<longleftrightarrow> 0 \<notin> set (butlast s)"

lemma embedded_nul:
  "(length s > 0 \<and> (case memchr0 s of None \<Rightarrow> False | Some z \<Rightarrow> z < length s - 1)) \<longleftrightarrow> \<not> cstring_ok s"
proof (cases "memchr0 s")
  case None
  then have "cstring_ok s" using memchr0_None [of s] by (auto simp: cstring_ok_def dest: in_set_butlastD)
  then show ?thesis by (simp add: None)
next
  case (Some z)
  then have z: "z < length s" "s ! z = 0" "0 \<notin> set (take z s)" by (auto simp: memchr0_Some)
  have "z < length s - 1 \<longleftrightarrow> 0 \<in> set (butlast s)"
  proof
    assume "z < length s - 1"
    then show "0 \<in> set (butlast s)" using z by (metis nth_butlast length_butlast nth_mem)
  next
    assume "0 \<in> set (butlast s)"
    then show "z < length s - 1" using z
      by (metis butlast_conv_take leI take_all_iff take_take min.absorb1 in_set_takeD set_take_subset_set_take subsetD)
  qed
  then show ?thesis using Some z by (auto simp: cstring_ok_def)
qed

lemma sshbuf_get_cstring_correct:
  assumes wf: "sshbuf_wf buf" and run: "sshbuf_get_cstring A True buf = (r, buf')"
  shows "sshbuf_wf buf' \<and>
    (case parse_string (contents buf) of
       Inl e \<Rightarrow> r = Inl e \<and> buf' = buf
     | Inr (s, rest) \<Rightarrow>
         if \<not> cstring_ok s then r = Inl SSH_ERR_INVALID_FORMAT \<and> buf' = buf
         else contents buf' = rest \<and>
           r = (if malloc_ok A (length s + 1) then Inr (s @ [0], length s) else Inl SSH_ERR_ALLOC_FAIL))"
proof (cases "parse_string (contents buf)")
  case (Inl e)
  then show ?thesis using run wf sshbuf_peek_string_direct_parse(1) [OF wf]
    by (auto simp: sshbuf_get_cstring_def)
next
  case (Inr v)
  obtain s rest where v: "v = (s, rest)" by force
  have pk: "sshbuf_peek_string_direct buf = Inr (off buf + 4, length s)"
    using sshbuf_peek_string_direct_parse(1) [OF wf] Inr v by simp
  have rd: "sshbuf_read buf (off buf + 4) (length s) = s"
    using sshbuf_peek_string_direct_parse(2) [OF wf, of s rest] Inr v by auto
  obtain r1 b1 where d: "sshbuf_get_string_direct buf = (r1, b1)" by force
  have dd: "sshbuf_wf b1" "r1 \<noteq> Inl e" "contents b1 = rest" "bmem b1 = bmem buf" for e
    using sshbuf_get_string_direct_parse [OF wf d] Inr v by auto
  have rd1: "sshbuf_read b1 (off buf + 4) (length s) = s" using rd dd(4) by (simp add: sshbuf_read_def)
  have "sshbuf_get_cstring A True buf =
    (if \<not> cstring_ok s then (Inl SSH_ERR_INVALID_FORMAT, buf)
     else (if malloc_ok A (length s + 1) then Inr (s @ [0], length s) else Inl SSH_ERR_ALLOC_FAIL, b1))"
    using d dd(2) rd1 unfolding sshbuf_get_cstring_def pk sum.case prod.case rd embedded_nul
    by (cases r1) auto
  then show ?thesis using run wf dd Inr v by (auto split: if_splits)
qed

section \<open>Random access\<close>

lemma check_offset_correct:
  assumes wf: "sshbuf_wf buf" and o: "offset < SIZE_MAX - len" "len \<le> SIZE_MAX"
  shows "check_offset buf wr offset len =
    (if offset + len \<le> length (contents buf) then Inr ()
     else Inl (if wr then SSH_ERR_NO_BUFFER_SPACE else SSH_ERR_MESSAGE_INCOMPLETE))"
  using wf o by (auto simp: check_offset_def sshbuf_ptr_def size_simps simp del: length_contents)

lemma check_offset_overflow:
  assumes "sshbuf_wf buf" and "SIZE_MAX - len \<le> offset" and "len \<le> SIZE_MAX"
  shows "check_offset buf wr offset len = Inl SSH_ERR_INVALID_ARGUMENT"
  using assms by (auto simp: check_offset_def sshbuf_ptr_def size_simps)

lemma drop_contents:
  assumes "sshbuf_wf buf" and "offset \<le> length (contents buf)"
  shows "drop (off buf + offset) (mem_bytes (bmem buf)) =
    drop offset (contents buf) @ drop (bsize buf) (mem_bytes (bmem buf))"
proof -
  have "drop (off buf + offset) (mem_bytes (bmem buf)) = drop offset (drop (off buf) (mem_bytes (bmem buf)))"
    by (simp add: add.commute)
  also have "\<dots> = drop offset (contents buf @ drop (bsize buf) (mem_bytes (bmem buf)))"
    by (simp only: contents_front [OF assms(1)])
  also have "\<dots> = drop offset (contents buf) @ drop (bsize buf) (mem_bytes (bmem buf))"
    using assms(2) by (simp del: length_contents)
  finally show ?thesis .
qed

lemma sshbuf_peek_u32_correct:
  assumes wf: "sshbuf_wf buf" and o: "offset < SIZE_MAX - 4"
  shows "sshbuf_peek_u32 buf offset =
    (if offset + 4 \<le> length (contents buf) then Inr (PEEK_U32 (drop offset (contents buf)))
     else Inl SSH_ERR_MESSAGE_INCOMPLETE)"
proof -
  have "PEEK_U32 (drop (off buf + offset) (mem_bytes (bmem buf))) = PEEK_U32 (drop offset (contents buf))"
    if "offset + 4 \<le> length (contents buf)"
    using that drop_contents [OF wf, of offset] by (simp add: PEEK_append del: length_contents)
  then show ?thesis using check_offset_correct [OF wf o, of False]
    by (simp add: sshbuf_peek_u32_def check_roffset_def SIZE_MAX_def)
qed

lemma sshbuf_write_contents:
  assumes wf: "sshbuf_wf buf" and o: "offset + length v \<le> length (contents buf)"
  shows "contents (sshbuf_write buf (off buf + offset) v) = write_at offset v (contents buf)"
    and "sshbuf_wf (sshbuf_write buf (off buf + offset) v)"
proof -
  note b = sshbuf_wf_bounds [OF wf]
  have le: "off buf + offset + length v \<le> bsize buf" using o wf b by simp
  then have al: "off buf + offset + length v \<le> alloc buf" using b by simp
  show "sshbuf_wf (sshbuf_write buf (off buf + offset) v)" using sshbuf_write_wf(1) [OF wf al] .
  let ?m = "mem_bytes (bmem buf)" and ?r = "drop (bsize buf) (mem_bytes (bmem buf))"
  have "drop (off buf) (write_at (off buf + offset) v ?m) =
      take offset (drop (off buf) ?m) @ v @ drop (off buf + offset + length v) ?m"
    using drop_write_at [of "off buf" "off buf + offset" v ?m] al b by simp
  also have "\<dots> = write_at offset v (contents buf) @ ?r"
    using contents_front [OF wf] drop_contents [OF wf, of "offset + length v"] o
    by (simp add: write_at_def add.assoc del: length_contents)
  finally have "drop (off buf) (write_at (off buf + offset) v ?m) = write_at offset v (contents buf) @ ?r" .
  moreover have "length (write_at offset v (contents buf)) = bsize buf - off buf"
    using length_write_at [OF o] wf by simp
  ultimately show "contents (sshbuf_write buf (off buf + offset) v) = write_at offset v (contents buf)"
    using sshbuf_write_wf(2) [OF wf al] by (simp add: contents_def)
qed

lemma sshbuf_poke_correct:
  assumes wf: "sshbuf_wf buf" and o: "offset < SIZE_MAX - length v" "length v \<le> SIZE_MAX"
    and run: "sshbuf_poke buf offset v = (r, buf')"
  shows "r = (if length (contents buf) < offset + length v then Inl SSH_ERR_NO_BUFFER_SPACE
      else if \<not> writable buf then Inl SSH_ERR_BUFFER_READ_ONLY else Inr ())"
    and "sshbuf_wf buf'" and "same_header buf buf'"
    and "contents buf' = (if r = Inr () then write_at offset v (contents buf) else contents buf)"
  using run wf check_offset_correct [OF wf o, of True] sshbuf_write_contents [OF wf, of offset v]
  by (auto simp: sshbuf_poke_def check_woffset_def sshbuf_mutable_ptr_def writable_def
      simp del: length_contents split: if_splits)

lemma sshbuf_poke_ints:
  "sshbuf_poke_u64 buf o1 x = sshbuf_poke buf o1 (POKE_U64 x)"
  "sshbuf_poke_u32 buf o1 y = sshbuf_poke buf o1 (POKE_U32 y)"
  "sshbuf_poke_u16 buf o1 z = sshbuf_poke buf o1 (POKE_U16 z)"
  "sshbuf_poke_u8 buf o1 c = sshbuf_poke buf o1 [c]"
  by (simp_all add: sshbuf_poke_def sshbuf_poke_u64_def sshbuf_poke_u32_def sshbuf_poke_u16_def
      sshbuf_poke_u8_def)

section \<open>Big numbers\<close>

text \<open>The magnitude a byte string denotes, and its wire form: no leading zero bytes except one that
  keeps the sign bit clear.\<close>

definition be_value :: "byte list \<Rightarrow> nat" where
  "be_value xs = foldl (\<lambda>n x. 256 * n + unat x) 0 xs"

definition msb_set :: "byte list \<Rightarrow> bool" where
  "msb_set s \<longleftrightarrow> length s > 0 \<and> (s ! 0) AND 0x80 \<noteq> 0"

definition strip0 :: "byte list \<Rightarrow> byte list" where
  "strip0 v = dropWhile (\<lambda>x. x = 0) v"

definition bignum_body :: "byte list \<Rightarrow> byte list" where
  "bignum_body v = (if msb_set (strip0 v) then 0 # strip0 v else strip0 v)"

lemma be_value_strip0: "be_value (strip0 v) = be_value v"
  by (induction v) (simp_all add: be_value_def strip0_def)

lemma strip0_idem: "strip0 (strip0 v) = strip0 v"
  by (simp add: strip0_def dropWhile_idem)

lemma strip0_bignum_body: "strip0 (bignum_body v) = strip0 v"
  using strip0_idem [of v] by (simp add: bignum_body_def strip0_def)

lemma length_strip0: "length (strip0 v) \<le> length v"
  by (simp add: strip0_def length_dropWhile_le)

lemma bignum_body_nonneg: "\<not> msb_set (bignum_body v)"
  by (simp add: bignum_body_def msb_set_def)

lemma takeWhile_strip0: "drop (length (takeWhile (\<lambda>x. x = 0) v)) v = strip0 v"
  by (simp add: strip0_def dropWhile_eq_drop)

lemma sshbuf_put_bignum2_put:
  assumes wf: "sshbuf_wf buf" and fit: "length v \<le> SSHBUF_SIZE_MAX - 5"
  shows "sshbuf_put_bignum2_bytes A buf v = sshbuf_put A buf (wire_string (bignum_body v))"
proof -
  let ?s = "strip0 v"
  define k :: nat where "k = (if msb_set ?s then 1 else 0)"
  have body: "bignum_body v = replicate k 0 @ ?s" by (simp add: bignum_body_def k_def)
  obtain r b where run: "sshbuf_reserve A buf (length ?s + 4 + k) = (r, b)" by force
  have c: "sshbuf_wf b" "\<And>p. r = Inr p \<Longrightarrow> reserved buf b p (length ?s + 4 + k)"
    using sshbuf_reserve_correct [OF wf run] by auto
  have w: "sshbuf_write (sshbuf_write (sshbuf_write b p (POKE_U32 (of_nat (length ?s + k)))) (p + 4)
      (replicate k 0)) (p + 4 + k) ?s = sshbuf_write b p (wire_string (bignum_body v))"
    if "r = Inr p" for p
  proof -
    have al: "p + (length ?s + 4 + k) \<le> alloc b" using reserved_alloc [OF c(1) c(2) [OF that]] .
    have "sshbuf_write (sshbuf_write b p (POKE_U32 (of_nat (length ?s + k)))) (p + 4) (replicate k 0) =
        sshbuf_write b p (POKE_U32 (of_nat (length ?s + k)) @ replicate k 0)"
      using sshbuf_write_write [OF c(1), of p "POKE_U32 (of_nat (length ?s + k))" "replicate k 0"] al
      by simp
    moreover have "sshbuf_write (sshbuf_write b p (POKE_U32 (of_nat (length ?s + k)) @ replicate k 0))
        (p + 4 + k) ?s = sshbuf_write b p (wire_string (bignum_body v))"
      using sshbuf_write_write [OF c(1), of p "POKE_U32 (of_nat (length ?s + k)) @ replicate k 0" ?s] al
      by (simp add: wire_string_def body ac_simps)
    ultimately show ?thesis by simp
  qed
  have len: "length (wire_string (bignum_body v)) = length ?s + 4 + k"
    by (simp add: wire_string_def body)
  have pre: "(if 0 < length ?s \<and> ?s ! 0 AND 0x80 \<noteq> 0 then 1 else 0) = k"
    by (simp add: k_def msb_set_def)
  have z: "(if k \<noteq> 0 then sshbuf_write x q [0] else x) = sshbuf_write x q (replicate k 0)" for x q
    by (simp add: k_def)
  have n: "(if length ?s \<noteq> 0 then sshbuf_write x q ?s else x) = sshbuf_write x q ?s" for x q
    by simp
  show ?thesis
    using fit run w
    unfolding sshbuf_put_bignum2_bytes_def sshbuf_put_write Let_def strip0_def [symmetric] pre z n len
    by (auto split: sum.split)
qed

lemma sshbuf_get_bignum2_correct:
  assumes wf: "sshbuf_wf buf" and run: "sshbuf_get_bignum2_bytes_direct buf = (r, buf')"
  shows "sshbuf_wf buf' \<and>
    (case parse_string (contents buf) of
       Inl e \<Rightarrow> r = Inl e \<and> buf' = buf
     | Inr (s, rest) \<Rightarrow>
         if msb_set s then r = Inl SSH_ERR_BIGNUM_IS_NEGATIVE \<and> buf' = buf
         else if length s > SSHBUF_MAX_BIGNUM + 1 \<or> (length s = SSHBUF_MAX_BIGNUM + 1 \<and> s ! 0 \<noteq> 0)
           then r = Inl SSH_ERR_BIGNUM_TOO_LARGE \<and> buf' = buf
         else contents buf' = rest \<and>
           (\<exists>p. r = Inr (p, length (strip0 s)) \<and> sshbuf_read buf' p (length (strip0 s)) = strip0 s))"
proof (cases "parse_string (contents buf)")
  case (Inl e)
  then show ?thesis using run wf sshbuf_peek_string_direct_parse(1) [OF wf]
    by (auto simp: sshbuf_get_bignum2_bytes_direct_def)
next
  case (Inr v)
  obtain s rest where v: "v = (s, rest)" by force
  have pk: "sshbuf_peek_string_direct buf = Inr (off buf + 4, length s)"
    using sshbuf_peek_string_direct_parse(1) [OF wf] Inr v by simp
  have rd: "sshbuf_read buf (off buf + 4) (length s) = s"
    and le: "length s + 4 \<le> length (contents buf)" and rest: "rest = drop (length s + 4) (contents buf)"
    using sshbuf_peek_string_direct_parse(2) [OF wf, of s rest] Inr v by auto
  obtain b where b: "sshbuf_consume buf (length s + 4) = (Inr (), b)" "sshbuf_wf b"
      "contents b = rest" "bmem b = bmem buf"
    using sshbuf_consume_correct [OF wf le] rest by blast
  let ?z = "length (takeWhile (\<lambda>x. x = 0) s)"
  have zl: "length (strip0 s) = length s - ?z"
    by (metis takeWhile_strip0 length_drop)
  have "sshbuf_read b (off buf + 4 + ?z) (length s - ?z) = drop ?z (sshbuf_read buf (off buf + 4) (length s))"
    using b(4) by (simp add: sshbuf_read_def drop_take add.commute add.left_commute)
  then have st: "sshbuf_read b (off buf + 4 + ?z) (length s - ?z) = strip0 s"
    by (simp add: rd takeWhile_strip0)
  have neg: "(length s \<noteq> 0 \<and> s ! 0 AND 0x80 \<noteq> 0) = msb_set s" by (simp add: msb_set_def)
  have "sshbuf_get_bignum2_bytes_direct buf =
     (if msb_set s then (Inl SSH_ERR_BIGNUM_IS_NEGATIVE, buf)
      else if length s > SSHBUF_MAX_BIGNUM + 1 \<or> (length s = SSHBUF_MAX_BIGNUM + 1 \<and> s ! 0 \<noteq> 0)
        then (Inl SSH_ERR_BIGNUM_TOO_LARGE, buf)
      else (Inr (off buf + 4 + ?z, length s - ?z), b))"
    unfolding sshbuf_get_bignum2_bytes_direct_def pk sum.case prod.case Let_def rd neg b(1) by simp
  then show ?thesis using run wf b st zl Inr v by (auto split: if_splits)
qed

section \<open>Properties\<close>

text \<open>A small concrete buffer and an allocator that never fails, for the witnesses.\<close>

definition ex_alloc :: allocator where
  "ex_alloc = \<lparr>malloc_ok = (\<lambda>_. True), pagesize = 4096\<rparr>"

definition ex_buf :: "byte list \<Rightarrow> sshbuf" where
  "ex_buf xs = \<lparr>bmem = MemAlloc xs, off = 0, bsize = length xs, max_size = 4096,
     alloc = length xs, readonly = False, refcount = 1, parent = None\<rparr>"

lemma ex_buf_wf: "length xs \<le> 4096 \<Longrightarrow> sshbuf_wf (ex_buf xs)"
  by (simp add: sshbuf_wf_def sane_iff ex_buf_def sshbuf_consts)

lemma contents_ex_buf [simp]: "contents (ex_buf xs) = xs"
  by (simp add: contents_def ex_buf_def)

lemma ex_alloc_ok [simp]: "malloc_ok ex_alloc k"
  by (simp add: ex_alloc_def)

lemma ex_buf_simps [simp]: "max_size (ex_buf xs) = 4096" "writable (ex_buf xs)"
  by (simp_all add: ex_buf_def writable_def)

lemmas sshbuf_eval = ex_buf_def ex_alloc_def sshbuf_consts MUL_NO_OVERFLOW_def sshbuf_put_write
  sshbuf_reserve_def sshbuf_allocate_def sshbuf_check_reserve_def sshbuf_check_sanity_def
  sshbuf_maybe_pack_def size_add_def size_sub_def allocate_rlen_def ROUNDUP_def Let_def
  recallocarray_def sshbuf_write_def set_bytes_def write_at_def

text \<open>
  C5. Appending to a buffer: \<^verbatim>\<open>sshbuf_put\<close> keeps the buffer well-formed whatever happens, appends
  exactly the given bytes when it returns 0 (through packing and reallocation), leaves the contents
  alone when it fails, and, when memory is available, fails only because the buffer is read-only or
  shared, or because the data would exceed \<open>max_size\<close>, with the matching error code.
\<close>

theorem sshbuf_put_appends:
  assumes "sshbuf_wf buf" and "sshbuf_put A buf v = (r, buf')"
  shows "sshbuf_wf buf' \<and> same_header buf buf' \<and>
    contents buf' = contents buf @ (if r = Inr () then v else []) \<and>
    ((\<forall>k. malloc_ok A k) \<longrightarrow>
      r = (if \<not> writable buf then Inl SSH_ERR_BUFFER_READ_ONLY
           else if max_size buf < length (contents buf) + length v then Inl SSH_ERR_NO_BUFFER_SPACE
           else Inr ()))"
proof -
  have "r = sshbuf_check_reserve buf (length v)" if "\<forall>k. malloc_ok A k"
    using sshbuf_allocate_total [OF assms(1) that, of "length v"] assms(2)
    by (auto simp: sshbuf_put_write sshbuf_reserve_def split: prod.splits sum.splits)
  then show ?thesis
    using sshbuf_put_correct [OF assms] sshbuf_check_reserve_error [OF assms(1), of "length v"] by auto
qed

theorem sshbuf_put_appends_witness:
  "\<exists>r buf'. sshbuf_put ex_alloc (ex_buf [1, 2]) [7] = (r, buf') \<and> r = Inr () \<and>
     sshbuf_wf buf' \<and> contents buf' = [1, 2, 7]"
proof -
  obtain r buf' where run: "sshbuf_put ex_alloc (ex_buf [1, 2]) [7] = (r, buf')" by force
  show ?thesis using run sshbuf_put_appends [OF ex_buf_wf run] by simp
qed

text \<open>
  C13. Memory safety of reservations: the pointer \<^verbatim>\<open>sshbuf_reserve\<close> returns is followed by \<open>len\<close> bytes
  inside the allocated array, after the bytes the buffer already held; no \<^verbatim>\<open>size_t\<close> computation of
  the allocation path wraps around.
\<close>

theorem sshbuf_reserve_in_bounds:
  assumes "sshbuf_wf buf" and "sshbuf_reserve A buf len = (Inr p, buf')"
  shows "p + len \<le> length (mem_bytes (bmem buf')) \<and> bsize buf' = p + len \<and>
    alloc buf' \<le> max_size buf' \<and> max_size buf' = max_size buf \<and>
    take (p - off buf') (drop (off buf') (mem_bytes (bmem buf'))) = contents buf"
proof -
  have c: "sshbuf_wf buf'" "same_header buf buf'" "reserved buf buf' p len"
    using sshbuf_reserve_correct [OF assms] by auto
  then show ?thesis using reserved_alloc [OF c(1,3)] sshbuf_wf_bounds [OF c(1)]
    by (simp add: reserved_def same_header_def)
qed

theorem sshbuf_reserve_in_bounds_witness:
  "\<exists>buf'. sshbuf_reserve ex_alloc (ex_buf [1, 2]) 3 = (Inr 2, buf') \<and>
     5 \<le> length (mem_bytes (bmem buf'))"
proof -
  obtain buf' where run: "sshbuf_reserve ex_alloc (ex_buf [1, 2]) 3 = (Inr 2, buf')"
    by (simp add: sshbuf_eval)
  show ?thesis using run sshbuf_reserve_in_bounds [OF ex_buf_wf run] by simp
qed



text \<open>
  C16. A C string taken from the network holds no embedded NUL: \<^verbatim>\<open>sshbuf_get_cstring\<close> returns only
  strings whose NUL, if any, is the last byte of the wire string, and refuses the others without
  consuming them.
\<close>

theorem sshbuf_get_cstring_no_embedded_nul:
  assumes "sshbuf_wf buf" and "sshbuf_get_cstring A True buf = (r, buf')"
  shows "sshbuf_wf buf' \<and>
    (\<forall>val len. r = Inr (val, len) \<longrightarrow> (\<exists>s. val = s @ [0] \<and> len = length s \<and> 0 \<notin> set (butlast s) \<and>
       contents buf = wire_string s @ contents buf')) \<and>
    (\<forall>s rest. contents buf = wire_string s @ rest \<and> string_fits s \<and> 0 \<in> set (butlast s) \<longrightarrow>
       r = Inl SSH_ERR_INVALID_FORMAT \<and> buf' = buf)"
proof -
  note c = sshbuf_get_cstring_correct [OF assms]
  have "\<exists>s. val = s @ [0] \<and> len = length s \<and> 0 \<notin> set (butlast s) \<and>
      contents buf = wire_string s @ contents buf'" if "r = Inr (val, len)" for val len
    using c that by (auto simp: cstring_ok_def dest!: str.parse_sound split: sum.splits if_splits)
  moreover have "r = Inl SSH_ERR_INVALID_FORMAT \<and> buf' = buf"
    if "contents buf = wire_string s @ rest" "string_fits s" "0 \<in> set (butlast s)" for s rest
    using c that by (simp add: str.parse_enc cstring_ok_def)
  ultimately show ?thesis using c by blast
qed

theorem sshbuf_get_cstring_no_embedded_nul_witness:
  "sshbuf_get_cstring ex_alloc True (ex_buf [0, 0, 0, 3, 65, 0, 66]) =
     (Inl SSH_ERR_INVALID_FORMAT, ex_buf [0, 0, 0, 3, 65, 0, 66])"
proof -
  let ?b = "ex_buf [0, 0, 0, 3, 65, 0, 66]"
  obtain r buf' where run: "sshbuf_get_cstring ex_alloc True ?b = (r, buf')" by force
  have h: "contents ?b = wire_string [65, 0, 66] @ [] \<and> string_fits [65, 0, 66] \<and>
      0 \<in> set (butlast [65, 0, 66 :: byte])"
    by (simp add: string_fits_def wire_string_def POKE_U32_def SSHBUF_SIZE_MAX_def)
  have "r = Inl SSH_ERR_INVALID_FORMAT \<and> buf' = ?b"
    by (rule sshbuf_get_cstring_no_embedded_nul [OF ex_buf_wf run, THEN conjunct2, THEN conjunct2,
          rule_format, OF _ h]) simp
  then show ?thesis using run by simp
qed

text \<open>
  C17. Big numbers round-trip: what \<^verbatim>\<open>sshbuf_put_bignum2_bytes\<close> writes for a number of at most
  \<open>SSHBUF_MAX_BIGNUM\<close> significant bytes, \<^verbatim>\<open>sshbuf_get_bignum2_bytes_direct\<close> reads back as the same
  magnitude without leading zeros, never as a negative number, and consumes exactly that encoding.
\<close>

theorem bignum2_round_trip:
  assumes "sshbuf_wf buf" and "contents buf = []" and "length (strip0 v) \<le> SSHBUF_MAX_BIGNUM"
    and "sshbuf_put_bignum2_bytes A buf v = (Inr (), buf1)"
    and "sshbuf_get_bignum2_bytes_direct buf1 = (r, buf2)"
  shows "\<exists>p. r = Inr (p, length (strip0 v)) \<and> contents buf2 = [] \<and>
    sshbuf_read buf2 p (length (strip0 v)) = strip0 v \<and>
    be_value (sshbuf_read buf2 p (length (strip0 v))) = be_value v"
proof -
  have fit: "length v \<le> SSHBUF_SIZE_MAX - 5"
    using assms(4) by (auto simp: sshbuf_put_bignum2_bytes_def split: if_splits)
  have put: "sshbuf_put A buf (wire_string (bignum_body v)) = (Inr (), buf1)"
    using sshbuf_put_bignum2_put [OF assms(1) fit] assms(4) by simp
  have wf1: "sshbuf_wf buf1" and c1: "contents buf1 = wire_string (bignum_body v)"
    using sshbuf_put_correct [OF assms(1) put] assms(2) by auto
  have lb: "length (bignum_body v) \<le> SSHBUF_MAX_BIGNUM + 1" using assms(3) by (simp add: bignum_body_def)
  have top: "bignum_body v ! 0 = 0" if "length (bignum_body v) = SSHBUF_MAX_BIGNUM + 1"
    using that assms(3) by (auto simp: bignum_body_def split: if_splits)
  have "string_fits (bignum_body v)" using lb by (simp add: string_fits_def SSHBUF_MAX_BIGNUM_def
        SSHBUF_SIZE_MAX_def)
  then have "parse_string (contents buf1) = Inr (bignum_body v, [])"
    using str.parse_enc [of "bignum_body v" "[]"] c1 by simp
  moreover have "\<not> (length (bignum_body v) > SSHBUF_MAX_BIGNUM + 1 \<or>
      (length (bignum_body v) = SSHBUF_MAX_BIGNUM + 1 \<and> bignum_body v ! 0 \<noteq> 0))"
    using lb top by auto
  ultimately show ?thesis
    using sshbuf_get_bignum2_correct [OF wf1 assms(5)] bignum_body_nonneg [of v]
    by (auto simp: strip0_bignum_body be_value_strip0)
qed

theorem bignum2_round_trip_witness:
  "\<exists>buf1 r buf2 p. sshbuf_put_bignum2_bytes ex_alloc (ex_buf []) [0, 200, 1] = (Inr (), buf1) \<and>
     sshbuf_get_bignum2_bytes_direct buf1 = (r, buf2) \<and> r = Inr (p, 2) \<and>
     contents buf2 = [] \<and> sshbuf_read buf2 p 2 = [200, 1]"
proof -
  have st: "strip0 [0, 200, 1] = [200, 1 :: byte]" by (simp add: strip0_def)
  obtain buf1 where put: "sshbuf_put_bignum2_bytes ex_alloc (ex_buf []) [0, 200, 1] = (Inr (), buf1)"
    by (simp add: sshbuf_put_bignum2_bytes_def sshbuf_eval)
  obtain r buf2 where get: "sshbuf_get_bignum2_bytes_direct buf1 = (r, buf2)" by force
  have "length (strip0 [0, 200, 1]) \<le> SSHBUF_MAX_BIGNUM" by (simp add: st SSHBUF_MAX_BIGNUM_def)
  then obtain p where "r = Inr (p, 2)" "contents buf2 = []" "sshbuf_read buf2 p 2 = [200, 1]"
    using bignum2_round_trip [OF ex_buf_wf _ _ put get] by (auto simp: st numeral_2_eq_2)
  then show ?thesis using put get by blast
qed

end
