(* ===== verification/Sshbuf_Heap.thy ===== *)
theory Sshbuf_Heap
  imports Sshbuf_Getput
begin

text \<open>
  Reference-counted buffers: \<^verbatim>\<open>sshbuf_set_parent\<close>, \<^verbatim>\<open>sshbuf_fromb\<close>, \<^verbatim>\<open>sshbuf_froms\<close> and
  \<^verbatim>\<open>sshbuf_free\<close> on a store of buffers. An address is an index of the store, a freed cell is \<open>None\<close>,
  a new buffer takes the next index, and the NULL pointer is the address \<open>None\<close>.
\<close>

section \<open>State and operations\<close>

type_synonym heap = "sshbuf option list"

definition heap_get :: "heap \<Rightarrow> nat option \<Rightarrow> sshbuf option" where
  "heap_get h p = (case p of None \<Rightarrow> None | Some a \<Rightarrow> if a < length h then h ! a else None)"

definition heap_sanity :: "heap \<Rightarrow> nat option \<Rightarrow> unit res" where
  "heap_sanity h p = (case heap_get h p of None \<Rightarrow> Inl SSH_ERR_INTERNAL_ERROR
     | Some b \<Rightarrow> sshbuf_check_sanity b)"

definition sshbuf_set_parent :: "heap \<Rightarrow> nat \<Rightarrow> nat \<Rightarrow> unit res \<times> heap" where
  "sshbuf_set_parent h child par =
    (case heap_sanity h (Some child) of Inl e \<Rightarrow> (Inl e, h) | Inr _ \<Rightarrow>
     case heap_sanity h (Some par) of Inl e \<Rightarrow> (Inl e, h) | Inr _ \<Rightarrow>
       let h1 = h[child := map_option (\<lambda>b. b\<lparr>parent := Some par\<rparr>) (h ! child)];
           h2 = h1[par := map_option (\<lambda>b. b\<lparr>refcount := refcount b + 1\<rparr>) (h1 ! par)]
       in (Inr (), h2))"

text \<open>The sum of the reference counts bounds the recursion of \<^verbatim>\<open>sshbuf_free\<close> along the parents.\<close>

definition heap_refs :: "heap \<Rightarrow> nat" where
  "heap_refs h = sum_list (map (\<lambda>c. case c of None \<Rightarrow> 0 | Some b \<Rightarrow> refcount b) h)"

lemma heap_refs_update:
  "a < length h \<Longrightarrow> h ! a = Some b \<Longrightarrow> 0 < refcount b \<Longrightarrow>
   heap_refs (h[a := Some (b\<lparr>refcount := refcount b - 1\<rparr>)]) < heap_refs h"
proof (induction h arbitrary: a)
  case (Cons c h)
  then show ?case by (cases a) (auto simp: heap_refs_def)
qed simp

function sshbuf_free :: "heap \<Rightarrow> nat option \<Rightarrow> heap" where
  "sshbuf_free h p =
    (case p of None \<Rightarrow> h
     | Some a \<Rightarrow>
        (case heap_get h (Some a) of None \<Rightarrow> h
         | Some b \<Rightarrow>
            if \<not> sane b then h
            else let h1 = h[a := Some (b\<lparr>refcount := refcount b - 1\<rparr>)] in
              if refcount b - 1 > 0 then h1
              else (sshbuf_free h1 (parent b))[a := None]))"
  by pat_completeness auto
termination
proof (relation "measure (\<lambda>(h, p). heap_refs h)")
  fix h p a b h1
  assume "p = Some a" and g: "heap_get h (Some a) = Some b" and s: "\<not> \<not> sane b"
    and h1: "h1 = h[a := Some (b\<lparr>refcount := refcount b - 1\<rparr>)]"
  have "a < length h" "h ! a = Some b" using g by (auto simp: heap_get_def split: if_splits)
  moreover have "0 < refcount b" using s by (simp add: sane_iff)
  ultimately show "((h1, parent b), h, p) \<in> measure (\<lambda>(h, p). heap_refs h)"
    using h1 heap_refs_update by simp
qed simp

declare sshbuf_free.simps [simp del]

lemma sshbuf_free_None [simp]: "sshbuf_free h None = h"
  by (simp add: sshbuf_free.simps)

text \<open>The data pointer of a child addresses the bytes of its parent; as long as the child lives the
  parent refuses every operation that would write to them, so the model keeps a copy.\<close>

definition heap_new :: "heap \<Rightarrow> sshbuf \<Rightarrow> nat \<times> heap" where
  "heap_new h b = (length h, h @ [Some b])"

definition sshbuf_fromb :: "bool \<Rightarrow> heap \<Rightarrow> nat \<Rightarrow> nat option \<times> heap" where
  "sshbuf_fromb struct_ok h a =
    (case heap_get h (Some a) of None \<Rightarrow> (None, h)
     | Some buf \<Rightarrow>
        if sshbuf_check_sanity buf \<noteq> Inr () then (None, h)
        else (case sshbuf_from struct_ok
                (map_option (\<lambda>p. drop p (mem_bytes (bmem buf))) (sshbuf_ptr buf)) (sshbuf_len buf) of
            None \<Rightarrow> (None, h)
          | Some b \<Rightarrow>
              let (r, h1) = heap_new h b in
              (case sshbuf_set_parent h1 r a of
                 (Inl _, h2) \<Rightarrow> (None, sshbuf_free h2 (Some r))
               | (Inr _, h2) \<Rightarrow> (Some r, h2))))"

definition sshbuf_froms :: "bool \<Rightarrow> heap \<Rightarrow> nat \<Rightarrow> nat res \<times> heap" where
  "sshbuf_froms struct_ok h a =
    (case heap_get h (Some a) of None \<Rightarrow> (Inl SSH_ERR_INVALID_ARGUMENT, h)
     | Some buf \<Rightarrow>
        (case sshbuf_peek_string_direct buf of
           Inl e \<Rightarrow> (Inl e, h)
         | Inr (p, len) \<Rightarrow>
            (case sshbuf_from struct_ok (Some (drop p (mem_bytes (bmem buf)))) len of
               None \<Rightarrow> (Inl SSH_ERR_ALLOC_FAIL, h)
             | Some b \<Rightarrow>
                 let (r, h1) = heap_new h b in
                 (case sshbuf_consume buf (len + 4) of
                    (Inl e, buf1) \<Rightarrow> (Inl e, sshbuf_free (h1[a := Some buf1]) (Some r))
                  | (Inr _, buf1) \<Rightarrow>
                     (case sshbuf_set_parent (h1[a := Some buf1]) r a of
                        (Inl e, h2) \<Rightarrow> (Inl e, sshbuf_free h2 (Some r))
                      | (Inr _, h2) \<Rightarrow> (Inr r, h2))))))"

section \<open>The ownership invariant\<close>

text \<open>\<open>own a\<close> is the number of pointers to \<open>a\<close> that callers hold and will pass to \<^verbatim>\<open>sshbuf_free\<close>. Every
  live buffer is counted once for each of them and once for each live child, and its parent is an
  older live buffer.\<close>

definition children :: "heap \<Rightarrow> nat \<Rightarrow> nat set" where
  "children h a = {c. c < length h \<and> (\<exists>b. h ! c = Some b \<and> parent b = Some a)}"

definition cell_ok :: "heap \<Rightarrow> (nat \<Rightarrow> nat) \<Rightarrow> nat \<Rightarrow> bool" where
  "cell_ok h own a = (case h ! a of
     None \<Rightarrow> own a = 0
   | Some b \<Rightarrow> sshbuf_wf b \<and> refcount b = own a + card (children h a) \<and>
       (\<forall>p. parent b = Some p \<longrightarrow> p < a \<and> h ! p \<noteq> None))"

definition heap_inv :: "heap \<Rightarrow> (nat \<Rightarrow> nat) \<Rightarrow> bool" where
  "heap_inv h own \<longleftrightarrow> (\<forall>a < length h. cell_ok h own a) \<and> (\<forall>a \<ge> length h. own a = 0)"

lemma heap_invD:
  assumes "heap_inv h own" and "a < length h" and "h ! a = Some b"
  shows "sshbuf_wf b" and "refcount b = own a + card (children h a)"
    and "parent b = Some p \<Longrightarrow> p < a \<and> h ! p \<noteq> None"
  using assms by (auto simp: heap_inv_def cell_ok_def)

lemma heap_inv_own: "heap_inv h own \<Longrightarrow> 0 < own a \<Longrightarrow> a < length h \<and> (\<exists>b. h ! a = Some b)"
  by (cases "a < length h"; cases "h ! a") (auto simp: heap_inv_def cell_ok_def not_less)

lemma heap_inv_dead: "heap_inv h own \<Longrightarrow> a < length h \<Longrightarrow> h ! a = None \<Longrightarrow> own a = 0"
  using heap_inv_own [of h own a] by auto

lemma finite_children [simp]: "finite (children h a)"
  by (simp add: children_def)

lemma no_children_free:
  assumes "heap_inv h own" and "a < length h" and "h ! a = Some b" and "refcount b = 1" and "0 < own a"
  shows "children h a = {}" and "own a = 1"
proof -
  have "own a + card (children h a) = 1" using heap_invD(2) [OF assms(1-3)] assms(4) by simp
  then have "own a = 1" and "card (children h a) = 0" using assms(5) by linarith+
  then show "children h a = {}" and "own a = 1" by simp_all
qed

section \<open>Freeing\<close>

definition ordered :: "heap \<Rightarrow> bool" where
  "ordered h \<longleftrightarrow> (\<forall>c b q. c < length h \<longrightarrow> h ! c = Some b \<longrightarrow> parent b = Some q \<longrightarrow> q < c)"

lemma heap_inv_ordered: "heap_inv h own \<Longrightarrow> ordered h"
  using heap_invD(3) by (auto simp: ordered_def)

lemma ordered_update:
  "ordered h \<Longrightarrow> (\<forall>b q. x = Some b \<longrightarrow> parent b = Some q \<longrightarrow> q < a) \<Longrightarrow> ordered (h[a := x])"
  unfolding ordered_def
proof (intro allI impI, goal_cases)
  case (1 c b q)
  then show ?case by (cases "c = a") simp_all
qed

lemma sshbuf_free_frame:
  "ordered h \<Longrightarrow> \<forall>q. p = Some q \<longrightarrow> q < a \<Longrightarrow> sshbuf_free (h[a := x]) p = (sshbuf_free h p)[a := x]"
proof (induction h p rule: sshbuf_free.induct)
  case (1 h p)
  show ?case
  proof (cases "\<exists>q b. p = Some q \<and> heap_get h (Some q) = Some b \<and> sane b \<and> \<not> refcount b - 1 > 0")
    case False
    then show ?thesis
      using "1.prems"(2)
      by (auto simp: sshbuf_free.simps [of _ p] heap_get_def Let_def list_update_swap
          split: option.splits if_splits)
  next
    case True
    then obtain q b where q: "p = Some q" "heap_get h (Some q) = Some b" "sane b" "\<not> refcount b - 1 > 0"
      by blast
    then have lt: "q < a" "q < length h" "h ! q = Some b"
      using "1.prems"(2) by (auto simp: heap_get_def split: if_splits)
    let ?h1 = "h[q := Some (b\<lparr>refcount := refcount b - 1\<rparr>)]"
    have par: "\<forall>r. parent b = Some r \<longrightarrow> r < q" using "1.prems"(1) lt by (auto simp: ordered_def)
    have o1: "ordered ?h1" using "1.prems"(1) par by (intro ordered_update) auto
    have ih: "sshbuf_free (?h1[a := x]) (parent b) = (sshbuf_free ?h1 (parent b))[a := x]"
      using "1.IH" [OF q(1,2) _ refl q(4)] q(3) o1 par lt by fastforce
    have g: "heap_get (h[a := x]) (Some q) = Some b" using lt by (simp add: heap_get_def)
    have "sshbuf_free (h[a := x]) p = (sshbuf_free (h[a := x, q := Some (b\<lparr>refcount := refcount b - 1\<rparr>)])
        (parent b))[q := None]"
      unfolding sshbuf_free.simps [of "h[a := x]" p] using q g by (simp add: Let_def)
    also have "h[a := x, q := Some (b\<lparr>refcount := refcount b - 1\<rparr>)] = ?h1[a := x]"
      using lt by (simp add: list_update_swap)
    finally have "sshbuf_free (h[a := x]) p = (sshbuf_free ?h1 (parent b))[a := x, q := None]"
      using ih by simp
    moreover have "sshbuf_free h p = (sshbuf_free ?h1 (parent b))[q := None]"
      unfolding sshbuf_free.simps [of h p] using q by (simp add: Let_def)
    ultimately show ?thesis using lt by (simp add: list_update_swap)
  qed
qed

lemma length_sshbuf_free [simp]: "length (sshbuf_free h p) = length h"
proof (induction h p rule: sshbuf_free.induct)
  case (1 h p)
  then show ?case by (subst sshbuf_free.simps) (auto simp: Let_def split: option.splits)
qed

lemma children_same_parent:
  assumes "a < length h" and "h ! a = Some b" and "parent b' = parent b"
  shows "children (h[a := Some b']) c = children h c"
  using assms by (auto simp: children_def nth_list_update)

lemma children_removed:
  assumes "a < length h" shows "children (h[a := None]) c = children h c - {a}"
  using assms by (auto simp: children_def nth_list_update)

lemma heap_inv_dec:
  assumes inv: "heap_inv h own" and a: "a < length h" "h ! a = Some b" and o: "0 < own a"
    and r: "refcount b > 1"
  shows "heap_inv (h[a := Some (b\<lparr>refcount := refcount b - 1\<rparr>)]) (own(a := own a - 1))"
proof -
  let ?h1 = "h[a := Some (b\<lparr>refcount := refcount b - 1\<rparr>)]"
  note d = heap_invD [OF inv a]
  have "sshbuf_wf (b\<lparr>refcount := refcount b - 1\<rparr>)" using d(1) r by (auto simp: sshbuf_wf_def sane_iff)
  then have "cell_ok ?h1 (own(a := own a - 1)) a"
    using a o d by (auto simp: cell_ok_def children_same_parent nth_list_update)
  moreover have "cell_ok ?h1 (own(a := own a - 1)) c" if "c < length h" "c \<noteq> a" for c
    using inv that a by (auto simp: heap_inv_def cell_ok_def children_same_parent nth_list_update
        split: option.splits)
  ultimately show ?thesis using inv a by (auto simp: heap_inv_def)
qed

lemma heap_inv_remove:
  assumes inv: "heap_inv h own" and a: "a < length h" "h ! a = Some b"
    and ch: "children h a = {}" and oa: "own' a = 0"
    and op: "\<And>c. c \<noteq> a \<Longrightarrow> own' c = (if parent b = Some c then own c + 1 else own c)"
  shows "heap_inv (h[a := None]) own'"
proof -
  have par: "c < a \<and> h ! c \<noteq> None" if "parent b = Some c" for c
    using heap_invD(3) [OF inv a that] .
  have "cell_ok (h[a := None]) own' c" if c: "c < length h" for c
  proof (cases "c = a")
    case True
    then show ?thesis using a oa by (simp add: cell_ok_def)
  next
    case neq: False
    show ?thesis
    proof (cases "h ! c")
      case None
      then have "parent b \<noteq> Some c" and "own c = 0"
        using par inv c by (auto simp: heap_inv_def cell_ok_def)
      then show ?thesis using None neq by (simp add: cell_ok_def op)
    next
      case (Some bc)
      note d = heap_invD [OF inv c Some]
      have "parent bc \<noteq> Some a" using ch c Some by (auto simp: children_def)
      moreover have "own' c + card (children h c - {a}) = own c + card (children h c)"
      proof (cases "parent b = Some c")
        case True
        then have "a \<in> children h c" using a by (simp add: children_def)
        then have "card (children h c) = Suc (card (children h c - {a}))"
          by (rule card.remove [OF finite_children])
        moreover have "own' c = own c + 1" using True op [OF neq] by simp
        ultimately show ?thesis by linarith
      next
        case False
        then have "a \<notin> children h c" using a by (simp add: children_def)
        then show ?thesis using False neq by (simp add: op)
      qed
      moreover have "h[a := None] ! q \<noteq> None" if "parent bc = Some q" for q
        using that d(3) [OF that] calculation(1) by (cases "q = a") simp_all
      ultimately show ?thesis using d Some c a(1) neq
        by (simp add: cell_ok_def children_removed)
    qed
  qed
  moreover have "own' c = 0" if "length h \<le> c" for c
  proof -
    have "c \<noteq> a" and "parent b \<noteq> Some c" using that a(1) par [of c] by auto
    then show ?thesis using inv that by (simp add: op heap_inv_def)
  qed
  ultimately show ?thesis by (simp add: heap_inv_def)
qed

lemma sshbuf_free_inv:
  "heap_inv h own \<Longrightarrow> 0 < own a \<Longrightarrow> heap_inv (sshbuf_free h (Some a)) (own(a := own a - 1))"
proof (induction a arbitrary: h own rule: less_induct)
  case (less a)
  obtain b where a: "a < length h" "h ! a = Some b" using heap_inv_own [OF less.prems] by blast
  note d = heap_invD [OF less.prems(1) a]
  let ?h1 = "h[a := Some (b\<lparr>refcount := refcount b - 1\<rparr>)]"
  have g: "heap_get h (Some a) = Some b" and s: "sane b" using a d(1) by (auto simp: heap_get_def)
  show ?case
  proof (cases "refcount b > 1")
    case True
    then have "sshbuf_free h (Some a) = ?h1"
      unfolding sshbuf_free.simps [of h] using g s by (simp add: Let_def)
    then show ?thesis by (simp only: heap_inv_dec [OF less.prems(1) a less.prems(2) True])
  next
    case False
    then have r: "refcount b = 1" using s by (simp add: sane_iff)
    note nc = no_children_free [OF less.prems(1) a r less.prems(2)]
    have f: "sshbuf_free h (Some a) = (sshbuf_free ?h1 (parent b))[a := None]"
      unfolding sshbuf_free.simps [of h "Some a"] using g s r by (simp add: Let_def)
    have ord: "ordered ?h1"
      using heap_inv_ordered [OF less.prems(1)] d(3) by (intro ordered_update) auto
    have "\<forall>q. parent b = Some q \<longrightarrow> q < a" using d(3) by blast
    then have "(sshbuf_free ?h1 (parent b))[a := None] = sshbuf_free (h[a := None]) (parent b)"
      using sshbuf_free_frame [OF ord, of "parent b" a None] by simp
    with f have f: "sshbuf_free h (Some a) = sshbuf_free (h[a := None]) (parent b)" by simp
    show ?thesis
    proof (cases "parent b")
      case None
      have "heap_inv (h[a := None]) (own(a := 0))"
        using None by (intro heap_inv_remove [OF less.prems(1) a nc(1)]) auto
      then show ?thesis by (simp only: f None nc(2) sshbuf_free_None diff_self_eq_0)
    next
      case (Some q)
      then have q: "q < a" using d(3) by blast
      have "heap_inv (h[a := None]) (own(a := 0, q := own q + 1))"
        using Some q by (intro heap_inv_remove [OF less.prems(1) a nc(1)]) auto
      then have "heap_inv (sshbuf_free (h[a := None]) (Some q))
          (own(a := 0, q := own q + 1, q := (own(a := 0, q := own q + 1)) q - 1))"
        by (rule less.IH [OF q]) simp
      moreover have "own(a := 0, q := own q + 1, q := (own(a := 0, q := own q + 1)) q - 1) = own(a := 0)"
        using q by (intro ext) simp
      ultimately have "heap_inv (sshbuf_free (h[a := None]) (Some q)) (own(a := 0))" by (simp only:)
      then show ?thesis by (simp only: f Some nc(2) diff_self_eq_0)
    qed
  qed
qed

section \<open>Creating children\<close>

definition same_data :: "sshbuf \<Rightarrow> sshbuf \<Rightarrow> bool" where
  "same_data b b' \<longleftrightarrow> parent b' = parent b \<and> readonly b' = readonly b \<and> bmem b' = bmem b \<and> alloc b' = alloc b"

lemma same_data_refl [simp]: "same_data b b"
  by (simp add: same_data_def)

lemma heap_inv_replace:
  assumes inv: "heap_inv h own" and a: "a < length h" "h ! a = Some b"
    and b': "sshbuf_wf b'" "same_header b b'"
  shows "heap_inv (h[a := Some b']) own"
proof -
  have ch: "children (h[a := Some b']) c = children h c" for c
    using children_same_parent [OF a] b'(2) by (simp add: same_header_def)
  have live: "(h[a := Some b'] ! q = None) = (h ! q = None)" for q
    using a by (cases "q = a") simp_all
  have "cell_ok (h[a := Some b']) own c" if "c < length h" for c
  proof (cases "c = a")
    case True
    have "h[a := Some b'] ! q \<noteq> None" if "parent b = Some q" for q
      using live heap_invD(3) [OF inv a that] by simp
    then show ?thesis using True heap_invD [OF inv a] a b' ch
      by (simp add: cell_ok_def same_header_def)
  next
    case False
    have "cell_ok h own c" using inv that by (simp add: heap_inv_def)
    then show ?thesis using False ch live by (simp add: cell_ok_def split: option.splits)
  qed
  then show ?thesis using inv by (simp add: heap_inv_def)
qed

lemma children_attach:
  assumes "par < length h" and "h ! par = Some pb" and "parent pb' = parent pb"
  shows "children (h[par := Some pb'] @ [Some (b\<lparr>parent := Some par\<rparr>)]) c =
    (if c = par then insert (length h) (children h c) else children h c)"
  using assms by (auto simp: children_def nth_append nth_list_update less_Suc_eq)

lemma sshbuf_set_parent_attach:
  assumes inv: "heap_inv h own" and b: "sshbuf_wf b" "refcount b = 1"
    and p: "par < length h" "h ! par = Some pb" "refcount pb < SSHBUF_REFS_MAX"
  defines "h' \<equiv> h[par := Some (pb\<lparr>refcount := refcount pb + 1\<rparr>)] @ [Some (b\<lparr>parent := Some par\<rparr>)]"
  shows "sshbuf_set_parent (h @ [Some b]) (length h) par = (Inr (), h')"
    and "heap_inv h' (own(length h := 1))"
proof -
  note dp = heap_invD [OF inv p(1,2)]
  have "sane b" "sane pb" using b(1) dp(1) by auto
  then show "sshbuf_set_parent (h @ [Some b]) (length h) par = (Inr (), h')"
    using p by (simp add: sshbuf_set_parent_def heap_sanity_def heap_get_def sane_def nth_append
        list_update_append h'_def Let_def)
  have ch: "children h' c = (if c = par then insert (length h) (children h c) else children h c)" for c
    unfolding h'_def by (rule children_attach [OF p(1,2)]) simp
  have fresh: "length h \<notin> children h c" for c by (simp add: children_def)
  have nolast: "children h (length h) = {}"
  proof -
    have "parent bc \<noteq> Some (length h)" if "c < length h" "h ! c = Some bc" for c bc
      using heap_invD(3) [OF inv that, of "length h"] that(1) by auto
    then show ?thesis by (auto simp: children_def)
  qed
  have "cell_ok h' (own(length h := 1)) c" if cl: "c < Suc (length h)" for c
  proof -
    consider "c = length h" | "c = par" | "c < length h" "c \<noteq> par" using cl by linarith
    then show ?thesis
    proof cases
      case 1
      then show ?thesis using b p ch nolast
        by (simp add: cell_ok_def h'_def nth_append sshbuf_wf_def sane_iff)
    next
      case 2
      have "sshbuf_wf (pb\<lparr>refcount := refcount pb + 1\<rparr>)"
        using dp(1) p(3) by (simp add: sshbuf_wf_def sane_iff)
      moreover have "h' ! q \<noteq> None" if "parent pb = Some q" for q
        using dp(3) [OF that] p(1) by (simp add: h'_def nth_append)
      moreover have "h' ! par = Some (pb\<lparr>refcount := refcount pb + 1\<rparr>)"
        using p(1) by (simp add: h'_def nth_append)
      moreover have "card (children h' par) = card (children h par) + 1" using ch fresh by simp
      ultimately show ?thesis using 2 p(1) dp(2,3) by (simp add: cell_ok_def)
    next
      case 3
      have keep: "h' ! q \<noteq> None" if "h ! q \<noteq> None" "q < length h" for q
        using that by (cases "q = par") (simp_all add: h'_def nth_append)
      show ?thesis
      proof (cases "h ! c")
        case None
        then show ?thesis using 3 heap_inv_dead [OF inv 3(1)] by (simp add: cell_ok_def h'_def nth_append)
      next
        case (Some bc)
        note d = heap_invD [OF inv 3(1) Some]
        have hc: "h' ! c = Some bc" using 3 Some by (simp add: h'_def nth_append)
        have "h' ! q \<noteq> None" if "parent bc = Some q" for q
          using d(3) [OF that] keep 3(1) by simp
        then show ?thesis using d hc 3 ch by (simp add: cell_ok_def)
      qed
    qed
  qed
  then show "heap_inv h' (own(length h := 1))"
    using inv by (simp add: heap_inv_def h'_def)
qed

lemma sshbuf_fromb_correct:
  assumes inv: "heap_inv h own" and a: "a < length h" "h ! a = Some b" "refcount b < SSHBUF_REFS_MAX"
  shows "\<exists>c h'. sshbuf_fromb True h a = (Some (length h), h') \<and> heap_inv h' (own(length h := 1)) \<and>
    h' = h[a := Some (b\<lparr>refcount := refcount b + 1\<rparr>)] @ [Some (c\<lparr>parent := Some a\<rparr>)] \<and>
    contents c = contents b \<and> readonly c \<and>
    mem_bytes (bmem c) = take (alloc c) (drop (off b) (mem_bytes (bmem b)))"
proof -
  note d = heap_invD [OF inv a(1,2)]
  have s: "sshbuf_check_sanity b = Inr ()" using d(1) by (simp add: sshbuf_wf_def sane_def)
  have len: "sshbuf_len b \<le> length (drop (off b) (mem_bytes (bmem b)))"
    using d(1) sshbuf_wf_bounds [OF d(1)] by simp
  have ptr: "sshbuf_ptr b = Some (off b)" using s by (simp add: sshbuf_ptr_def)
  have "sshbuf_len b \<le> SSHBUF_SIZE_MAX" using d(1) sshbuf_wf_bounds [OF d(1)] by simp
  then obtain c where c: "sshbuf_from True (Some (drop (off b) (mem_bytes (bmem b)))) (sshbuf_len b) = Some c"
    by (simp add: sshbuf_from_def)
  note cw = sshbuf_from_wf [OF c len]
  have c1: "refcount c = 1" using c by (auto simp: sshbuf_from_def split: if_splits)
  have "contents c = contents b"
    using cw(2) s by (simp add: contents_def sshbuf_len_def sane_def del: sshbuf_len_contents)
  moreover have "mem_bytes (bmem c) = take (alloc c) (drop (off b) (mem_bytes (bmem b)))"
    using c by (auto simp: sshbuf_from_def split: if_splits)
  moreover note at = sshbuf_set_parent_attach [OF inv cw(1) c1 a]
  moreover have "sshbuf_fromb True h a = (Some (length h),
      h[a := Some (b\<lparr>refcount := refcount b + 1\<rparr>)] @ [Some (c\<lparr>parent := Some a\<rparr>)])"
    using a s ptr c at(1) by (simp add: sshbuf_fromb_def heap_get_def heap_new_def)
  ultimately show ?thesis using cw(3) by blast
qed

lemma sshbuf_froms_correct:
  assumes inv: "heap_inv h own" and a: "a < length h" "h ! a = Some b" "refcount b < SSHBUF_REFS_MAX"
    and run: "sshbuf_froms ok h a = (Inr r, h')"
  shows "\<exists>c b' s. r = length h \<and> heap_inv h' (own(length h := 1)) \<and>
    contents b = wire_string s @ contents b' \<and> contents c = s \<and>
    h' = h[a := Some (b'\<lparr>refcount := refcount b + 1\<rparr>)] @ [Some (c\<lparr>parent := Some a\<rparr>)] \<and>
    sshbuf_wf b' \<and> same_header b b' \<and> same_data b b' \<and> readonly c \<and>
    mem_bytes (bmem c) = take (alloc c) (drop (off b + 4) (mem_bytes (bmem b)))"
proof -
  note d = heap_invD [OF inv a(1,2)]
  obtain p len where pk: "sshbuf_peek_string_direct b = Inr (p, len)"
    using run a by (auto simp: sshbuf_froms_def heap_get_def split: sum.splits)
  obtain s rest where ps: "parse_string (contents b) = Inr (s, rest)" "p = off b + 4" "len = length s"
    using pk sshbuf_peek_string_direct_parse(1) [OF d(1)] by (auto split: sum.splits)
  have rd: "take len (drop p (mem_bytes (bmem b))) = s" "length s + 4 \<le> length (contents b)"
      "rest = drop (length s + 4) (contents b)"
    using sshbuf_peek_string_direct_parse(2) [OF d(1) ps(1)] ps by (auto simp: sshbuf_read_def)
  obtain c where c: "sshbuf_from ok (Some (drop p (mem_bytes (bmem b)))) len = Some c"
    using run a pk by (auto simp: sshbuf_froms_def heap_get_def split: option.splits)
  have "len \<le> length (drop p (mem_bytes (bmem b)))"
    using rd(1) ps(3) by (metis length_take min.cobounded1)
  note cw = sshbuf_from_wf [OF c this]
  have c1: "refcount c = 1" using c by (auto simp: sshbuf_from_def split: if_splits)
  obtain b1 where b1: "sshbuf_consume b (len + 4) = (Inr (), b1)" "sshbuf_wf b1"
      "contents b1 = rest" "same_header b b1" "bmem b1 = bmem b"
    using sshbuf_consume_correct [OF d(1) rd(2)] rd(3) ps(3) by auto
  have "alloc b1 = alloc b" using b1(2,5) d(1) by (simp add: sshbuf_wf_def)
  then have sd: "same_data b b1" using b1(4,5) by (simp add: same_data_def same_header_def)
  have inv1: "heap_inv (h[a := Some b1]) own" using heap_inv_replace [OF inv a(1,2) b1(2,4)] .
  have "a < length (h[a := Some b1])" "h[a := Some b1] ! a = Some b1" "refcount b1 < SSHBUF_REFS_MAX"
    using a b1(4) by (auto simp: same_header_def)
  note at = sshbuf_set_parent_attach [OF inv1 cw(1) c1 this]
  have "contents b = wire_string s @ contents b1" using ps(1) b1(3) str.parse_sound by blast
  moreover have "contents c = s" using cw(2) rd(1) by simp
  moreover have "r = length h" "h' = h[a := Some (b1\<lparr>refcount := refcount b + 1\<rparr>)] @ [Some (c\<lparr>parent := Some a\<rparr>)]"
    using run a pk c b1 at(1)
    by (auto simp: sshbuf_froms_def heap_get_def heap_new_def list_update_append same_header_def)
  moreover have "heap_inv h' (own(length h := 1))"
    using at(2) calculation(4) b1(4) by (simp add: same_header_def)
  moreover have "mem_bytes (bmem c) = take (alloc c) (drop (off b + 4) (mem_bytes (bmem b)))"
    using c ps(2) by (auto simp: sshbuf_from_def split: if_splits)
  ultimately show ?thesis using b1(2,4) sd cw(3) by metis
qed

section \<open>Programs over the store\<close>

text \<open>One call of a program that follows the ownership discipline: it uses only buffers it holds a pointer
  to and releases each pointer once.\<close>

inductive client_step :: "allocator \<Rightarrow> heap \<times> (nat \<Rightarrow> nat) \<Rightarrow> heap \<times> (nat \<Rightarrow> nat) \<Rightarrow> bool"
  for A :: allocator where
  New: "sshbuf_new A True = Some b \<Longrightarrow>
     client_step A (h, own) (h @ [Some b], own(length h := 1))"
| Fromb: "0 < own a \<Longrightarrow> h ! a = Some b \<Longrightarrow> refcount b < SSHBUF_REFS_MAX \<Longrightarrow>
     sshbuf_fromb True h a = (Some r, h') \<Longrightarrow> client_step A (h, own) (h', own(r := 1))"
| Froms: "0 < own a \<Longrightarrow> h ! a = Some b \<Longrightarrow> refcount b < SSHBUF_REFS_MAX \<Longrightarrow>
     sshbuf_froms True h a = (Inr r, h') \<Longrightarrow> client_step A (h, own) (h', own(r := 1))"
| Put: "0 < own a \<Longrightarrow> h ! a = Some b \<Longrightarrow> sshbuf_put A b v = (res, b') \<Longrightarrow>
     client_step A (h, own) (h[a := Some b'], own)"
| Consume: "0 < own a \<Longrightarrow> h ! a = Some b \<Longrightarrow> sshbuf_consume b n = (res, b') \<Longrightarrow>
     client_step A (h, own) (h[a := Some b'], own)"
| Free: "0 < own a \<Longrightarrow> client_step A (h, own) (sshbuf_free h (Some a), own(a := own a - 1))"

text \<open>A child is read-only and its bytes are a slice of the current bytes of its parent.\<close>

definition alias_ok :: "heap \<Rightarrow> bool" where
  "alias_ok h \<longleftrightarrow> (\<forall>c b p pb. c < length h \<longrightarrow> h ! c = Some b \<longrightarrow> parent b = Some p \<longrightarrow> h ! p = Some pb \<longrightarrow>
     readonly b \<and> (\<exists>k. mem_bytes (bmem b) = take (alloc b) (drop k (mem_bytes (bmem pb)))))"

lemma sshbuf_free_survivor:
  "c < length h \<Longrightarrow> sshbuf_free h p ! c = Some b' \<Longrightarrow>
   \<exists>b. h ! c = Some b \<and> same_data b b'"
proof (induction h p arbitrary: b' rule: sshbuf_free.induct)
  case (1 h p)
  show ?case
  proof (cases "\<exists>q b. p = Some q \<and> heap_get h (Some q) = Some b \<and> sane b")
    case False
    then have "sshbuf_free h p = h" by (subst sshbuf_free.simps) (auto split: option.splits)
    then show ?thesis using "1.prems"(2) by simp
  next
    case True
    then obtain q b where q: "p = Some q" "heap_get h (Some q) = Some b" "sane b" by blast
    then have hq: "q < length h" "h ! q = Some b" by (auto simp: heap_get_def split: if_splits)
    let ?h1 = "h[q := Some (b\<lparr>refcount := refcount b - 1\<rparr>)]"
    have h1: "\<exists>b0. h ! c = Some b0 \<and> same_data b0 b1" if "?h1 ! c = Some b1" for b1
      using that hq by (cases "c = q") (auto simp: same_data_def)
    show ?thesis
    proof (cases "refcount b - 1 > 0")
      case gt: True
      then have "sshbuf_free h p = ?h1" using q by (subst sshbuf_free.simps) (simp add: Let_def)
      then show ?thesis using h1 "1.prems"(2) by simp
    next
      case le: False
      then have f: "sshbuf_free h p = (sshbuf_free ?h1 (parent b))[q := None]"
        using q by (subst sshbuf_free.simps) (simp add: Let_def)
      have "c \<noteq> q" using "1.prems"(1,2) f by auto
      then have "sshbuf_free ?h1 (parent b) ! c = Some b'" using "1.prems"(2) f by simp
      then have "\<exists>b1. ?h1 ! c = Some b1 \<and> same_data b1 b'"
        using "1.IH" [OF q(1,2) _ refl le] q(3) "1.prems"(1) by simp
      then show ?thesis using h1 unfolding same_data_def by metis
    qed
  qed
qed

lemma alias_ok_sub:
  assumes "alias_ok h" and "length h' = length h"
    and sub: "\<And>c b'. c < length h \<Longrightarrow> h' ! c = Some b' \<Longrightarrow> \<exists>b. h ! c = Some b \<and> same_data b b'"
    and ord: "ordered h"
  shows "alias_ok h'"
  unfolding alias_ok_def
proof (intro allI impI, goal_cases)
  case (1 c b' p pb')
  then obtain b where b: "c < length h" "h ! c = Some b" "same_data b b'" using sub assms(2) by auto
  then have "p < length h" using ord 1(3) unfolding ordered_def same_data_def by (metis less_trans)
  then obtain pb where "h ! p = Some pb" "same_data pb pb'" using sub 1(4) by blast
  then show ?case using assms(1) b 1(3) unfolding alias_ok_def same_data_def by metis
qed

lemma alias_ok_replace:
  assumes "alias_ok h" and "ordered h" and "a < length h" and "h ! a = Some b" and "same_data b b'"
  shows "alias_ok (h[a := Some b'])"
  using assms(1) _ _ assms(2)
proof (rule alias_ok_sub)
  show "\<exists>b0. h ! c = Some b0 \<and> same_data b0 b1" if "c < length h" "h[a := Some b'] ! c = Some b1" for c b1
    using that assms(3-5) by (cases "c = a") auto
qed simp

lemma alias_ok_attach:
  assumes al: "alias_ok h" and inv: "heap_inv h own" and p: "par < length h" "h ! par = Some pb"
    and b: "readonly b" "mem_bytes (bmem b) = take (alloc b) (drop k (mem_bytes (bmem pb)))"
  shows "alias_ok (h[par := Some (pb\<lparr>refcount := refcount pb + 1\<rparr>)] @ [Some (b\<lparr>parent := Some par\<rparr>)])"
proof -
  let ?h1 = "h[par := Some (pb\<lparr>refcount := refcount pb + 1\<rparr>)]"
  have al1: "alias_ok ?h1"
    by (rule alias_ok_replace [OF al heap_inv_ordered [OF inv] p]) (simp add: same_data_def)
  have ord: "ordered ?h1" using heap_inv_ordered [OF inv] heap_invD(3) [OF inv p]
    by (intro ordered_update) auto
  show ?thesis unfolding alias_ok_def
  proof (intro allI impI, goal_cases)
    case (1 c b1 q qb)
    show ?case
    proof (cases "c = length h")
      case True
      then have "b1 = b\<lparr>parent := Some par\<rparr>" "q = par" "qb = pb\<lparr>refcount := refcount pb + 1\<rparr>"
        using 1 p by (auto simp: nth_append)
      then show ?thesis using b by (intro conjI exI [of _ k]) simp_all
    next
      case False
      then have c: "c < length ?h1" "?h1 ! c = Some b1" using 1(1,2) by (auto simp: nth_append)
      then have "q < c" using ord 1(3) by (auto simp: ordered_def)
      then have "?h1 ! q = Some qb" using 1(4) c(1) by (simp add: nth_append)
      then show ?thesis using al1 c 1(3) unfolding alias_ok_def by blast
    qed
  qed
qed

definition store_ok :: "heap \<times> (nat \<Rightarrow> nat) \<Rightarrow> bool" where
  "store_ok st \<longleftrightarrow> heap_inv (fst st) (snd st) \<and> alias_ok (fst st)"

lemma sshbuf_put_shared: "sshbuf_wf b \<Longrightarrow> \<not> writable b \<Longrightarrow> sshbuf_put A b v = (Inl SSH_ERR_BUFFER_READ_ONLY, b)"
  by (auto simp: sshbuf_put_def sshbuf_reserve_def sshbuf_allocate_def sshbuf_check_reserve_def writable_def
      sshbuf_wf_def sane_def)

lemma store_ok_put:
  assumes ok: "store_ok (h, own)" and o: "0 < own a" and b: "h ! a = Some b"
    and run: "sshbuf_put A b v = (r, b')"
  shows "store_ok (h[a := Some b'], own)"
proof -
  have inv: "heap_inv h own" and al: "alias_ok h" using ok by (auto simp: store_ok_def)
  have a: "a < length h" using heap_inv_own [OF inv o] by blast
  note d = heap_invD [OF inv a b]
  have c: "sshbuf_wf b'" "same_header b b'" using sshbuf_put_correct [OF d(1) run] by auto
  have "alias_ok (h[a := Some b'])"
  proof (cases "writable b")
    case False
    then have "b' = b" using sshbuf_put_shared [OF d(1) False, of A v] run by simp
    then have "h[a := Some b'] = h" using b list_update_id [of h a] by simp
    then show ?thesis using al by simp
  next
    case True
    then have "refcount b = 1" using d(1) by (simp add: writable_def sshbuf_wf_def sane_iff)
    then have nc: "children h a = {}" using no_children_free [OF inv a b _ o] by blast
    have np: "parent b = None"
      using al a b True d(3) by (cases "parent b") (auto simp: alias_ok_def writable_def)
    show ?thesis unfolding alias_ok_def
    proof (intro allI impI, goal_cases)
      case (1 c cb p pb)
      have "c \<noteq> a" using 1 np c(2) a by (auto simp: same_header_def)
      moreover have "p \<noteq> a" using 1 nc calculation by (auto simp: children_def)
      ultimately show ?case using al 1 by (simp add: alias_ok_def)
    qed
  qed
  then show ?thesis using heap_inv_replace [OF inv a b c] by (simp add: store_ok_def)
qed

lemma store_ok_consume:
  assumes ok: "store_ok (h, own)" and o: "0 < own a" and b: "h ! a = Some b"
    and run: "sshbuf_consume b n = (r, b')"
  shows "store_ok (h[a := Some b'], own)"
proof -
  have inv: "heap_inv h own" and al: "alias_ok h" using ok by (auto simp: store_ok_def)
  have a: "a < length h" using heap_inv_own [OF inv o] by blast
  note d = heap_invD [OF inv a b]
  have c: "sshbuf_wf b'" "same_header b b'" "bmem b' = bmem b"
    using sshbuf_consume_correct [OF d(1), of n] sshbuf_consume_incomplete [OF d(1), of n] run d(1)
    by (cases "n \<le> length (contents b)"; auto simp del: length_contents)+
  then have "same_data b b'" using d(1) by (simp add: same_data_def same_header_def sshbuf_wf_def)
  then show ?thesis
    using heap_inv_replace [OF inv a b c(1,2)] alias_ok_replace [OF al heap_inv_ordered [OF inv] a b]
    by (simp add: store_ok_def)
qed

lemma store_ok_new:
  assumes ok: "store_ok (h, own)" and b: "sshbuf_new A True = Some b"
  shows "store_ok (h @ [Some b], own(length h := 1))"
proof -
  have inv: "heap_inv h own" and al: "alias_ok h" using ok by (auto simp: store_ok_def)
  have w: "sshbuf_wf b" "refcount b = 1" "parent b = None"
    using sshbuf_new_wf [OF b] b by (auto simp: sshbuf_new_def split: option.splits if_splits)
  have ch: "children (h @ [Some b]) c = children h c" for c
    using w(3) by (auto simp: children_def nth_append less_Suc_eq)
  have last: "children h (length h) = {}"
    using heap_invD(3) [OF inv] by (fastforce simp: children_def)
  have "cell_ok (h @ [Some b]) (own(length h := 1)) c" if "c < Suc (length h)" for c
  proof (cases "c = length h")
    case True
    then show ?thesis using w ch last by (simp add: cell_ok_def nth_append)
  next
    case False
    then have c: "c < length h" using that by simp
    then have "cell_ok h own c" using inv by (simp add: heap_inv_def)
    then show ?thesis using c ch by (auto simp: cell_ok_def nth_append split: option.splits)
  qed
  then have "heap_inv (h @ [Some b]) (own(length h := 1))" using inv by (simp add: heap_inv_def)
  moreover have "alias_ok (h @ [Some b])" unfolding alias_ok_def
  proof (intro allI impI, goal_cases)
    case (1 c cb p pb)
    then have c: "c < length h" "h ! c = Some cb" using w(3) by (auto simp: nth_append split: if_splits)
    then have "p < c" using heap_invD(3) [OF inv] 1(3) by blast
    then show ?case using al c 1(3,4) by (simp add: alias_ok_def nth_append)
  qed
  ultimately show ?thesis by (simp add: store_ok_def)
qed

lemma store_ok_fromb:
  assumes ok: "store_ok (h, own)" and o: "0 < own a" and b: "h ! a = Some b" "refcount b < SSHBUF_REFS_MAX"
    and run: "sshbuf_fromb True h a = (Some r, h')"
  shows "store_ok (h', own(r := 1))"
proof -
  have inv: "heap_inv h own" and al: "alias_ok h" using ok by (auto simp: store_ok_def)
  have a: "a < length h" using heap_inv_own [OF inv o] by blast
  then show ?thesis
    using sshbuf_fromb_correct [OF inv a b] alias_ok_attach [OF al inv a b(1)] run
    by (auto simp: store_ok_def)
qed

lemma store_ok_froms:
  assumes ok: "store_ok (h, own)" and o: "0 < own a" and b: "h ! a = Some b" "refcount b < SSHBUF_REFS_MAX"
    and run: "sshbuf_froms True h a = (Inr r, h')"
  shows "store_ok (h', own(r := 1))"
proof -
  have inv: "heap_inv h own" and al: "alias_ok h" using ok by (auto simp: store_ok_def)
  have a: "a < length h" using heap_inv_own [OF inv o] by blast
  obtain c b' where c: "r = length h" "heap_inv h' (own(length h := 1))"
      "h' = h[a := Some (b'\<lparr>refcount := refcount b + 1\<rparr>)] @ [Some (c\<lparr>parent := Some a\<rparr>)]"
      "sshbuf_wf b'" "same_header b b'" "same_data b b'" "readonly c"
      "mem_bytes (bmem c) = take (alloc c) (drop (off b + 4) (mem_bytes (bmem b)))"
    using sshbuf_froms_correct [OF inv a b run] by blast
  have inv1: "heap_inv (h[a := Some b']) own" using heap_inv_replace [OF inv a b(1) c(4,5)] .
  have al1: "alias_ok (h[a := Some b'])"
    using alias_ok_replace [OF al heap_inv_ordered [OF inv] a b(1) c(6)] .
  have "alias_ok (h[a := Some b', a := Some (b'\<lparr>refcount := refcount b' + 1\<rparr>)] @ [Some (c\<lparr>parent := Some a\<rparr>)])"
    by (rule alias_ok_attach [OF al1 inv1 _ _ c(7), where k = "off b + 4"])
      (use a c(6,8) in \<open>simp_all add: same_data_def\<close>)
  moreover have "refcount b' = refcount b" using c(5) by (simp add: same_header_def)
  ultimately have "alias_ok h'" using c(3) by simp
  then show ?thesis using c(1,2) by (simp add: store_ok_def)
qed

lemma client_step_ok: "client_step A st st' \<Longrightarrow> store_ok st \<Longrightarrow> store_ok st'"
proof (induction rule: client_step.induct)
  case (Free own a h)
  then have inv: "heap_inv h own" and al: "alias_ok h" by (auto simp: store_ok_def)
  have "alias_ok (sshbuf_free h (Some a))"
    by (rule alias_ok_sub [OF al _ sshbuf_free_survivor heap_inv_ordered [OF inv]]) simp_all
  then show ?case using sshbuf_free_inv [OF inv Free(1)] by (simp only: store_ok_def fst_conv snd_conv simp_thms)
qed (blast intro: store_ok_new store_ok_fromb store_ok_froms store_ok_put store_ok_consume)+

definition empty_store :: "heap \<times> (nat \<Rightarrow> nat)" where
  "empty_store = ([], \<lambda>_. 0)"

lemma client_reach_ok: "(client_step A)\<^sup>*\<^sup>* empty_store st \<Longrightarrow> store_ok st"
proof (induction rule: rtranclp_induct)
  case base
  then show ?case by (simp add: store_ok_def empty_store_def heap_inv_def alias_ok_def)
next
  case (step y z)
  then show ?case using client_step_ok by blast
qed

text \<open>Without a pointer to a buffer no buffer is left: the newest live one would have a newer child.\<close>

lemma heap_inv_no_owner:
  assumes inv: "heap_inv h (\<lambda>_. 0)" shows "c < length h \<Longrightarrow> h ! c = None"
proof (induction "length h - c" arbitrary: c rule: less_induct)
  case less
  show ?case
  proof (cases "h ! c")
    case (Some b)
    note d = heap_invD [OF inv less.prems Some]
    have "card (children h c) \<ge> 1" using d(1,2) by (simp add: sshbuf_wf_def sane_iff)
    then have "children h c \<noteq> {}" by (metis card.empty not_one_le_zero)
    then obtain k kb where k: "k < length h" "h ! k = Some kb" "parent kb = Some c"
      by (auto simp: children_def)
    then have "c < k" using heap_invD(3) [OF inv] by blast
    then have "h ! k = None" using k(1) by (intro less.hyps) auto
    then show ?thesis using k(2) by simp
  qed
qed

lemma sshbuf_fromb_then_free:
  assumes inv: "heap_inv h own" and a: "0 < own a" "h ! a = Some b" "refcount b < SSHBUF_REFS_MAX"
  shows "\<exists>c h1. sshbuf_fromb True h a = (Some (length h), h1) \<and> contents c = contents b \<and>
    sshbuf_free h1 (Some a) = h @ [Some (c\<lparr>parent := Some a\<rparr>)]"
proof -
  have l: "a < length h" using heap_inv_own [OF inv a(1)] by blast
  obtain c h1 where c: "sshbuf_fromb True h a = (Some (length h), h1)" "contents c = contents b"
      "h1 = h[a := Some (b\<lparr>refcount := refcount b + 1\<rparr>)] @ [Some (c\<lparr>parent := Some a\<rparr>)]"
    using sshbuf_fromb_correct [OF inv l a(2,3)] by blast
  have wf: "sshbuf_wf b" using heap_invD(1) [OF inv l a(2)] .
  then have "sane (b\<lparr>refcount := refcount b + 1\<rparr>)" and r: "1 \<le> refcount b"
    using a(3) by (simp_all add: sane_iff sshbuf_wf_def)
  then have "sshbuf_free h1 (Some a) = h1[a := Some b]"
    using l by (subst sshbuf_free.simps) (simp add: heap_get_def c(3) nth_append Let_def)
  also have "h1[a := Some b] = h[a := Some b] @ [Some (c\<lparr>parent := Some a\<rparr>)]"
    using l by (simp add: c(3) list_update_append)
  also have "h[a := Some b] = h" using a(2) list_update_id [of h a] by simp
  finally show ?thesis using c(1,2) by blast
qed

section \<open>Properties\<close>

definition ex_new :: sshbuf where
  "ex_new = the (sshbuf_new ex_alloc True)"

definition ex_own :: "nat \<Rightarrow> nat" where
  "ex_own = (\<lambda>_. 0)(0 := 1)"

lemma ex_own_0 [simp]: "ex_own 0 = 1"
  by (simp add: ex_own_def)

lemma ex_new: "sshbuf_new ex_alloc True = Some ex_new" "refcount ex_new = 1" "parent ex_new = None"
  "contents ex_new = []"
  by (simp_all add: ex_new_def sshbuf_new_def calloc_def ex_alloc_def contents_def)

lemma ex_new_reach: "(client_step ex_alloc)\<^sup>*\<^sup>* empty_store ([Some ex_new], ex_own)"
  using client_step.New [OF ex_new(1), of "[]"] by (simp add: empty_store_def ex_own_def r_into_rtranclp)

lemma ex_new_ok: "heap_inv [Some ex_new] ex_own"
  using client_reach_ok [OF ex_new_reach] by (simp add: store_ok_def)

text \<open>
  C6. No use after free and no stale alias: in every state a program that releases each of its pointers once
  can reach, every buffer it still holds a pointer to is live and well-formed, and every live child
  buffer is read-only, has a live parent, and still shows a slice of the parent's current bytes, so
  no append to the parent has moved or changed them.
\<close>

theorem store_no_dangling:
  assumes "(client_step A)\<^sup>*\<^sup>* empty_store (h, own)"
  shows "(\<forall>a. 0 < own a \<longrightarrow> (\<exists>b. a < length h \<and> h ! a = Some b \<and> sshbuf_wf b)) \<and>
    (\<forall>c b p. c < length h \<longrightarrow> h ! c = Some b \<longrightarrow> parent b = Some p \<longrightarrow>
      (\<exists>pb k. h ! p = Some pb \<and> sshbuf_wf pb \<and> readonly b \<and>
        mem_bytes (bmem b) = take (alloc b) (drop k (mem_bytes (bmem pb)))))"
proof -
  have inv: "heap_inv h own" and al: "alias_ok h"
    using client_reach_ok [OF assms] by (auto simp: store_ok_def)
  have "\<exists>pb k. h ! p = Some pb \<and> sshbuf_wf pb \<and> readonly b \<and>
        mem_bytes (bmem b) = take (alloc b) (drop k (mem_bytes (bmem pb)))"
    if c: "c < length h" "h ! c = Some b" "parent b = Some p" for c b p
  proof -
    obtain pb where pb: "p < c" "h ! p = Some pb" using heap_invD(3) [OF inv c] by blast
    then have "sshbuf_wf pb" using heap_invD(1) [OF inv _ pb(2)] c(1) by simp
    then show ?thesis using al c pb unfolding alias_ok_def by blast
  qed
  then show ?thesis using heap_inv_own [OF inv] heap_invD(1) [OF inv] by blast
qed

theorem store_no_dangling_witness:
  "\<exists>h pb b k. (client_step ex_alloc)\<^sup>*\<^sup>* empty_store (h, ex_own(1 := 1)) \<and>
     length h = 2 \<and> h ! 0 = Some pb \<and> h ! 1 = Some b \<and> parent b = Some 0 \<and>
     mem_bytes (bmem b) = take (alloc b) (drop k (mem_bytes (bmem pb)))"
proof -
  obtain c h' where c: "sshbuf_fromb True [Some ex_new] 0 = (Some 1, h')"
      "h' = [Some (ex_new\<lparr>refcount := 2\<rparr>), Some (c\<lparr>parent := Some 0\<rparr>)]"
    using sshbuf_fromb_correct [OF ex_new_ok, of 0 ex_new] by (auto simp: ex_new sshbuf_consts)
  have "client_step ex_alloc ([Some ex_new], ex_own) (h', ex_own(1 := 1))"
    by (rule client_step.Fromb [where a = 0 and b = ex_new, OF _ _ _ c(1)]) (simp_all add: ex_new sshbuf_consts)
  then have r: "(client_step ex_alloc)\<^sup>*\<^sup>* empty_store (h', ex_own(1 := 1))"
    using ex_new_reach by (rule rtranclp.rtrancl_into_rtrancl [rotated])
  note d = store_no_dangling [OF r, THEN conjunct2, rule_format, of 1 "c\<lparr>parent := Some 0\<rparr>" 0]
  then obtain k where k: "mem_bytes (bmem c) = take (alloc c) (drop k (mem_bytes (bmem ex_new)))"
    by (auto simp: c(2))
  show ?thesis
    by (rule exI [of _ h'], rule exI [of _ "ex_new\<lparr>refcount := 2\<rparr>"], rule exI [of _ "c\<lparr>parent := Some 0\<rparr>"],
        rule exI [of _ k]) (use r k in \<open>simp add: c(2)\<close>)
qed

text \<open>
  C14. No leak: when such a program has released every pointer it was given, no buffer is left
  allocated, parents and children included, whatever the order of the releases.
\<close>

theorem store_no_leak:
  assumes "(client_step A)\<^sup>*\<^sup>* empty_store (h, own)" and "\<forall>a. own a = 0"
  shows "\<forall>c < length h. h ! c = None"
proof -
  have "own = (\<lambda>_. 0)" using assms(2) by blast
  then show ?thesis
    using heap_inv_no_owner [of h] client_reach_ok [OF assms(1)] by (simp add: store_ok_def)
qed

theorem store_no_leak_witness:
  "(client_step ex_alloc)\<^sup>*\<^sup>* empty_store (sshbuf_free [Some ex_new] (Some 0), \<lambda>_. 0) \<and>
   sshbuf_free [Some ex_new] (Some 0) ! 0 = None"
proof -
  have "ex_own(0 := ex_own 0 - 1) = (\<lambda>_. 0)" by (intro ext) (simp add: ex_own_def)
  moreover have "client_step ex_alloc ([Some ex_new], ex_own)
      (sshbuf_free [Some ex_new] (Some 0), ex_own(0 := ex_own 0 - 1))"
    by (rule client_step.Free) simp
  ultimately have "client_step ex_alloc ([Some ex_new], ex_own) (sshbuf_free [Some ex_new] (Some 0), \<lambda>_. 0)"
    by (simp only:)
  then have r: "(client_step ex_alloc)\<^sup>*\<^sup>* empty_store (sshbuf_free [Some ex_new] (Some 0), \<lambda>_. 0)"
    using ex_new_reach by (rule rtranclp.rtrancl_into_rtrancl [rotated])
  show ?thesis using r store_no_leak [OF r] by simp
qed

text \<open>
  C23. The reference count protects a parent: after \<^verbatim>\<open>sshbuf_fromb\<close>, freeing the parent first leaves the
  store exactly as before the call plus the child, which still reads the parent's contents; one
  more \<^verbatim>\<open>sshbuf_free\<close> of each releases both.
\<close>

theorem sshbuf_fromb_survives_parent:
  assumes "heap_inv h own" and "0 < own a" and "h ! a = Some b" and "refcount b < SSHBUF_REFS_MAX"
  shows "\<exists>c h1. sshbuf_fromb True h a = (Some (length h), h1) \<and>
    sshbuf_free h1 (Some a) = h @ [Some c] \<and> parent c = Some a \<and> contents c = contents b"
proof -
  have "contents (c\<lparr>parent := Some a\<rparr>) = contents c" for c by (simp add: contents_def)
  then show ?thesis using sshbuf_fromb_then_free [OF assms] by fastforce
qed

theorem sshbuf_fromb_survives_parent_witness:
  "\<exists>c h1. sshbuf_fromb True [Some ex_new] 0 = (Some 1, h1) \<and>
    sshbuf_free h1 (Some 0) = [Some ex_new, Some c] \<and> contents c = []"
  using sshbuf_fromb_survives_parent [OF ex_new_ok, of 0 ex_new] ex_new by (auto simp: sshbuf_consts)

end
