(* ===== verification/Match.thy ===== *)
theory Match
  imports Pkix_Prelude "HOL-Library.Sublist"
begin

text \<open>
  The wildcard and list matching of \<^verbatim>\<open>match.c\<close>. A C string is the list of its characters before the
  terminating NUL. \<^verbatim>\<open>match_pattern\<close> is compared with the language of the pattern, the list functions with
  their reading over lists of comma-separated entries.
\<close>

section \<open>Wildcard patterns\<close>

text \<open>The two \<^verbatim>\<open>for (; *s; s++)\<close> loops of \<^verbatim>\<open>match_pattern\<close> are \<open>scan_char\<close> and \<open>scan_all\<close>.\<close>

function (sequential) match_pattern :: "string \<Rightarrow> string \<Rightarrow> bool"
  and scan_char :: "string \<Rightarrow> char \<Rightarrow> string \<Rightarrow> bool"
  and scan_all :: "string \<Rightarrow> string \<Rightarrow> bool" where
  "match_pattern s [] = (s = [])"
| "match_pattern s (p # ps) =
    (if p = CHR ''*'' then
       (case ps of
          [] \<Rightarrow> True
        | q # qs \<Rightarrow> if q \<noteq> CHR ''?'' \<and> q \<noteq> CHR ''*'' then scan_char s q qs else scan_all s ps)
     else (case s of
          [] \<Rightarrow> False
        | c # cs \<Rightarrow> if p \<noteq> CHR ''?'' \<and> p \<noteq> c then False else match_pattern cs ps))"
| "scan_char [] q qs = False"
| "scan_char (c # cs) q qs = (if c = q \<and> match_pattern cs qs then True else scan_char cs q qs)"
| "scan_all [] ps = False"
| "scan_all (c # cs) ps = (if match_pattern (c # cs) ps then True else scan_all cs ps)"
  by pat_completeness auto
termination
  by (relation "measure (\<lambda>x. case x of Inl (s, p) \<Rightarrow> 2 * (length s + length p)
      | Inr (Inl (s, q, qs)) \<Rightarrow> 2 * (length s + length qs) + 1
      | Inr (Inr (s, ps)) \<Rightarrow> 2 * (length s + length ps) + 1)") auto

section \<open>Pattern lists\<close>

definition isupper :: "char \<Rightarrow> bool" where
  "isupper c \<longleftrightarrow> 65 \<le> (of_char c :: nat) \<and> (of_char c :: nat) \<le> 90"

definition tolower :: "char \<Rightarrow> char" where
  "tolower c = (if isupper c then char_of ((of_char c :: nat) + 32) else c)"

definition lowercase :: "string \<Rightarrow> string" where
  "lowercase s = map tolower s"

definition SUB_SIZE :: nat where "SUB_SIZE = 1024"

text \<open>Copying one subpattern into the array of \<open>SUB_SIZE\<close> bytes: the copy and the rest of the pattern.\<close>

fun extract_sub :: "bool \<Rightarrow> nat \<Rightarrow> string \<Rightarrow> string \<times> string" where
  "extract_sub dolower subi [] = ([], [])"
| "extract_sub dolower subi (c # cs) =
    (if subi < SUB_SIZE - 1 \<and> c \<noteq> CHR '',''
     then (let (sub, rest) = extract_sub dolower (subi + 1) cs in
       ((if dolower \<and> isupper c then tolower c else c) # sub, rest))
     else ([], c # cs))"

lemma extract_sub_rest: "length (snd (extract_sub d n cs)) \<le> length cs"
  by (induction d n cs rule: extract_sub.induct) (auto simp: Let_def split: prod.splits)

definition negation :: "string \<Rightarrow> bool \<times> string" where
  "negation p = (case p of [] \<Rightarrow> (False, []) | c # cs \<Rightarrow> if c = CHR ''!'' then (True, cs) else (False, p))"

definition skip_comma :: "string \<Rightarrow> string" where
  "skip_comma p = (case p of [] \<Rightarrow> [] | c # cs \<Rightarrow> if c = CHR '','' then cs else p)"

lemma skip_comma_length: "length (skip_comma p) \<le> length p"
  by (simp add: skip_comma_def split: list.split)

lemma extract_sub_progress:
  assumes "fst (extract_sub d 0 p) = []" and "p \<noteq> []"
  shows "length (skip_comma (snd (extract_sub d 0 p))) < length p"
  using assms by (cases p) (auto simp: skip_comma_def SUB_SIZE_def Let_def split: prod.splits if_splits)

lemma extract_sub_append:
  "length (fst (extract_sub d n p)) + length (snd (extract_sub d n p)) = length p"
  by (induction d n p rule: extract_sub.induct) (auto simp: Let_def split: prod.splits)

lemma pattern_list_progress:
  assumes "p \<noteq> []" and "(neg, p1) = negation p" and "(sub, p2) = extract_sub d 0 p1"
  shows "length (skip_comma p2) < length p"
proof (cases "neg")
  case True
  then have "length p = Suc (length p1)"
    using assms(1,2) by (auto simp: negation_def split: list.splits if_splits)
  then show ?thesis
    using extract_sub_rest [of d 0 p1] skip_comma_length [of p2] assms(3) by (metis le_imp_less_Suc order_trans snd_conv)
next
  case False
  then have p1: "p1 = p" using assms(1,2) by (auto simp: negation_def split: list.splits if_splits)
  show ?thesis
  proof (cases "sub = []")
    case True
    then show ?thesis using extract_sub_progress [of d p] assms(1,3) p1 by (metis fst_conv snd_conv)
  next
    case nonempty: False
    have "length sub + length p2 = length p"
      using extract_sub_append [of d 0 p] assms(3) p1 by (metis fst_conv snd_conv)
    moreover have "0 < length sub" using nonempty by simp
    ultimately show ?thesis using skip_comma_length [of p2] by linarith
  qed
qed

function pattern_list_loop :: "string \<Rightarrow> bool \<Rightarrow> string \<Rightarrow> int \<Rightarrow> int" where
  "pattern_list_loop str dolower p got_positive =
    (if p = [] then got_positive
     else let (negated, p1) = negation p;
              (sub, p2) = extract_sub dolower 0 p1
       in if length sub \<ge> SUB_SIZE - 1 then 0
          else if match_pattern str sub
          then (if negated then -1 else pattern_list_loop str dolower (skip_comma p2) 1)
          else pattern_list_loop str dolower (skip_comma p2) got_positive)"
  by pat_completeness auto
termination
  by (relation "measure (\<lambda>(str, d, p, g). length p)") (auto dest: pattern_list_progress)

declare pattern_list_loop.simps [simp del]

text \<open>\<^verbatim>\<open>len\<close> is a 32-bit \<^verbatim>\<open>u_int\<close>.\<close>

definition match_pattern_list :: "string \<Rightarrow> string \<Rightarrow> bool \<Rightarrow> int" where
  "match_pattern_list str pattern dolower =
     pattern_list_loop str dolower (take (length pattern mod 2 ^ 32) pattern) 0"

definition match_usergroup_pattern_list :: "string \<Rightarrow> string \<Rightarrow> int" where
  "match_usergroup_pattern_list str pattern = match_pattern_list str pattern False"

definition match_hostname :: "string \<Rightarrow> string \<Rightarrow> int" where
  "match_hostname host pattern = match_pattern_list (lowercase host) pattern True"

section \<open>Comma-separated lists\<close>

text \<open>\<^verbatim>\<open>strsep(&sp, ",")\<close>: the token, \<open>None\<close> for NULL, and the new value of \<^verbatim>\<open>sp\<close>.\<close>

definition strsep :: "string option \<Rightarrow> string option \<times> string option" where
  "strsep sp = (case sp of None \<Rightarrow> (None, None)
     | Some s \<Rightarrow> (Some (takeWhile (\<lambda>c. c \<noteq> CHR '','') s),
         (case dropWhile (\<lambda>c. c \<noteq> CHR '','') s of [] \<Rightarrow> None | _ # r \<Rightarrow> Some r)))"

definition sep_size :: "string option \<Rightarrow> nat" where
  "sep_size sp = (case sp of None \<Rightarrow> 0 | Some s \<Rightarrow> Suc (length s))"

lemma strsep_size: "strsep sp = (Some p, sp') \<Longrightarrow> sep_size sp' < sep_size sp"
  using length_dropWhile_le [of "\<lambda>c. c \<noteq> CHR '',''" "the sp"]
  by (auto simp: strsep_def sep_size_def split: option.splits list.splits)

definition MAX_PROP :: nat where "MAX_PROP = 40"

text \<open>The loop that fills \<^verbatim>\<open>sproposals\<close>: it stops at NULL, at an empty entry, and when the array is full.\<close>

function server_props :: "string option \<Rightarrow> nat \<Rightarrow> string list" where
  "server_props sp i =
    (case strsep sp of
       (None, _) \<Rightarrow> []
     | (Some p, sp') \<Rightarrow> if p = [] then [] else if i < MAX_PROP then p # server_props sp' (i + 1) else [])"
  by pat_completeness auto
termination
  by (relation "measure (\<lambda>(sp, i). sep_size sp)") (auto dest: strsep_size [OF sym])

text \<open>The loop over the client's entries. \<^verbatim>\<open>*next\<close> is read from the copy \<^verbatim>\<open>c\<close>, in which \<^verbatim>\<open>strsep\<close> has
  overwritten the commas with NUL: \<^verbatim>\<open>strlen(c)\<close> is the length of the first entry. \<^verbatim>\<open>cp - c\<close> is the offset
  of what is left.\<close>

definition next_pos :: "string \<Rightarrow> string option \<Rightarrow> nat" where
  "next_pos client cp = (case cp of
     None \<Rightarrow> length (takeWhile (\<lambda>c. c \<noteq> CHR '','') client) mod 2 ^ 32
   | Some r \<Rightarrow> (length client - length r) mod 2 ^ 32)"

function client_loop :: "string \<Rightarrow> string list \<Rightarrow> string option \<Rightarrow> string option \<times> nat" where
  "client_loop client props cp =
    (case strsep cp of
       (None, _) \<Rightarrow> (None, next_pos client None)
     | (Some p, cp') \<Rightarrow>
         if p = [] then (None, next_pos client None)
         else if p \<in> set props then (Some p, next_pos client cp')
         else client_loop client props cp')"
  by pat_completeness auto
termination
  by (relation "measure (\<lambda>(c, ps, cp). sep_size cp)") (auto dest: strsep_size [OF sym])

declare server_props.simps [simp del] client_loop.simps [simp del]

definition match_list :: "string \<Rightarrow> string \<Rightarrow> string option \<times> nat" where
  "match_list client server = client_loop client (server_props (Some server) 0) (Some client)"

text \<open>\<^verbatim>\<open>strlcat(dst, src, dsize)\<close> on a destination whose string is shorter than \<open>dsize\<close>.\<close>

definition strlcat :: "string \<Rightarrow> string \<Rightarrow> nat \<Rightarrow> string" where
  "strlcat dst src dsize = dst @ take (dsize - 1 - length dst) src"

function filter_loop :: "string \<Rightarrow> bool \<Rightarrow> nat \<Rightarrow> string option \<Rightarrow> string \<Rightarrow> string" where
  "filter_loop filt blacklist len tmp fix_prop =
    (case strsep tmp of
       (None, _) \<Rightarrow> fix_prop
     | (Some cp, tmp') \<Rightarrow>
        let r = match_pattern_list cp filt False in
        filter_loop filt blacklist len tmp'
          (if (blacklist \<and> r \<noteq> 1) \<or> (\<not> blacklist \<and> r = 1)
           then strlcat (if fix_prop \<noteq> [] then strlcat fix_prop '','' len else fix_prop) cp len
           else fix_prop))"
  by pat_completeness auto
termination
  by (relation "measure (\<lambda>(f, b, l, tmp, x). sep_size tmp)") (auto dest: strsep_size [OF sym])

declare filter_loop.simps [simp del]

text \<open>\<open>malloc\<close> and \<open>strdup\<close> say whether the two allocations succeed.\<close>

definition filter_list :: "bool \<Rightarrow> bool \<Rightarrow> string \<Rightarrow> string \<Rightarrow> bool \<Rightarrow> string option" where
  "filter_list malloc strdup proposal filt blacklist =
    (let len = length proposal + 1 in
     if \<not> malloc \<or> \<not> strdup then None
     else Some (filter_loop filt blacklist len (Some proposal) []))"

definition match_filter_blacklist :: "bool \<Rightarrow> bool \<Rightarrow> string \<Rightarrow> string \<Rightarrow> string option" where
  "match_filter_blacklist m d proposal filt = filter_list m d proposal filt True"

definition match_filter_whitelist :: "bool \<Rightarrow> bool \<Rightarrow> string \<Rightarrow> string \<Rightarrow> string option" where
  "match_filter_whitelist m d proposal filt = filter_list m d proposal filt False"

section \<open>The language of a pattern\<close>

fun glob_lang :: "string \<Rightarrow> string set" where
  "glob_lang [] = {[]}"
| "glob_lang (p # ps) =
    (if p = CHR ''*'' then {u @ v |u v. v \<in> glob_lang ps}
     else if p = CHR ''?'' then {c # v |c v. v \<in> glob_lang ps}
     else {p # v |v. v \<in> glob_lang ps})"

lemma glob_lang_nil: "[] \<in> glob_lang p \<longleftrightarrow> set p \<subseteq> {CHR ''*''}"
  by (induction p) auto

lemma scan_all_iff:
  "scan_all s ps \<longleftrightarrow> (\<exists>u v. s = u @ v \<and> v \<noteq> [] \<and> match_pattern v ps)"
proof (induction s)
  case (Cons c cs)
  show ?case
  proof
    assume "scan_all (c # cs) ps"
    then consider "match_pattern (c # cs) ps" | "scan_all cs ps" by (auto split: if_splits)
    then show "\<exists>u v. c # cs = u @ v \<and> v \<noteq> [] \<and> match_pattern v ps"
      using Cons by cases (blast, metis append_Cons)
  next
    assume "\<exists>u v. c # cs = u @ v \<and> v \<noteq> [] \<and> match_pattern v ps"
    then obtain u v where "c # cs = u @ v" "v \<noteq> []" "match_pattern v ps" by blast
    then show "scan_all (c # cs) ps" using Cons by (cases u) auto
  qed
qed simp

text \<open>The loop for a known next character only skips positions where the other loop would fail.\<close>

lemma scan_char_scan_all:
  "q \<noteq> CHR ''?'' \<Longrightarrow> q \<noteq> CHR ''*'' \<Longrightarrow> scan_char s q qs = scan_all s (q # qs)"
  by (induction s) auto

lemma match_pattern_star:
  "ps \<noteq> [] \<Longrightarrow> match_pattern s (CHR ''*'' # ps) \<longleftrightarrow> (\<exists>u v. s = u @ v \<and> v \<noteq> [] \<and> match_pattern v ps)"
  by (cases ps) (simp_all add: scan_char_scan_all scan_all_iff)

lemma match_pattern_double_star_end:
  "match_pattern s (r @ ''**'') \<longleftrightarrow> s \<in> glob_lang (r @ ''?*'')"
proof (induction r arbitrary: s)
  case Nil
  have "match_pattern s ''**'' \<longleftrightarrow> (\<exists>u v. s = u @ v \<and> v \<noteq> [] \<and> match_pattern v ''*'')"
    by (rule match_pattern_star) simp
  also have "\<dots> \<longleftrightarrow> s \<noteq> []" by (cases s) (simp, fastforce)
  finally show ?case by (cases s) auto
next
  case (Cons p r)
  show ?case
  proof (cases "p = CHR ''*''")
    case True
    have "[] \<notin> glob_lang (r @ ''?*'')" by (simp add: glob_lang_nil)
    then show ?thesis using True Cons.IH
      by (simp add: match_pattern_star del: match_pattern.simps(2)) metis
  next
    case False
    then show ?thesis using Cons.IH by (cases s) auto
  qed
qed

lemma match_pattern_no_double_star_end:
  "\<not> suffix ''**'' p \<Longrightarrow> match_pattern s p \<longleftrightarrow> s \<in> glob_lang p"
proof (induction p arbitrary: s)
  case (Cons p ps)
  have nd: "\<not> suffix ''**'' ps" using Cons.prems suffix_ConsI [of "''**''" ps p] by argo
  consider "p \<noteq> CHR ''*''" | "p = CHR ''*''" "ps = []" | "p = CHR ''*''" "ps \<noteq> []" by blast
  then show ?case
  proof cases
    case 1
    then show ?thesis using Cons.IH [OF nd] by (cases s) auto
  next
    case 2
    then show ?thesis by simp
  next
    case 3
    have "[] \<notin> glob_lang ps"
    proof
      assume "[] \<in> glob_lang ps"
      then have stars: "set ps \<subseteq> {CHR ''*''}" by (simp add: glob_lang_nil)
      obtain qs q where qs: "ps = qs @ [q]" using 3(2) by (cases ps rule: rev_cases) auto
      show False
      proof (cases qs rule: rev_cases)
        case Nil
        then have "p # ps = ''**''" using 3(1) qs stars by simp
        then show False using Cons.prems by simp
      next
        case (snoc rs r)
        then have "ps = rs @ ''**''" using qs stars by simp
        then show False using nd by (simp add: suffix_def)
      qed
    qed
    then have "(\<exists>u v. s = u @ v \<and> v \<noteq> [] \<and> v \<in> glob_lang ps) \<longleftrightarrow> (\<exists>u v. s = u @ v \<and> v \<in> glob_lang ps)"
      by blast
    moreover have "match_pattern s (p # ps) \<longleftrightarrow> (\<exists>u v. s = u @ v \<and> v \<noteq> [] \<and> v \<in> glob_lang ps)"
      using match_pattern_star [OF 3(2)] 3(1) Cons.IH [OF nd] by (simp only:)
    ultimately show ?thesis using 3(1) by simp
  qed
qed simp

section \<open>Lists of entries\<close>

fun comma_split :: "string \<Rightarrow> string list" where
  "comma_split [] = [[]]"
| "comma_split (c # cs) =
    (if c = CHR '','' then [] # comma_split cs
     else (case comma_split cs of [] \<Rightarrow> [[c]] | t # ts \<Rightarrow> (c # t) # ts))"

fun comma_join :: "string list \<Rightarrow> string" where
  "comma_join [] = []"
| "comma_join [x] = x"
| "comma_join (x # y # xs) = x @ '','' @ comma_join (y # xs)"

lemma comma_split_not_Nil [simp]: "comma_split s \<noteq> []"
  by (induction s) (auto split: list.splits)

lemma comma_split_rec:
  "comma_split s = takeWhile (\<lambda>c. c \<noteq> CHR '','') s #
     (case dropWhile (\<lambda>c. c \<noteq> CHR '','') s of [] \<Rightarrow> [] | _ # r \<Rightarrow> comma_split r)"
  by (induction s) auto

lemma comma_join_Cons: "xs \<noteq> [] \<Longrightarrow> comma_join (x # xs) = x @ '','' @ comma_join xs"
  by (cases xs) auto

lemma comma_join_split [simp]: "comma_join (comma_split s) = s"
proof (induction s)
  case (Cons c cs)
  show ?case
  proof (cases "comma_split cs")
    case (Cons t ts)
    then show ?thesis using Cons.IH by (cases ts) (auto simp: comma_join_Cons)
  qed simp
qed simp

lemma comma_split_no_comma: "t \<in> set (comma_split s) \<Longrightarrow> CHR '','' \<notin> set t"
  by (induction s arbitrary: t) (auto split: if_splits list.splits)

lemma comma_split_append:
  "CHR '','' \<notin> set x \<Longrightarrow> comma_split (x @ CHR '','' # s) = x # comma_split s"
  by (induction x) auto

lemma comma_split_single: "CHR '','' \<notin> set x \<Longrightarrow> comma_split x = [x]"
  by (induction x) auto

lemma comma_split_join:
  "xs \<noteq> [] \<Longrightarrow> \<forall>x \<in> set xs. CHR '','' \<notin> set x \<Longrightarrow> comma_split (comma_join xs) = xs"
  by (induction xs rule: comma_join.induct) (auto simp: comma_split_append comma_split_single)

lemma strsep_Some: "strsep (Some s) = (Some (hd (comma_split s)),
    if tl (comma_split s) = [] then None else Some (comma_join (tl (comma_split s))))"
  by (subst (1 2 3) comma_split_rec; cases "dropWhile (\<lambda>c. c \<noteq> CHR '','') s")
    (simp_all add: strsep_def del: dropWhile_eq_Nil_conv)

section \<open>Pattern lists over entries\<close>

text \<open>The subpatterns of a list: a trailing empty entry does not count, a leading \<^verbatim>\<open>!\<close> negates.\<close>

definition list_entries :: "string \<Rightarrow> string list" where
  "list_entries p = (if last (comma_split p) = [] then butlast (comma_split p) else comma_split p)"

definition lower_if :: "bool \<Rightarrow> string \<Rightarrow> string" where
  "lower_if d s = (if d then map tolower s else s)"

definition entry_matches :: "string \<Rightarrow> bool \<Rightarrow> bool \<Rightarrow> string \<Rightarrow> bool" where
  "entry_matches str d neg e \<longleftrightarrow> fst (negation e) = neg \<and> match_pattern str (lower_if d (snd (negation e)))"

lemma list_entries_rec:
  assumes "p \<noteq> []"
  shows "list_entries p = takeWhile (\<lambda>c. c \<noteq> CHR '','') p #
    list_entries (skip_comma (dropWhile (\<lambda>c. c \<noteq> CHR '','') p))"
proof (cases "dropWhile (\<lambda>c. c \<noteq> CHR '','') p")
  case Nil
  then have tw: "takeWhile (\<lambda>c. c \<noteq> CHR '','') p = p" by (simp add: takeWhile_eq_all_conv)
  have "comma_split p = [p]" using Nil by (intro comma_split_single) auto
  then show ?thesis unfolding tw Nil using assms by (simp add: list_entries_def skip_comma_def)
next
  case (Cons c r)
  then have "c = CHR '',''" using hd_dropWhile [of "\<lambda>c. c \<noteq> CHR '',''" p] by auto
  then show ?thesis using Cons comma_split_rec [of p]
    by (simp add: list_entries_def skip_comma_def)
qed

lemma extract_sub_entry:
  "n + length (takeWhile (\<lambda>c. c \<noteq> CHR '','') p) < SUB_SIZE \<Longrightarrow>
   extract_sub d n p = (lower_if d (takeWhile (\<lambda>c. c \<noteq> CHR '','') p), dropWhile (\<lambda>c. c \<noteq> CHR '','') p)"
  by (induction d n p rule: extract_sub.induct) (auto simp: lower_if_def tolower_def)

lemma negation_entry:
  "negation (takeWhile (\<lambda>c. c \<noteq> CHR '','') p) =
     (fst (negation p), takeWhile (\<lambda>c. c \<noteq> CHR '','') (snd (negation p)))"
  "dropWhile (\<lambda>c. c \<noteq> CHR '','') (snd (negation p)) = dropWhile (\<lambda>c. c \<noteq> CHR '','') p"
  by (auto simp: negation_def split: list.splits)

lemma length_lower_if [simp]: "length (lower_if d s) = length s"
  by (simp add: lower_if_def)

lemma pattern_list_loop_step:
  fixes p defines "e \<equiv> takeWhile (\<lambda>c. c \<noteq> CHR '','') p"
    and "rest \<equiv> skip_comma (dropWhile (\<lambda>c. c \<noteq> CHR '','') p)"
  assumes "p \<noteq> []" and "length (snd (negation e)) < SUB_SIZE - 1"
  shows "pattern_list_loop str d p got =
    (if entry_matches str d True e then -1
     else pattern_list_loop str d rest (if entry_matches str d False e then 1 else got))"
proof -
  obtain neg p1 where n: "negation p = (neg, p1)" by force
  have e: "negation e = (neg, takeWhile (\<lambda>c. c \<noteq> CHR '','') p1)"
    and r: "rest = skip_comma (dropWhile (\<lambda>c. c \<noteq> CHR '','') p1)"
    using negation_entry [of p] n by (simp_all add: e_def rest_def)
  have x: "extract_sub d 0 p1 = (lower_if d (snd (negation e)), dropWhile (\<lambda>c. c \<noteq> CHR '','') p1)"
    using extract_sub_entry [of 0 p1 d] assms(4) e by simp
  show ?thesis using assms(3,4) n e r x
    by (subst pattern_list_loop.simps) (simp add: entry_matches_def)
qed

lemma skip_entry_length:
  assumes "p \<noteq> []" shows "length (skip_comma (dropWhile (\<lambda>c. c \<noteq> CHR '','') p)) < length p"
proof -
  obtain a q where p: "p = a # q" using assms by (cases p) auto
  have "length (skip_comma (dropWhile (\<lambda>c. c \<noteq> CHR '','') q)) \<le> length q"
    by (rule order_trans [OF skip_comma_length length_dropWhile_le])
  then show ?thesis by (cases "a = CHR '',''") (simp_all add: p skip_comma_def [of "_ # _"])
qed

lemma pattern_list_loop_entries:
  assumes "\<forall>e \<in> set (list_entries p). length (snd (negation e)) < SUB_SIZE - 1"
  shows "pattern_list_loop str d p got =
    (if \<exists>e \<in> set (list_entries p). entry_matches str d True e then -1
     else if \<exists>e \<in> set (list_entries p). entry_matches str d False e then 1 else got)"
  using assms
proof (induction "length p" arbitrary: p got rule: less_induct)
  case less
  show ?case
  proof (cases "p = []")
    case True
    then show ?thesis by (simp add: pattern_list_loop.simps list_entries_def)
  next
    case False
    let ?e = "takeWhile (\<lambda>c. c \<noteq> CHR '','') p" and ?r = "skip_comma (dropWhile (\<lambda>c. c \<noteq> CHR '','') p)"
    note rec = list_entries_rec [OF False]
    have e: "length (snd (negation ?e)) < SUB_SIZE - 1" using less.prems rec by simp
    have "length ?r < length p" by (rule skip_entry_length [OF False])
    then have "pattern_list_loop str d ?r g =
      (if \<exists>e \<in> set (list_entries ?r). entry_matches str d True e then -1
       else if \<exists>e \<in> set (list_entries ?r). entry_matches str d False e then 1 else g)" for g
      using less.prems rec by (intro less.hyps) auto
    then show ?thesis using pattern_list_loop_step [OF False e] rec by auto
  qed
qed

section \<open>Proposal lists\<close>

definition proposals :: "string \<Rightarrow> string list" where
  "proposals s = takeWhile (\<lambda>p. p \<noteq> []) (comma_split s)"

lemma strsep_cases:
  obtains t where "comma_split s = [t]" "strsep (Some s) = (Some t, None)"
  | t r where "comma_split s = t # comma_split r" "strsep (Some s) = (Some t, Some r)" "length r < length s"
      "CHR '','' \<notin> set t" "s = t @ CHR '','' # r"
proof (cases "dropWhile (\<lambda>c. c \<noteq> CHR '','') s")
  case Nil
  then show thesis using that(1) comma_split_rec [of s]
    by (simp add: strsep_def del: dropWhile_eq_Nil_conv)
next
  case (Cons c r)
  let ?t = "takeWhile (\<lambda>c. c \<noteq> CHR '','') s"
  have "c = CHR '',''" using hd_dropWhile [of "\<lambda>c. c \<noteq> CHR '',''" s] Cons by auto
  then have s: "s = ?t @ CHR '','' # r" using Cons takeWhile_dropWhile_id [of "\<lambda>c. c \<noteq> CHR '',''" s] by simp
  then have "length r < length s" by (metis length_append length_Cons less_add_Suc2 add_Suc_right)
  moreover have "CHR '','' \<notin> set ?t" using set_takeWhileD by fastforce
  ultimately show thesis using that(2) [of ?t r] s Cons comma_split_rec [of s] by (simp add: strsep_def)
qed

lemma strsep_None [simp]: "strsep None = (None, None)"
  by (simp add: strsep_def)

lemma server_props_None [simp]: "server_props None i = []"
  by (simp add: server_props.simps)

lemma server_props_entries: "server_props (Some s) i = take (MAX_PROP - i) (proposals s)"
proof (induction "length s" arbitrary: s i rule: less_induct)
  case less
  show ?case
  proof (cases rule: strsep_cases [of s])
    case (1 t)
    then show ?thesis by (subst server_props.simps) (simp add: proposals_def take_Cons')
  next
    case (2 t r)
    then show ?thesis using less.hyps [OF 2(3), of "i + 1"]
      by (subst server_props.simps) (simp add: proposals_def take_Cons')
  qed
qed

lemma client_loop_None [simp]: "client_loop c ps None = (None, next_pos c None)"
  by (simp add: client_loop.simps)

lemma client_loop_find: "fst (client_loop c ps (Some s)) = find (\<lambda>p. p \<in> set ps) (proposals s)"
proof (induction "length s" arbitrary: s rule: less_induct)
  case less
  show ?case
  proof (cases rule: strsep_cases [of s])
    case (1 t)
    then show ?thesis by (subst client_loop.simps) (simp add: proposals_def)
  next
    case (2 t r)
    then show ?thesis using less.hyps [OF 2(3)]
      by (subst client_loop.simps) (simp add: proposals_def)
  qed
qed

lemma match_list_find:
  "fst (match_list client server) = find (\<lambda>p. p \<in> set (take MAX_PROP (proposals server))) (proposals client)"
  by (simp add: match_list_def client_loop_find server_props_entries)

text \<open>Appending kept entries one by one.\<close>

fun append_entries :: "string \<Rightarrow> string list \<Rightarrow> string" where
  "append_entries acc [] = acc"
| "append_entries acc (t # ts) = append_entries (if acc \<noteq> [] then acc @ '','' @ t else t) ts"

lemma append_entries_join: "append_entries acc ts =
  (if acc = [] then comma_join (dropWhile (\<lambda>t. t = []) ts) else comma_join (acc # ts))"
proof (induction ts arbitrary: acc)
  case (Cons t ts)
  have "comma_join ((a @ CHR '','' # t) # ts) = comma_join (a # t # ts)" for a
    by (cases ts) (simp_all add: comma_join_Cons)
  then show ?case using Cons by simp
qed simp

definition keep :: "string \<Rightarrow> bool \<Rightarrow> string \<Rightarrow> bool" where
  "keep filt bl t \<longleftrightarrow> (if bl then match_pattern_list t filt False \<noteq> 1 else match_pattern_list t filt False = 1)"

lemma filter_loop_None [simp]: "filter_loop f b l None acc = acc"
  by (simp add: filter_loop.simps)

lemma filter_loop_entries:
  "(if acc = [] then 0 else length acc + 1) + length s < len \<Longrightarrow>
   filter_loop filt bl len (Some s) acc = append_entries acc (filter (keep filt bl) (comma_split s))"
proof (induction "length s" arbitrary: s acc rule: less_induct)
  case less
  show ?case
  proof (cases rule: strsep_cases [of s])
    case (1 t)
    then have "t = s" using comma_join_split [of s] by simp
    then show ?thesis using 1 less.prems
      by (subst filter_loop.simps) (auto simp: Let_def keep_def strlcat_def)
  next
    case (2 t r)
    let ?acc = "if keep filt bl t then if acc \<noteq> [] then acc @ '','' @ t else t else acc"
    have len: "length s = length t + 1 + length r" using 2(5) by simp
    have "filter_loop filt bl len (Some s) acc = filter_loop filt bl len (Some r) ?acc"
      using 2 less.prems len
      by (subst filter_loop.simps) (auto simp: Let_def keep_def strlcat_def)
    also have "\<dots> = append_entries ?acc (filter (keep filt bl) (comma_split r))"
      using less.prems len by (intro less.hyps [OF 2(3)]) (auto split: if_splits)
    finally show ?thesis using 2(1) by simp
  qed
qed

lemma filter_list_entries:
  "filter_list True True proposal filt bl =
     Some (comma_join (dropWhile (\<lambda>t. t = []) (filter (keep filt bl) (comma_split proposal))))"
  by (simp add: filter_list_def Let_def filter_loop_entries append_entries_join)

section \<open>Properties\<close>

text \<open>
  C10. Wildcard matching is exact: \<^verbatim>\<open>match_pattern\<close> accepts exactly the language in which \<^verbatim>\<open>*\<close> stands for
  any string and \<^verbatim>\<open>?\<close> for any character, for every pattern that does not end in \<^verbatim>\<open>**\<close>; a pattern ending in
  \<^verbatim>\<open>**\<close> is read as if it ended in \<^verbatim>\<open>?*\<close>, that is, its last stars must match at least one character.
\<close>

theorem match_pattern_language:
  "match_pattern s p \<longleftrightarrow>
     s \<in> glob_lang (if suffix ''**'' p then take (length p - 2) p @ ''?*'' else p)"
proof (cases "suffix ''**'' p")
  case True
  then obtain r where "p = r @ ''**''" by (auto simp: suffix_def)
  then show ?thesis using True match_pattern_double_star_end by simp
next
  case False
  then show ?thesis using match_pattern_no_double_star_end by simp
qed

text \<open>
  C18. A pattern list means what its comment says, whatever the order of its entries: \<^verbatim>\<open>match_pattern_list\<close>
  returns -1 if and only if some negated entry matches, 1 if no negated entry but some other entry
  matches, and 0 otherwise, provided every subpattern fits the array it is copied to.
\<close>

theorem match_pattern_list_meaning:
  assumes "length pattern < 2 ^ 32"
    and "\<forall>e \<in> set (list_entries pattern). length (snd (negation e)) < SUB_SIZE - 1"
  shows "match_pattern_list str pattern d =
    (if \<exists>e \<in> set (list_entries pattern). entry_matches str d True e then -1
     else if \<exists>e \<in> set (list_entries pattern). entry_matches str d False e then 1 else 0)"
  using pattern_list_loop_entries [OF assms(2)] assms(1) by (simp add: match_pattern_list_def)

theorem match_pattern_list_meaning_witness:
  "list_entries ''h*,!host'' = [''h*'', ''!host''] \<and> match_pattern_list ''host'' ''h*,!host'' False = -1"
proof -
  have "list_entries ''h*,!host'' = [''h*'', ''!host'']" by (simp add: list_entries_def)
  then show ?thesis
    using match_pattern_list_meaning [of "''h*,!host''" "''host''" False]
    by (simp add: negation_def SUB_SIZE_def entry_matches_def lower_if_def)
qed

text \<open>
  C19. Algorithm negotiation: \<^verbatim>\<open>match_list\<close> returns the first entry of the client's list that is among the
  first \<open>MAX_PROP\<close> entries of the server's list, and NULL when there is none; on both sides a list ends
  at its first empty entry.
\<close>

theorem match_list_first_common:
  "fst (match_list client server) =
     find (\<lambda>p. p \<in> set (take MAX_PROP (proposals server))) (proposals client)"
  by (rule match_list_find)

text \<open>
  C20. Filtering a proposal never truncates: the buffer of \<^verbatim>\<open>filter_list\<close> is large enough, and its result
  is the comma-separated list of the kept entries in their order (without leading empty ones), where
  an entry is kept by the blacklist exactly when the whitelist drops it.
\<close>

theorem filter_list_exact:
  "match_filter_blacklist True True proposal filt =
     Some (comma_join (dropWhile (\<lambda>t. t = []) (filter (\<lambda>t. \<not> keep filt False t) (comma_split proposal)))) \<and>
   match_filter_whitelist True True proposal filt =
     Some (comma_join (dropWhile (\<lambda>t. t = []) (filter (keep filt False) (comma_split proposal))))"
proof -
  have "keep filt True = (\<lambda>t. \<not> keep filt False t)" by (simp add: fun_eq_iff keep_def)
  then show ?thesis
    by (simp add: match_filter_blacklist_def match_filter_whitelist_def filter_list_entries)
qed

text \<open>
  When the last entry of the client's list is chosen, \<^verbatim>\<open>*next\<close> is not the end of the list but the length
  of its first entry, since \<^verbatim>\<open>strsep\<close> has already cut the copy that \<^verbatim>\<open>strlen\<close> measures.
\<close>

theorem match_list_next_last:
  "match_list ''password,publickey'' ''publickey'' = (Some ''publickey'', 8) \<and>
   length ''password,publickey'' = 18"
  by (simp add: match_list_def server_props.simps client_loop.simps strsep_def next_pos_def MAX_PROP_def)


end
