(* ===== verification/Addrmatch.thy ===== *)
theory Addrmatch
  imports Match
begin

text \<open>
  Address matching: \<^verbatim>\<open>addrmatch.c\<close>, and the functions of \<^verbatim>\<open>match.c\<close> that call it. The 128-bit union of
  \<^verbatim>\<open>struct xaddr\<close> is its sixteen bytes in network order, so that \<^verbatim>\<open>v4\<close> and \<^verbatim>\<open>addr32\<close> are slices of them.
  \<^verbatim>\<open>getaddrinfo\<close> is the parameter \<open>gai\<close>: \<open>None\<close> is a failed call.
\<close>

unbundle bit_operations_syntax

section \<open>Addresses\<close>

datatype family = AF_INET | AF_INET6 | AF_OTHER

record xaddr =
  af :: family
  xa :: "byte list"
  scope_id :: "32 word"

record sockaddr =
  sa_family :: family
  sin_addr :: "byte list"
  sin6_addr :: "byte list"
  sin6_scope_id :: "32 word"
  sa_len :: nat

definition htonl :: "32 word \<Rightarrow> byte list" where
  "htonl w = [ucast (drop_bit 24 w), ucast (drop_bit 16 w), ucast (drop_bit 8 w), ucast w]"

definition ntohl :: "byte list \<Rightarrow> nat" where
  "ntohl bs = foldl (\<lambda>v b. v * 256 + unat b) 0 bs"

definition addr_unicast_masklen :: "family \<Rightarrow> int" where
  "addr_unicast_masklen f = (case f of AF_INET \<Rightarrow> 32 | AF_INET6 \<Rightarrow> 128 | AF_OTHER \<Rightarrow> -1)"

definition masklen_valid :: "family \<Rightarrow> nat \<Rightarrow> bool" where
  "masklen_valid f masklen = (case f of AF_INET \<Rightarrow> masklen \<le> 32 | AF_INET6 \<Rightarrow> masklen \<le> 128 | AF_OTHER \<Rightarrow> False)"

definition xaddr0 :: "family \<Rightarrow> xaddr" where
  "xaddr0 f = \<lparr>af = f, xa = replicate 16 0, scope_id = 0\<rparr>"

text \<open>\<^verbatim>\<open>struct sockaddr_in\<close> has 16 bytes and \<^verbatim>\<open>struct sockaddr_in6\<close> 28.\<close>

definition addr_sa_to_xaddr :: "sockaddr \<Rightarrow> xaddr option" where
  "addr_sa_to_xaddr sa = (case sa_family sa of
     AF_INET \<Rightarrow> if sa_len sa < 16 then None
       else Some ((xaddr0 AF_INET)\<lparr>xa := take 4 (sin_addr sa) @ replicate 12 0\<rparr>)
   | AF_INET6 \<Rightarrow> if sa_len sa < 28 then None
       else Some ((xaddr0 AF_INET6)\<lparr>xa := take 16 (sin6_addr sa), scope_id := sin6_scope_id sa\<rparr>)
   | AF_OTHER \<Rightarrow> None)"

text \<open>The words \<^verbatim>\<open>addr32[i], ..., addr32[3]\<close> of an IPv6 netmask when \<open>l\<close> bits are left to set.\<close>

function netmask6_from :: "nat \<Rightarrow> nat \<Rightarrow> byte list" where
  "netmask6_from i l =
    (if i \<ge> 4 then []
     else if l \<ge> 32 then replicate 4 0xff @ netmask6_from (i + 1) (l - 32)
     else if l \<noteq> 0 then htonl (push_bit (32 - l) 0xffffffff AND 0xffffffff) @ replicate (4 * (3 - i)) 0
     else replicate (4 * (4 - i)) 0)"
  by pat_completeness auto
termination by (relation "measure (\<lambda>(i, l). 4 - i)") auto

declare netmask6_from.simps [simp del]

definition addr_netmask :: "family \<Rightarrow> nat \<Rightarrow> xaddr option" where
  "addr_netmask f l =
    (if \<not> masklen_valid f l then None
     else (case f of
        AF_INET \<Rightarrow>
          if l = 0 then Some (xaddr0 AF_INET)
          else Some ((xaddr0 AF_INET)\<lparr>xa := htonl (push_bit (32 - l) 0xffffffff AND 0xffffffff) @ replicate 12 0\<rparr>)
      | AF_INET6 \<Rightarrow> Some ((xaddr0 AF_INET6)\<lparr>xa := netmask6_from 0 l\<rparr>)
      | AF_OTHER \<Rightarrow> None))"

definition addr_and :: "xaddr \<Rightarrow> xaddr \<Rightarrow> xaddr option" where
  "addr_and a b =
    (if af a \<noteq> af b then None
     else (case af a of
        AF_INET \<Rightarrow> Some (a\<lparr>xa := map2 (AND) (take 4 (xa a)) (take 4 (xa b)) @ drop 4 (xa a)\<rparr>)
      | AF_INET6 \<Rightarrow> Some (a\<lparr>xa := map2 (AND) (xa a) (xa b)\<rparr>)
      | AF_OTHER \<Rightarrow> None))"

fun cmp_bytes :: "byte list \<Rightarrow> byte list \<Rightarrow> int" where
  "cmp_bytes (x # xs) (y # ys) = (if x \<noteq> y then (if unat x > unat y then 1 else -1) else cmp_bytes xs ys)"
| "cmp_bytes _ _ = 0"

definition addr_cmp :: "xaddr \<Rightarrow> xaddr \<Rightarrow> int" where
  "addr_cmp a b =
    (if af a \<noteq> af b then (if af a = AF_INET6 then 1 else -1)
     else (case af a of
        AF_INET \<Rightarrow> if take 4 (xa a) = take 4 (xa b) then 0
          else if ntohl (take 4 (xa a)) > ntohl (take 4 (xa b)) then 1 else -1
      | AF_INET6 \<Rightarrow>
          if cmp_bytes (xa a) (xa b) \<noteq> 0 then cmp_bytes (xa a) (xa b)
          else if scope_id a = scope_id b then 0
          else if unat (scope_id a) > unat (scope_id b) then 1 else -1
      | AF_OTHER \<Rightarrow> -1))"

definition addr_pton :: "(string \<Rightarrow> sockaddr option) \<Rightarrow> string option \<Rightarrow> xaddr option" where
  "addr_pton gai p = (case p of None \<Rightarrow> None
     | Some s \<Rightarrow> (case gai s of None \<Rightarrow> None | Some sa \<Rightarrow> addr_sa_to_xaddr sa))"

definition addr_invert :: "xaddr \<Rightarrow> xaddr option" where
  "addr_invert n = (case af n of
     AF_INET \<Rightarrow> Some (n\<lparr>xa := map NOT (take 4 (xa n)) @ drop 4 (xa n)\<rparr>)
   | AF_INET6 \<Rightarrow> Some (n\<lparr>xa := map NOT (xa n)\<rparr>)
   | AF_OTHER \<Rightarrow> None)"

definition addr_hostmask :: "family \<Rightarrow> nat \<Rightarrow> xaddr option" where
  "addr_hostmask f l = (case addr_netmask f l of None \<Rightarrow> None | Some n \<Rightarrow> addr_invert n)"

definition addr_is_all0s :: "xaddr \<Rightarrow> bool" where
  "addr_is_all0s a = (case af a of
     AF_INET \<Rightarrow> (\<forall>b \<in> set (take 4 (xa a)). b = 0)
   | AF_INET6 \<Rightarrow> (\<forall>b \<in> set (xa a). b = 0)
   | AF_OTHER \<Rightarrow> False)"

definition addr_host_is_all0s :: "xaddr \<Rightarrow> nat \<Rightarrow> bool" where
  "addr_host_is_all0s a masklen =
    (case addr_hostmask (af a) masklen of None \<Rightarrow> False
     | Some m \<Rightarrow> (case addr_and a m of None \<Rightarrow> False | Some r \<Rightarrow> addr_is_all0s r))"

section \<open>CIDR entries\<close>

text \<open>\<^verbatim>\<open>strtoul(mp, &cp, 10)\<close>: the value and the characters left at \<^verbatim>\<open>cp\<close>. Without digits nothing is
  consumed; a value out of range saturates; a minus sign negates modulo the range.\<close>

definition isspace :: "char \<Rightarrow> bool" where
  "isspace c \<longleftrightarrow> (of_char c :: nat) = 32 \<or> (9 \<le> (of_char c :: nat) \<and> (of_char c :: nat) \<le> 13)"

definition isdigit :: "char \<Rightarrow> bool" where
  "isdigit c \<longleftrightarrow> 48 \<le> (of_char c :: nat) \<and> (of_char c :: nat) \<le> 57"

definition digits_value :: "string \<Rightarrow> nat" where
  "digits_value ds = foldl (\<lambda>v c. v * 10 + ((of_char c :: nat) - 48)) 0 ds"

definition strtoul10 :: "string \<Rightarrow> nat \<times> string" where
  "strtoul10 s =
    (let t = dropWhile isspace s;
         neg = (t \<noteq> [] \<and> hd t = CHR ''-'');
         u = (if t \<noteq> [] \<and> (hd t = CHR ''-'' \<or> hd t = CHR ''+'') then tl t else t);
         ds = takeWhile isdigit u;
         v = digits_value ds
     in if ds = [] then (0, s)
        else (if v > SIZE_MAX then SIZE_MAX
              else if neg \<and> v \<noteq> 0 then SIZE_MAX + 1 - v else v, dropWhile isdigit u))"

datatype cidr = CidrOk xaddr nat | CidrParse | CidrInconsistent

definition cidr_check :: "xaddr \<Rightarrow> nat \<Rightarrow> cidr" where
  "cidr_check tmp masklen =
    (if \<not> masklen_valid (af tmp) (masklen mod 2 ^ 32) then CidrInconsistent
     else if \<not> addr_host_is_all0s tmp (masklen mod 2 ^ 32) then CidrInconsistent
     else CidrOk tmp (masklen mod 2 ^ 32))"

definition addr_pton_cidr :: "(string \<Rightarrow> sockaddr option) \<Rightarrow> string option \<Rightarrow> cidr" where
  "addr_pton_cidr gai p =
    (case p of None \<Rightarrow> CidrParse
     | Some s \<Rightarrow>
        if length s \<ge> 64 then CidrParse
        else (case dropWhile (\<lambda>c. c \<noteq> CHR ''/'') s of
            [] \<Rightarrow> (case addr_pton gai (Some s) of None \<Rightarrow> CidrParse
               | Some tmp \<Rightarrow> cidr_check tmp (nat (addr_unicast_masklen (af tmp) mod (int SIZE_MAX + 1))))
          | _ # mp \<Rightarrow>
             (case strtoul10 mp of (masklen, cp) \<Rightarrow>
                if mp = [] \<or> cp \<noteq> [] \<or> masklen > 128 then CidrParse
                else (case addr_pton gai (Some (takeWhile (\<lambda>c. c \<noteq> CHR ''/'') s)) of None \<Rightarrow> CidrParse
                   | Some tmp \<Rightarrow> cidr_check tmp masklen))))"

definition addr_netmatch :: "xaddr \<Rightarrow> xaddr \<Rightarrow> nat \<Rightarrow> int" where
  "addr_netmatch host net masklen =
    (if af host \<noteq> af net then -1
     else (case addr_netmask (af host) masklen of None \<Rightarrow> -1
       | Some m \<Rightarrow> (case addr_and host m of None \<Rightarrow> -1 | Some r \<Rightarrow> addr_cmp r net)))"

section \<open>Address lists\<close>

text \<open>One entry of \<^verbatim>\<open>addr_match_list\<close>: an error, a hit, or nothing. The address is \<open>None\<close> for NULL, otherwise
  its text and its parsed form.\<close>

datatype entry = EntryInvalid | EntryHit | EntryMiss

definition match_entry :: "(string \<Rightarrow> sockaddr option) \<Rightarrow> (string \<times> xaddr) option \<Rightarrow> string \<Rightarrow> entry" where
  "match_entry gai addr cp =
    (if cp = [] then EntryInvalid
     else (case addr_pton_cidr gai (Some cp) of
        CidrInconsistent \<Rightarrow> EntryInvalid
      | CidrOk match_addr masklen \<Rightarrow> (case addr of None \<Rightarrow> EntryMiss
          | Some (_, try_addr) \<Rightarrow> if addr_netmatch try_addr match_addr masklen = 0 then EntryHit else EntryMiss)
      | CidrParse \<Rightarrow> (case addr of None \<Rightarrow> EntryMiss
          | Some (a, _) \<Rightarrow> if match_pattern a cp then EntryHit else EntryMiss)))"

function addr_list_loop ::
  "(string \<Rightarrow> sockaddr option) \<Rightarrow> (string \<times> xaddr) option \<Rightarrow> string option \<Rightarrow> int \<Rightarrow> int" where
  "addr_list_loop gai addr list ret =
    (case strsep list of
       (None, _) \<Rightarrow> ret
     | (Some cp, list') \<Rightarrow>
        (case negation cp of (neg, cp1) \<Rightarrow>
         (case match_entry gai addr cp1 of
            EntryInvalid \<Rightarrow> -2
          | EntryHit \<Rightarrow> if neg then -1 else addr_list_loop gai addr list' 1
          | EntryMiss \<Rightarrow> addr_list_loop gai addr list' ret)))"
  by pat_completeness auto
termination
  by (relation "measure (\<lambda>(g, a, list, r). sep_size list)") (auto dest: strsep_size [OF sym])

definition addr_match_list :: "(string \<Rightarrow> sockaddr option) \<Rightarrow> bool \<Rightarrow> string option \<Rightarrow> string \<Rightarrow> int" where
  "addr_match_list gai strdup_ok addr list =
    (case addr of
       None \<Rightarrow> if strdup_ok then addr_list_loop gai None (Some list) 0 else -1
     | Some a \<Rightarrow> (case addr_pton gai (Some a) of None \<Rightarrow> 0
         | Some try_addr \<Rightarrow> if strdup_ok then addr_list_loop gai (Some (a, try_addr)) (Some list) 0 else -1))"

definition INET6_ADDRSTRLEN :: nat where "INET6_ADDRSTRLEN = 46"

definition VALID_CIDR_CHARS :: string where "VALID_CIDR_CHARS = ''0123456789abcdefABCDEF.:/''"

function cidr_list_loop ::
  "(string \<Rightarrow> sockaddr option) \<Rightarrow> xaddr option \<Rightarrow> string option \<Rightarrow> int \<Rightarrow> int" where
  "cidr_list_loop gai addr list ret =
    (case strsep list of
       (None, _) \<Rightarrow> ret
     | (Some cp, list') \<Rightarrow>
        if cp = [] then -1
        else if length cp > INET6_ADDRSTRLEN + 3 then -1
        else let ret1 = (if takeWhile (\<lambda>c. c \<in> set VALID_CIDR_CHARS) cp \<noteq> cp then -1 else ret) in
          (case addr_pton_cidr gai (Some cp) of
             CidrParse \<Rightarrow> -1
           | CidrInconsistent \<Rightarrow> -1
           | CidrOk match_addr masklen \<Rightarrow>
               (case addr of None \<Rightarrow> cidr_list_loop gai addr list' ret1
                | Some try_addr \<Rightarrow> cidr_list_loop gai addr list'
                    (if addr_netmatch try_addr match_addr masklen = 0 then 1 else ret1))))"
  by pat_completeness auto
termination
  by (relation "measure (\<lambda>(g, a, list, r). sep_size list)") (auto dest: strsep_size [OF sym])

declare addr_list_loop.simps [simp del] cidr_list_loop.simps [simp del]

definition addr_match_cidr_list :: "(string \<Rightarrow> sockaddr option) \<Rightarrow> bool \<Rightarrow> string option \<Rightarrow> string \<Rightarrow> int" where
  "addr_match_cidr_list gai strdup_ok addr list =
    (case addr of
       None \<Rightarrow> if strdup_ok then cidr_list_loop gai None (Some list) 0 else -1
     | Some a \<Rightarrow> (case addr_pton gai (Some a) of None \<Rightarrow> 0
         | Some try_addr \<Rightarrow> if strdup_ok then cidr_list_loop gai (Some try_addr) (Some list) 0 else -1))"

section \<open>Hosts and users\<close>

definition match_host_and_ip ::
  "(string \<Rightarrow> sockaddr option) \<Rightarrow> bool \<Rightarrow> string option \<Rightarrow> string option \<Rightarrow> string \<Rightarrow> int" where
  "match_host_and_ip gai strdup_ok host ipaddr patterns =
    (let mip = addr_match_list gai strdup_ok ipaddr patterns in
     if mip = -2 then -1
     else (case host of None \<Rightarrow> 0
       | Some h \<Rightarrow>
          if ipaddr = None \<or> mip = -1 then 0
          else let mhost = match_hostname h patterns in
            if mhost = -1 then 0 else if mhost = 0 \<and> mip = 0 then 0 else 1))"

text \<open>\<open>user\<close> is not NULL unless all three names are.\<close>

definition match_user ::
  "(string \<Rightarrow> sockaddr option) \<Rightarrow> bool \<Rightarrow> string option \<Rightarrow> string option \<Rightarrow> string option \<Rightarrow> string \<Rightarrow> int" where
  "match_user gai strdup_ok user host ipaddr pattern =
    (let at = dropWhile (\<lambda>c. c \<noteq> CHR ''@'') pattern in
     if user = None \<and> host = None \<and> ipaddr = None then
       (if at \<noteq> [] \<and> match_host_and_ip gai strdup_ok None None (tl at) < 0 then -1 else 0)
     else if at = [] then (if match_pattern (the user) pattern then 1 else 0)
     else if match_pattern (the user) (takeWhile (\<lambda>c. c \<noteq> CHR ''@'') pattern)
     then match_host_and_ip gai strdup_ok host ipaddr (tl at)
     else 0)"

section \<open>Bits of an address\<close>

text \<open>Bit \<open>k\<close> of a sequence of bytes, counted from the most significant bit of the first byte.\<close>

definition nth_bit :: "byte list \<Rightarrow> nat \<Rightarrow> bool" where
  "nth_bit bs k = bit (bs ! (k div 8)) (7 - k mod 8)"

definition width :: "family \<Rightarrow> nat" where
  "width f = (case f of AF_INET \<Rightarrow> 32 | AF_INET6 \<Rightarrow> 128 | AF_OTHER \<Rightarrow> 0)"

definition xaddr_wf :: "xaddr \<Rightarrow> bool" where
  "xaddr_wf a \<longleftrightarrow> length (xa a) = 16 \<and> af a \<noteq> AF_OTHER"

definition gai_wf :: "(string \<Rightarrow> sockaddr option) \<Rightarrow> bool" where
  "gai_wf gai \<longleftrightarrow> (\<forall>s sa. gai s = Some sa \<longrightarrow> length (sin_addr sa) = 4 \<and> length (sin6_addr sa) = 16)"

lemma bit_index_lt [simp]: "7 - k mod 8 < (8 :: nat)"
  by arith

lemma bytes_eqI:
  assumes "length xs = length ys" and "\<And>k. k < 8 * length xs \<Longrightarrow> nth_bit xs k = nth_bit ys k"
  shows "xs = ys"
proof (rule nth_equalityI [OF assms(1)], rule bit_word_eqI)
  fix i j assume "i < length xs" and "j < LENGTH(8)"
  then have "8 * i + (7 - j) < 8 * length xs" "(8 * i + (7 - j)) div 8 = i" "(8 * i + (7 - j)) mod 8 = 7 - j"
    by (simp, simp, subst mod_mult_self4, simp)
  then show "bit (xs ! i) j = bit (ys ! i) j"
    using assms(2) [of "8 * i + (7 - j)"] \<open>j < LENGTH(8)\<close> by (simp add: nth_bit_def)
qed

lemma nth_bit_append:
  "nth_bit (xs @ ys) k = (if k < 8 * length xs then nth_bit xs k else nth_bit ys (k - 8 * length xs))"
proof (cases "k < 8 * length xs")
  case True
  then have "k div 8 < length xs" by linarith
  then show ?thesis using True by (simp only: nth_bit_def nth_append if_True)
next
  case False
  then obtain m where m: "k = 8 * length xs + m" using le_Suc_ex not_less by blast
  then show ?thesis by (simp add: nth_bit_def nth_append)
qed

lemma nth_bit_replicate: "k < 8 * n \<Longrightarrow> nth_bit (replicate n b) k = bit b (7 - k mod 8)"
  by (simp add: nth_bit_def less_mult_imp_div_less mult.commute)

lemma nth_bit_zeros: "k < 8 * n \<Longrightarrow> \<not> nth_bit (replicate n 0) k"
  by (simp add: nth_bit_replicate)

lemma nth_bit_map2_and:
  "length xs = length ys \<Longrightarrow> k < 8 * length xs \<Longrightarrow>
   nth_bit (map2 (AND) xs ys) k \<longleftrightarrow> nth_bit xs k \<and> nth_bit ys k"
  by (simp add: nth_bit_def less_mult_imp_div_less mult.commute bit_simps)

lemma nth_bit_map_not: "k < 8 * length xs \<Longrightarrow> nth_bit (map NOT xs) k \<longleftrightarrow> \<not> nth_bit xs k"
  by (simp add: nth_bit_def less_mult_imp_div_less mult.commute bit_simps)

lemma nth_bit_take: "k < 8 * n \<Longrightarrow> nth_bit (take n xs) k = nth_bit xs k"
  by (simp add: nth_bit_def less_mult_imp_div_less mult.commute)

lemma length_htonl [simp]: "length (htonl w) = 4"
  by (simp add: htonl_def)

lemma nth_bit_htonl: assumes "k < 32" shows "nth_bit (htonl w) k = bit w (31 - k)"
proof -
  consider "k div 8 = 0" | "k div 8 = 1" | "k div 8 = 2" | "k div 8 = 3" using assms by linarith
  then have "bit (htonl w ! (k div 8)) (7 - k mod 8) = bit w (7 - k mod 8 + 8 * (3 - k div 8))"
    by cases (simp_all add: htonl_def bit_simps less_imp_diff_less)
  moreover have "7 - k mod 8 + 8 * (3 - k div 8) = 31 - k"
    using assms mult_div_mod_eq [of 8 k] mod_less_divisor [of 8 k] by linarith
  ultimately show ?thesis by (simp add: nth_bit_def)
qed

lemma nth_bit_mask32:
  assumes "k < 32" and "0 < l" and "l \<le> 32"
  shows "nth_bit (htonl (push_bit (32 - l) 0xffffffff AND 0xffffffff)) k \<longleftrightarrow> k < l"
proof -
  have m: "(0xffffffff :: 32 word) = mask 32" by (simp add: mask_eq_exp_minus_1)
  show ?thesis using assms by (auto simp: nth_bit_htonl m bit_simps)
qed

section \<open>Networks\<close>

lemma netmask6_from_bits:
  "i \<le> 4 \<Longrightarrow> length (netmask6_from i l) = 4 * (4 - i) \<and>
    (\<forall>k < 32 * (4 - i). nth_bit (netmask6_from i l) k \<longleftrightarrow> k < l)"
proof (induction i l rule: netmask6_from.induct)
  case (1 i l)
  consider "i = 4" | "i < 4" "32 \<le> l" | "i < 4" "0 < l" "l < 32" | "i < 4" "l = 0"
    using "1.prems" by linarith
  then show ?case
  proof cases
    case 1
    then show ?thesis by (simp add: netmask6_from.simps)
  next
    case 2
    have e: "netmask6_from i l = replicate 4 0xff @ netmask6_from (i + 1) (l - 32)"
      using 2 by (subst netmask6_from.simps) (simp only: if_False if_True linorder_not_le [symmetric])
    have d: "4 - i = Suc (4 - (i + 1))" using 2 by simp
    have ones: "nth_bit (replicate 4 0xff) k" if "k < 32" for k
    proof -
      have ff: "(0xff :: byte) = mask 8" by (simp add: mask_eq_exp_minus_1)
      show ?thesis unfolding ff using that by (subst nth_bit_replicate) (simp_all add: bit_simps)
    qed
    have ih: "length (netmask6_from (i + 1) (l - 32)) = 4 * (4 - (i + 1))"
      "\<forall>k < 32 * (4 - (i + 1)). nth_bit (netmask6_from (i + 1) (l - 32)) k \<longleftrightarrow> k < l - 32"
      using "1.IH" 2 by simp_all
    show ?thesis
    proof (intro conjI allI impI)
      show "length (netmask6_from i l) = 4 * (4 - i)" unfolding e d using ih(1) by simp
    next
      fix k assume "k < 32 * (4 - i)"
      then have "k - 32 < 32 * (4 - (i + 1)) \<or> k < 32" unfolding d by auto
      then show "nth_bit (netmask6_from i l) k \<longleftrightarrow> k < l"
        unfolding e nth_bit_append using ih(2) ones [of k] 2(2) by (cases "k < 32") auto
    qed
  next
    case 3
    have e: "netmask6_from i l = htonl (push_bit (32 - l) 0xffffffff AND 0xffffffff) @ replicate (4 * (3 - i)) 0"
      using 3 by (subst netmask6_from.simps) (simp only: if_False if_True linorder_not_le [symmetric] neq0_conv simp_thms)
    have d: "4 - i = Suc (3 - i)" using 3 by simp
    show ?thesis
    proof (intro conjI allI impI)
      show "length (netmask6_from i l) = 4 * (4 - i)" unfolding e d by simp
    next
      fix k assume "k < 32 * (4 - i)"
      then have "k - 32 < 8 * (4 * (3 - i)) \<or> k < 32" unfolding d by auto
      then show "nth_bit (netmask6_from i l) k \<longleftrightarrow> k < l"
        unfolding e nth_bit_append using nth_bit_mask32 [of k l] nth_bit_zeros [of "k - 32" "4 * (3 - i)"] 3
        by (cases "k < 32") auto
    qed
  next
    case 4
    then have "netmask6_from i l = replicate (4 * (4 - i)) 0" by (subst netmask6_from.simps) simp
    then show ?thesis using 4 nth_bit_zeros [of _ "4 * (4 - i)"] by simp
  qed
qed

lemma masklen_valid_width: "f \<noteq> AF_OTHER \<Longrightarrow> masklen_valid f l \<longleftrightarrow> l \<le> width f"
  by (cases f) (simp_all add: masklen_valid_def width_def)

lemma width_le: "width f \<le> 128"
  by (cases f) (simp_all add: width_def)

lemma addr_netmask_bits:
  assumes "f \<noteq> AF_OTHER" and "l \<le> width f"
  shows "\<exists>n. addr_netmask f l = Some n \<and> af n = f \<and> xaddr_wf n \<and>
    (\<forall>k < width f. nth_bit (xa n) k \<longleftrightarrow> k < l)"
proof (cases f)
  case AF_INET
  then show ?thesis using assms nth_bit_mask32 [of _ l]
    by (auto simp: addr_netmask_def masklen_valid_def width_def xaddr0_def xaddr_wf_def nth_bit_append
        nth_bit_zeros)
next
  case AF_INET6
  then show ?thesis using assms netmask6_from_bits [of 0 l]
    by (auto simp: addr_netmask_def masklen_valid_def width_def xaddr0_def xaddr_wf_def)
qed (use assms in simp)

lemma addr_netmask_None: "f \<noteq> AF_OTHER \<Longrightarrow> width f < l \<Longrightarrow> addr_netmask f l = None"
  by (simp add: addr_netmask_def masklen_valid_width)

lemma addr_and_bits:
  assumes "xaddr_wf a" and "xaddr_wf b" and "af a = af b"
  shows "\<exists>r. addr_and a b = Some r \<and> af r = af a \<and> scope_id r = scope_id a \<and> xaddr_wf r \<and>
    (\<forall>k < width (af a). nth_bit (xa r) k \<longleftrightarrow> nth_bit (xa a) k \<and> nth_bit (xa b) k)"
  using assms
  by (cases "af a") (auto simp: addr_and_def xaddr_wf_def width_def nth_bit_append nth_bit_map2_and nth_bit_take)

lemma cmp_bytes_0: "length xs = length ys \<Longrightarrow> cmp_bytes xs ys = 0 \<longleftrightarrow> xs = ys"
  by (induction xs ys rule: cmp_bytes.induct) auto

lemma bytes_eq_iff:
  "length xs = length ys \<Longrightarrow> xs = ys \<longleftrightarrow> (\<forall>k < 8 * length xs. nth_bit xs k = nth_bit ys k)"
  using bytes_eqI by blast

lemma addr_cmp_bits:
  assumes "xaddr_wf a" and "xaddr_wf b" and "af a = af b"
  shows "addr_cmp a b = 0 \<longleftrightarrow> (\<forall>k < width (af a). nth_bit (xa a) k = nth_bit (xa b) k) \<and>
    (af a = AF_INET6 \<longrightarrow> scope_id a = scope_id b)"
proof (cases "af a")
  case AF_INET
  have "take 4 (xa a) = take 4 (xa b) \<longleftrightarrow> (\<forall>k < 32. nth_bit (take 4 (xa a)) k = nth_bit (take 4 (xa b)) k)"
    using assms by (subst bytes_eq_iff) (auto simp: xaddr_wf_def)
  then show ?thesis using AF_INET assms(3) by (simp add: addr_cmp_def width_def nth_bit_take)
next
  case AF_INET6
  have "xa a = xa b \<longleftrightarrow> (\<forall>k < 128. nth_bit (xa a) k = nth_bit (xa b) k)"
    using assms by (subst bytes_eq_iff) (auto simp: xaddr_wf_def)
  then show ?thesis using AF_INET6 assms cmp_bytes_0 [of "xa a" "xa b"]
    by (auto simp: addr_cmp_def width_def xaddr_wf_def)
qed (use assms in \<open>simp add: xaddr_wf_def\<close>)

lemma addr_netmatch_bits:
  assumes "xaddr_wf host" and "xaddr_wf net"
  shows "addr_netmatch host net l = 0 \<longleftrightarrow> af host = af net \<and> l \<le> width (af net) \<and>
    (\<forall>k < width (af net). nth_bit (xa net) k \<longleftrightarrow> k < l \<and> nth_bit (xa host) k) \<and>
    (af net = AF_INET6 \<longrightarrow> scope_id host = scope_id net)"
proof -
  have f: "af host \<noteq> AF_OTHER" using assms by (simp add: xaddr_wf_def)
  consider "af host \<noteq> af net" | "af host = af net" "width (af net) < l" | "af host = af net" "l \<le> width (af net)"
    by linarith
  then show ?thesis
  proof cases
    case 2
    then show ?thesis using addr_netmask_None [OF f, of l] by (simp add: addr_netmatch_def)
  next
    case 3
    obtain n where n: "addr_netmask (af host) l = Some n" "af n = af host" "xaddr_wf n"
        "\<forall>k < width (af host). nth_bit (xa n) k \<longleftrightarrow> k < l"
      using addr_netmask_bits [OF f] 3 by auto
    obtain r where r: "addr_and host n = Some r" "af r = af host" "scope_id r = scope_id host" "xaddr_wf r"
        "\<forall>k < width (af host). nth_bit (xa r) k \<longleftrightarrow> nth_bit (xa host) k \<and> nth_bit (xa n) k"
      using addr_and_bits [OF assms(1) n(3)] n(2) by auto
    show ?thesis using addr_cmp_bits [OF r(4) assms(2)] 3 n r by (auto simp: addr_netmatch_def)
  qed (simp add: addr_netmatch_def)
qed

lemma addr_invert_bits:
  assumes "xaddr_wf n"
  shows "\<exists>r. addr_invert n = Some r \<and> af r = af n \<and> xaddr_wf r \<and>
    (\<forall>k < width (af n). nth_bit (xa r) k \<longleftrightarrow> \<not> nth_bit (xa n) k)"
  using assms
  by (cases "af n") (auto simp: addr_invert_def xaddr_wf_def width_def nth_bit_append nth_bit_map_not
      nth_bit_take)

lemma zero_bytes_iff: "(\<forall>b \<in> set bs. b = 0) \<longleftrightarrow> (\<forall>k < 8 * length bs. \<not> nth_bit bs k)"
proof -
  have "(\<forall>b \<in> set bs. b = 0) \<longleftrightarrow> bs = replicate (length bs) 0"
    by (metis in_set_replicate replicate_eqI)
  also have "\<dots> \<longleftrightarrow> (\<forall>k < 8 * length bs. nth_bit bs k = nth_bit (replicate (length bs) 0) k)"
    by (rule bytes_eq_iff) simp
  finally show ?thesis using nth_bit_zeros by auto
qed

lemma addr_is_all0s_bits:
  "xaddr_wf a \<Longrightarrow> addr_is_all0s a \<longleftrightarrow> (\<forall>k < width (af a). \<not> nth_bit (xa a) k)"
  by (cases "af a") (auto simp: addr_is_all0s_def xaddr_wf_def width_def zero_bytes_iff nth_bit_take)

lemma addr_host_is_all0s_bits:
  assumes wf: "xaddr_wf a" and l: "l \<le> width (af a)"
  shows "addr_host_is_all0s a l \<longleftrightarrow> (\<forall>k < width (af a). l \<le> k \<longrightarrow> \<not> nth_bit (xa a) k)"
proof -
  have f: "af a \<noteq> AF_OTHER" using wf by (simp add: xaddr_wf_def)
  obtain n where n: "addr_netmask (af a) l = Some n" "af n = af a" "xaddr_wf n"
      "\<forall>k < width (af a). nth_bit (xa n) k \<longleftrightarrow> k < l"
    using addr_netmask_bits [OF f l] by blast
  obtain h where h: "addr_invert n = Some h" "af h = af a" "xaddr_wf h"
      "\<forall>k < width (af a). nth_bit (xa h) k \<longleftrightarrow> \<not> nth_bit (xa n) k"
    using addr_invert_bits [OF n(3)] n(2) by auto
  obtain r where r: "addr_and a h = Some r" "af r = af a" "xaddr_wf r"
      "\<forall>k < width (af a). nth_bit (xa r) k \<longleftrightarrow> nth_bit (xa a) k \<and> nth_bit (xa h) k"
    using addr_and_bits [OF wf h(3)] h(2) by auto
  have "addr_host_is_all0s a l \<longleftrightarrow> (\<forall>k < width (af a). \<not> nth_bit (xa r) k)"
    using addr_is_all0s_bits [OF r(3)] n(1) h(1) r(1,2) by (simp add: addr_host_is_all0s_def addr_hostmask_def)
  then show ?thesis using n(4) h(4) r(4) by (auto simp: not_less)
qed

lemma addr_pton_wf: "gai_wf gai \<Longrightarrow> addr_pton gai p = Some a \<Longrightarrow> xaddr_wf a"
  by (fastforce simp: addr_pton_def addr_sa_to_xaddr_def xaddr_wf_def xaddr0_def gai_wf_def
      split: option.splits family.splits if_splits)

lemma cidr_check_ok:
  assumes "xaddr_wf a" and "cidr_check a m = CidrOk net l"
  shows "net = a \<and> l \<le> width (af a) \<and> (\<forall>k < width (af a). l \<le> k \<longrightarrow> \<not> nth_bit (xa a) k)"
proof -
  have f: "af a \<noteq> AF_OTHER" using assms(1) by (simp add: xaddr_wf_def)
  then show ?thesis using assms addr_host_is_all0s_bits [OF assms(1), of l] masklen_valid_width [OF f, of l]
    by (auto simp: cidr_check_def split: if_splits)
qed

lemma addr_pton_cidr_ok:
  assumes "gai_wf gai" and "addr_pton_cidr gai p = CidrOk net l"
  shows "xaddr_wf net \<and> l \<le> width (af net) \<and> (\<forall>k < width (af net). l \<le> k \<longrightarrow> \<not> nth_bit (xa net) k)"
proof -
  obtain a m q where a: "addr_pton gai q = Some a" "cidr_check a m = CidrOk net l"
    using assms(2) unfolding addr_pton_cidr_def
    by (auto split: option.splits if_splits list.splits prod.splits)
  show ?thesis using cidr_check_ok [OF addr_pton_wf [OF assms(1) a(1)] a(2)] addr_pton_wf [OF assms(1) a(1)]
    by auto
qed

section \<open>Lists\<close>

definition entry_result ::
  "(string \<Rightarrow> sockaddr option) \<Rightarrow> (string \<times> xaddr) option \<Rightarrow> bool \<Rightarrow> string \<Rightarrow> entry \<Rightarrow> bool" where
  "entry_result gai addr neg e r \<longleftrightarrow> fst (negation e) = neg \<and> match_entry gai addr (snd (negation e)) = r"

lemma addr_list_loop_None [simp]: "addr_list_loop gai addr None r = r"
  by (simp add: addr_list_loop.simps)

lemma addr_list_loop_step:
  "addr_list_loop gai addr (Some s) r =
    (case match_entry gai addr (snd (negation (hd (comma_split s)))) of
       EntryInvalid \<Rightarrow> -2
     | EntryHit \<Rightarrow> if fst (negation (hd (comma_split s))) then -1
         else addr_list_loop gai addr (snd (strsep (Some s))) 1
     | EntryMiss \<Rightarrow> addr_list_loop gai addr (snd (strsep (Some s))) r)"
  by (subst addr_list_loop.simps) (auto simp: strsep_Some split: prod.split entry.split)

lemma addr_list_loop_one:
  "r = 0 \<or> r = 1 \<Longrightarrow> addr_list_loop gai addr (Some s) r = 1 \<longleftrightarrow>
    (\<forall>e \<in> set (comma_split s). match_entry gai addr (snd (negation e)) \<noteq> EntryInvalid \<and>
       \<not> entry_result gai addr True e EntryHit) \<and>
    (r = 1 \<or> (\<exists>e \<in> set (comma_split s). entry_result gai addr False e EntryHit))"
proof (induction "length s" arbitrary: s r rule: less_induct)
  case less
  show ?case
  proof (cases rule: strsep_cases [of s])
    case (1 t)
    then show ?thesis using less.prems
      by (auto simp: addr_list_loop_step [of _ _ s] entry_result_def split: entry.split)
  next
    case (2 t q)
    note ih = less.hyps [OF 2(3)]
    show ?thesis using 2(1,2) less.prems ih [of 1] ih [OF less.prems]
      by (cases "match_entry gai addr (snd (negation t))")
        (auto simp: addr_list_loop_step [of _ _ s] entry_result_def)
  qed
qed

definition cidr_entry_ok :: "(string \<Rightarrow> sockaddr option) \<Rightarrow> string \<Rightarrow> bool" where
  "cidr_entry_ok gai cp \<longleftrightarrow> cp \<noteq> [] \<and> length cp \<le> INET6_ADDRSTRLEN + 3 \<and> set cp \<subseteq> set VALID_CIDR_CHARS \<and>
     (\<exists>net l. addr_pton_cidr gai (Some cp) = CidrOk net l)"

lemma cidr_list_loop_None [simp]: "cidr_list_loop gai addr None r = r"
  by (simp add: cidr_list_loop.simps)

lemma cidr_list_loop_check:
  "r = 0 \<or> r = -1 \<Longrightarrow> cidr_list_loop gai None (Some s) r =
    (if r = 0 \<and> (\<forall>e \<in> set (comma_split s). cidr_entry_ok gai e) then 0 else -1)"
proof (induction "length s" arbitrary: s r rule: less_induct)
  case less
  have tw: "takeWhile (\<lambda>c. c \<in> set VALID_CIDR_CHARS) cp \<noteq> cp \<longleftrightarrow> \<not> set cp \<subseteq> set VALID_CIDR_CHARS" for cp
    by (auto simp: takeWhile_eq_all_conv)
  show ?case
  proof (cases rule: strsep_cases [of s])
    case (1 t)
    then show ?thesis using less.prems
      by (subst cidr_list_loop.simps) (auto simp: cidr_entry_ok_def Let_def tw split: cidr.split)
  next
    case (2 t q)
    note ih = less.hyps [OF 2(3)]
    have "cidr_list_loop gai None (Some s) r = (if cidr_entry_ok gai t then cidr_list_loop gai None (Some q) r else -1)"
      using 2(2) ih [of "-1"]
      by (subst cidr_list_loop.simps) (auto simp: cidr_entry_ok_def Let_def tw split: cidr.split)
    then show ?thesis unfolding ih [OF less.prems] 2(1) by simp
  qed
qed

section \<open>Properties\<close>

definition ex_sa4 :: "byte list \<Rightarrow> sockaddr" where
  "ex_sa4 bs = \<lparr>sa_family = AF_INET, sin_addr = bs, sin6_addr = replicate 16 0, sin6_scope_id = 0, sa_len = 16\<rparr>"

definition ex_sa6 :: "byte list \<Rightarrow> 32 word \<Rightarrow> sockaddr" where
  "ex_sa6 bs sc = \<lparr>sa_family = AF_INET6, sin_addr = replicate 4 0, sin6_addr = bs, sin6_scope_id = sc, sa_len = 28\<rparr>"

definition ex_gai :: "string \<Rightarrow> sockaddr option" where
  "ex_gai s = (if s = ''10.0.0.0'' then Some (ex_sa4 [10, 0, 0, 0])
     else if s = ''10.1.2.3'' then Some (ex_sa4 [10, 1, 2, 3])
     else if s = ''fe80::1%lo'' then Some (ex_sa6 ([0xfe, 0x80] @ replicate 13 0 @ [1]) 1)
     else None)"

lemma ex_gai_wf: "gai_wf ex_gai"
  by (simp add: gai_wf_def ex_gai_def ex_sa4_def ex_sa6_def)

definition ex_host :: xaddr where
  "ex_host = \<lparr>af = AF_INET, xa = [10, 1, 2, 3] @ replicate 12 0, scope_id = 0\<rparr>"

definition ex_net :: xaddr where
  "ex_net = \<lparr>af = AF_INET, xa = [10, 0, 0, 0] @ replicate 12 0, scope_id = 0\<rparr>"

lemma ex_pton: "addr_pton ex_gai (Some ''10.0.0.0'') = Some ex_net" "addr_pton ex_gai (Some ''10.1.2.3'') = Some ex_host"
  by (simp_all add: addr_pton_def ex_gai_def ex_sa4_def addr_sa_to_xaddr_def xaddr0_def ex_host_def ex_net_def)

lemma ex_cidr: "addr_pton_cidr ex_gai (Some ''10.0.0.0/8'') = CidrOk ex_net 8"
proof -
  have "strtoul10 ''8'' = (8, [])"
    by (simp add: strtoul10_def Let_def isspace_def isdigit_def digits_value_def SIZE_MAX_def)
  moreover have "addr_host_is_all0s ex_net 8"
    by (simp add: addr_host_is_all0s_def addr_hostmask_def addr_netmask_def masklen_valid_def xaddr0_def
        htonl_def addr_invert_def addr_and_def addr_is_all0s_def ex_net_def)
  ultimately show ?thesis
    by (simp add: addr_pton_cidr_def ex_pton cidr_check_def masklen_valid_def)
      (simp add: ex_net_def)
qed

definition ex_ll :: xaddr where
  "ex_ll = \<lparr>af = AF_INET6, xa = [0xfe, 0x80] @ replicate 13 0 @ [1], scope_id = 1\<rparr>"

lemma ex_link_local:
  "addr_pton ex_gai (Some ''fe80::1%lo'') = Some ex_ll"
  "addr_pton_cidr ex_gai (Some ''fe80::1%lo'') = CidrOk ex_ll 128"
  "addr_netmatch ex_ll ex_ll 128 = 0"
proof -
  show p: "addr_pton ex_gai (Some ''fe80::1%lo'') = Some ex_ll"
    by (simp add: addr_pton_def ex_gai_def ex_sa6_def addr_sa_to_xaddr_def xaddr0_def ex_ll_def)
  have wf: "xaddr_wf ex_ll" and f: "af ex_ll = AF_INET6" by (simp_all add: xaddr_wf_def ex_ll_def)
  have "addr_host_is_all0s ex_ll 128"
    using addr_host_is_all0s_bits [OF wf, of 128] by (simp add: f width_def)
  then show "addr_pton_cidr ex_gai (Some ''fe80::1%lo'') = CidrOk ex_ll 128"
    by (simp add: addr_pton_cidr_def p cidr_check_def addr_unicast_masklen_def f masklen_valid_def SIZE_MAX_def)
  show "addr_netmatch ex_ll ex_ll 128 = 0"
    using addr_netmatch_bits [OF wf wf, of 128] by (simp add: f width_def)
qed

text \<open>
  C11. CIDR matching is exact: for an entry that parses, \<^verbatim>\<open>addr_netmatch\<close> reports a match if and only if the
  address has the family of the network (and its scope, for IPv6) and the same first \<open>masklen\<close> bits.
\<close>

theorem cidr_match_exact:
  assumes "gai_wf gai" and "addr_pton_cidr gai p = CidrOk net l" and "xaddr_wf host"
  shows "addr_netmatch host net l = 0 \<longleftrightarrow> af host = af net \<and>
    (af net = AF_INET6 \<longrightarrow> scope_id host = scope_id net) \<and>
    (\<forall>k < l. nth_bit (xa host) k = nth_bit (xa net) k)"
proof -
  have n: "xaddr_wf net" "l \<le> width (af net)" "\<forall>k < width (af net). l \<le> k \<longrightarrow> \<not> nth_bit (xa net) k"
    using addr_pton_cidr_ok [OF assms(1,2)] by auto
  have "(\<forall>k < width (af net). nth_bit (xa net) k \<longleftrightarrow> k < l \<and> nth_bit (xa host) k) \<longleftrightarrow>
      (\<forall>k < l. nth_bit (xa host) k = nth_bit (xa net) k)"
    using n(2,3) by (meson less_le_trans not_less)
  then show ?thesis using addr_netmatch_bits [OF assms(3) n(1)] n(2) by auto
qed

theorem cidr_match_exact_witness:
  "addr_pton_cidr ex_gai (Some ''10.0.0.0/8'') = CidrOk ex_net 8 \<and> addr_netmatch ex_host ex_net 8 = 0"
proof -
  have "\<forall>k < 8. nth_bit (xa ex_host) k = nth_bit (xa ex_net) k"
    by (simp add: nth_bit_def ex_host_def ex_net_def)
  then show ?thesis
    using ex_cidr cidr_match_exact [OF ex_gai_wf ex_cidr, of ex_host]
    by (simp add: xaddr_wf_def ex_host_def ex_net_def)
qed

text \<open>
  C21. An address is accepted by a list (\<^verbatim>\<open>addr_match_list\<close> returns 1) if and only if it parses, no entry of
  the whole list is invalid, no negated entry matches it and some other entry does: the position of
  a negated or malformed entry does not matter.
\<close>

theorem addr_match_list_accepts:
  "addr_match_list gai True (Some a) list = 1 \<longleftrightarrow>
    (\<exists>t. addr_pton gai (Some a) = Some t \<and>
      (\<forall>e \<in> set (comma_split list). match_entry gai (Some (a, t)) (snd (negation e)) \<noteq> EntryInvalid \<and>
         \<not> entry_result gai (Some (a, t)) True e EntryHit) \<and>
      (\<exists>e \<in> set (comma_split list). entry_result gai (Some (a, t)) False e EntryHit))"
  using addr_list_loop_one [of 0 gai _ list] by (auto simp: addr_match_list_def split: option.split)

theorem addr_match_list_accepts_witness:
  "addr_match_list ex_gai True (Some ''10.1.2.3'') ''10.0.0.0/8,!192.*'' = 1"
proof -
  have e: "comma_split ''10.0.0.0/8,!192.*'' = [''10.0.0.0/8'', ''!192.*'']" by simp
  have m: "match_entry ex_gai (Some (''10.1.2.3'', ex_host)) ''10.0.0.0/8'' = EntryHit"
    by (simp add: match_entry_def ex_cidr addr_netmatch_def addr_netmask_def masklen_valid_def xaddr0_def htonl_def
        addr_and_def addr_cmp_def ex_host_def ex_net_def)
  have n: "match_entry ex_gai (Some (''10.1.2.3'', ex_host)) ''192.*'' = EntryMiss"
    by (simp add: match_entry_def addr_pton_cidr_def addr_pton_def ex_gai_def)
  show ?thesis unfolding addr_match_list_accepts e
    by (rule exI [of _ ex_host]) (simp add: ex_pton entry_result_def negation_def m n)
qed

text \<open>
  C22. Validating a CIDR list (\<^verbatim>\<open>addr_match_cidr_list\<close> with a NULL address) returns 0 if and only if every entry
  is non-empty, short enough, built from the permitted characters, and parses; otherwise -1.
\<close>

theorem addr_match_cidr_list_validates:
  "addr_match_cidr_list gai True None list =
     (if \<forall>e \<in> set (comma_split list). cidr_entry_ok gai e then 0 else -1)"
  by (simp add: addr_match_cidr_list_def cidr_list_loop_check)

theorem addr_match_cidr_list_validates_witness:
  "addr_match_cidr_list ex_gai True None ''10.0.0.0/8'' = 0"
  unfolding addr_match_cidr_list_validates
  by (simp add: cidr_entry_ok_def ex_cidr INET6_ADDRSTRLEN_def VALID_CIDR_CHARS_def)


end
