(* ===== verification/Bitmap.thy ===== *)
theory Bitmap
  imports Pkix_Prelude
begin

text \<open>
  The bitmaps of \<^verbatim>\<open>bitmap.c\<close>, used by the key revocation lists: an array of 32-bit words with the index
  of its top word. The operations are compared with a finite set of numbers, and the conversions to
  and from a big-endian string with the positions of the bits in it.
\<close>

unbundle bit_operations_syntax

section \<open>State and operations\<close>

record bitmap =
  d :: "32 word list"
  blen :: nat
  top :: nat

definition BITMAP_MAX :: nat where "BITMAP_MAX = 2 ^ 24"
definition BITMAP_BYTES :: nat where "BITMAP_BYTES = 4"
definition BITMAP_BITS :: nat where "BITMAP_BITS = 32"
definition BITMAP_WMASK :: nat where "BITMAP_WMASK = 31"

lemmas bitmap_consts = BITMAP_MAX_def BITMAP_BYTES_def BITMAP_BITS_def BITMAP_WMASK_def

definition bitmap_new :: "allocator \<Rightarrow> bool \<Rightarrow> bitmap option" where
  "bitmap_new A struct_ok =
    (if \<not> struct_ok then None
     else (case calloc A 1 BITMAP_BYTES of None \<Rightarrow> None
       | Some xs \<Rightarrow> Some \<lparr>d = xs, blen = 1, top = 0\<rparr>))"

definition bitmap_zero :: "bitmap \<Rightarrow> bitmap" where
  "bitmap_zero b = b\<lparr>d := replicate (blen b) 0 @ drop (blen b) (d b), top := 0\<rparr>"

text \<open>The array handed to \<^verbatim>\<open>free\<close>.\<close>

definition bitmap_free :: "bitmap option \<Rightarrow> 32 word list option" where
  "bitmap_free b = map_option (\<lambda>x. d (bitmap_zero x)) b"

definition bitmap_test_bit :: "bitmap \<Rightarrow> nat \<Rightarrow> bool" where
  "bitmap_test_bit b n =
    (if top b \<ge> blen b then False
     else if blen b = 0 \<or> n div BITMAP_BITS > top b then False
     else drop_bit (n AND BITMAP_WMASK) (d b ! (n div BITMAP_BITS)) AND 1 = 1)"

definition reserve :: "allocator \<Rightarrow> bitmap \<Rightarrow> nat \<Rightarrow> bool \<times> bitmap" where
  "reserve A b n =
    (if top b \<ge> blen b \<or> n > BITMAP_MAX then (False, b)
     else let nlen = n div BITMAP_BITS + 1 in
       if blen b < nlen then
         (case recallocarray A (Some (d b)) (blen b) nlen BITMAP_BYTES of
            None \<Rightarrow> (False, b)
          | Some tmp \<Rightarrow> (True, b\<lparr>d := tmp, blen := nlen\<rparr>))
       else (True, b))"

definition bitmap_set_bit :: "allocator \<Rightarrow> bitmap \<Rightarrow> nat \<Rightarrow> bool \<times> bitmap" where
  "bitmap_set_bit A b n =
    (case reserve A b n of
       (False, b1) \<Rightarrow> (False, b1)
     | (True, b1) \<Rightarrow>
        let offset = n div BITMAP_BITS;
            b2 = (if offset > top b1 then b1\<lparr>top := offset\<rparr> else b1)
        in (True, b2\<lparr>d := (d b2)[offset := d b2 ! offset OR push_bit (n AND BITMAP_WMASK) 1]\<rparr>))"

fun retop_loop :: "32 word list \<Rightarrow> nat \<Rightarrow> nat" where
  "retop_loop xs 0 = 0"
| "retop_loop xs (Suc t) = (if xs ! Suc t = 0 then retop_loop xs t else Suc t)"

definition retop :: "bitmap \<Rightarrow> bitmap" where
  "retop b = (if top b \<ge> blen b then b else b\<lparr>top := retop_loop (d b) (top b)\<rparr>)"

definition bitmap_clear_bit :: "bitmap \<Rightarrow> nat \<Rightarrow> bitmap" where
  "bitmap_clear_bit b n =
    (if top b \<ge> blen b \<or> n > BITMAP_MAX then b
     else let offset = n div BITMAP_BITS in
       if offset > top b then b
       else retop (b\<lparr>d := (d b)[offset := d b ! offset AND NOT (push_bit (n AND BITMAP_WMASK) 1)]\<rparr>))"

text \<open>The search for the top bit does not end on a zero word, so its result is an option.\<close>

partial_function (option) msb_loop :: "32 word \<Rightarrow> nat \<Rightarrow> nat option" where
  [code]: "msb_loop w bits =
    (if w AND push_bit (BITMAP_BITS - 1) 1 \<noteq> 0 then Some bits else msb_loop (push_bit 1 w) (bits - 1))"

definition bitmap_nbits :: "bitmap \<Rightarrow> nat option \<times> bitmap" where
  "bitmap_nbits b =
    (let b1 = retop b in
     if top b1 \<ge> blen b1 then (Some 0, b1)
     else if blen b1 = 0 \<or> (top b1 = 0 \<and> d b1 ! 0 = 0) then (Some 0, b1)
     else (msb_loop (d b1 ! top b1) ((top b1 + 1) * BITMAP_BITS), b1))"

definition bitmap_nbytes :: "bitmap \<Rightarrow> nat option \<times> bitmap" where
  "bitmap_nbytes b = (case bitmap_nbits b of (n, b1) \<Rightarrow> (map_option (\<lambda>x. (x + 7) div 8) n, b1))"

text \<open>The two loops of \<^verbatim>\<open>bitmap_to_string\<close>: byte \<open>j\<close> of word \<open>i\<close> goes to \<^verbatim>\<open>s[need - 1 - k]\<close>.\<close>

fun put_word :: "32 word \<Rightarrow> nat \<Rightarrow> nat \<Rightarrow> nat \<Rightarrow> nat \<Rightarrow> byte list \<Rightarrow> nat \<times> byte list" where
  "put_word w 0 l need k s = (k, s)"
| "put_word w (Suc r) l need k s =
    (if k \<ge> l then (k, s)
     else put_word w r l need (k + 1)
       (s[need - 1 - k := ucast (drop_bit ((BITMAP_BYTES - Suc r) * 8) w AND 0xff)]))"

fun put_words :: "32 word list \<Rightarrow> nat \<Rightarrow> nat \<Rightarrow> nat \<Rightarrow> byte list \<Rightarrow> nat \<times> byte list" where
  "put_words [] l need k s = (k, s)"
| "put_words (w # ws) l need k s =
    (case put_word w BITMAP_BYTES l need k s of (k1, s1) \<Rightarrow> put_words ws l need k1 s1)"

text \<open>\<open>s\<close> is the caller's array of at least \<open>l\<close> bytes; the result is \<open>None\<close> if the length loop does not
  end, and otherwise the return value with the array after the call.\<close>

definition bitmap_to_string :: "bitmap \<Rightarrow> byte list \<Rightarrow> nat \<Rightarrow> (bool \<times> byte list) option \<times> bitmap" where
  "bitmap_to_string b s l =
    (case bitmap_nbytes b of
       (None, b1) \<Rightarrow> (None, b1)
     | (Some need, b1) \<Rightarrow>
        if l < need \<or> top b1 \<ge> blen b1 then (Some (False, s), b1)
        else let l1 = (if l > need then need else l)
          in (Some (True, snd (put_words (take (top b1 + 1) (d b1)) l1 need 0 s)), b1))"

fun from_loop :: "byte list \<Rightarrow> 32 word list \<Rightarrow> nat \<Rightarrow> nat \<Rightarrow> 32 word list" where
  "from_loop [] xs offset shift = xs"
| "from_loop (c # s) xs offset shift =
    (let xs1 = xs[offset := xs ! offset OR push_bit shift (ucast c)] in
     if shift = 0 then from_loop s xs1 (size_sub offset 1) (BITMAP_BITS - 8)
     else from_loop s xs1 offset (shift - 8))"

definition bitmap_from_string :: "allocator \<Rightarrow> bitmap \<Rightarrow> byte list \<Rightarrow> bool \<times> bitmap" where
  "bitmap_from_string A b s =
    (let l = length s in
     if l > BITMAP_MAX div 8 then (False, b)
     else (case reserve A b (l * 8) of
        (False, b1) \<Rightarrow> (False, b1)
      | (True, b1) \<Rightarrow>
         let b2 = bitmap_zero b1 in
         if l = 0 then (True, b2)
         else let offset = (l + (BITMAP_BYTES - 1)) div BITMAP_BYTES - 1;
                  shift = ((l + (BITMAP_BYTES - 1)) mod BITMAP_BYTES) * 8
           in (True, retop (b2\<lparr>top := offset, d := from_loop s (d b2) offset shift\<rparr>))))"

section \<open>The set of a bitmap\<close>

definition bits :: "bitmap \<Rightarrow> nat set" where
  "bits b = {n. n div 32 \<le> top b \<and> bit (d b ! (n div 32)) (n mod 32)}"

definition bitmap_wf :: "bitmap \<Rightarrow> bool" where
  "bitmap_wf b \<longleftrightarrow> length (d b) = blen b \<and> top b < blen b \<and> blen b \<le> 2 ^ 19 + 1 \<and>
     (\<forall>i. top b < i \<and> i < blen b \<longrightarrow> d b ! i = 0)"

lemma and_31 [simp]: "n AND 31 = n mod (32 :: nat)"
  using take_bit_eq_mask [of 5 n] by (simp add: take_bit_eq_mod mask_eq_exp_minus_1)

lemma mod_32_lt [simp]: "n mod 32 < (32 :: nat)"
  by simp

lemma bits_iff: "bitmap_wf b \<Longrightarrow> n \<in> bits b \<longleftrightarrow> n div 32 < blen b \<and> bit (d b ! (n div 32)) (n mod 32)"
  unfolding bits_def bitmap_wf_def by (cases "n div 32 \<le> top b") auto

lemma test_bit_mask: "drop_bit k w AND 1 = 1 \<longleftrightarrow> bit (w :: 32 word) k"
  by (simp add: bit_iff_odd_drop_bit and_one_eq odd_iff_mod_2_eq_one)

lemma bitmap_test_bit_iff: "bitmap_wf b \<Longrightarrow> bitmap_test_bit b n \<longleftrightarrow> n \<in> bits b"
  by (auto simp: bitmap_test_bit_def bits_def bitmap_wf_def bitmap_consts test_bit_mask)

lemma bitmap_new_wf: "bitmap_new A ok = Some b \<Longrightarrow> bitmap_wf b \<and> bits b = {}"
  by (auto simp: bitmap_new_def bitmap_wf_def bits_def calloc_def split: option.splits if_splits)

lemma bitmap_zero_wf: "bitmap_wf b \<Longrightarrow> bitmap_wf (bitmap_zero b) \<and> bits (bitmap_zero b) = {}"
  by (auto simp: bitmap_zero_def bitmap_wf_def bits_def)

lemma retop_loop_le: "retop_loop xs t \<le> t"
  by (induction t) auto

lemma retop_loop_zero: "retop_loop xs t < i \<Longrightarrow> i \<le> t \<Longrightarrow> xs ! i = 0"
  by (induction t) (auto simp: le_Suc_eq split: if_splits)

lemma retop_loop_nonzero: "0 < retop_loop xs t \<Longrightarrow> xs ! retop_loop xs t \<noteq> 0"
  by (induction t) auto

lemma retop_wf:
  assumes "bitmap_wf b"
  shows "bitmap_wf (retop b)" and "bits (retop b) = bits b" and "d (retop b) = d b" and "blen (retop b) = blen b"
    and "0 < top (retop b) \<Longrightarrow> d b ! top (retop b) \<noteq> 0"
proof -
  let ?t = "retop_loop (d b) (top b)"
  have r: "retop b = b\<lparr>top := ?t\<rparr>" using assms by (auto simp: retop_def bitmap_wf_def)
  have z: "d b ! i = 0" if "?t < i" "i < blen b" for i
    using assms retop_loop_zero [of "d b" "top b" i] that by (cases "i \<le> top b") (auto simp: bitmap_wf_def)
  show wf: "bitmap_wf (retop b)"
    using assms z retop_loop_le [of "d b" "top b"] by (auto simp: r bitmap_wf_def)
  show "bits (retop b) = bits b"
    using bits_iff [OF wf] bits_iff [OF assms] by (auto simp: r)
  show "d (retop b) = d b" "blen (retop b) = blen b" by (simp_all add: r)
  show "d b ! top (retop b) \<noteq> 0" if "0 < top (retop b)"
    using retop_loop_nonzero [of "d b" "top b"] that by (simp add: r)
qed

lemma reserve_wf:
  assumes wf: "bitmap_wf b" and run: "reserve A b n = (ok, b')"
  shows "bitmap_wf b' \<and> bits b' = bits b \<and> top b' = top b \<and> blen b \<le> blen b' \<and> (ok \<longrightarrow> n div 32 < blen b') \<and>
    (BITMAP_MAX < n \<longrightarrow> \<not> ok)"
proof (cases "n > BITMAP_MAX \<or> n div 32 < blen b")
  case True
  then show ?thesis using wf run
    by (auto simp: reserve_def bitmap_wf_def Let_def bitmap_consts split: if_splits)
next
  case False
  then have n: "n \<le> BITMAP_MAX" "blen b < n div 32 + 1" by auto
  show ?thesis
  proof (cases "recallocarray A (Some (d b)) (blen b) (n div 32 + 1) BITMAP_BYTES")
    case None
    then show ?thesis using wf run n by (auto simp: reserve_def bitmap_wf_def BITMAP_BITS_def)
  next
    case (Some tmp)
    have len: "length (d b) = blen b" and top: "top b < blen b" using wf by (auto simp: bitmap_wf_def)
    have t: "tmp = d b @ replicate (n div 32 + 1 - blen b) 0"
      using recallocarray_grow [of A "d b" "n div 32 + 1" BITMAP_BYTES tmp] Some n len
      by (simp add: BITMAP_BYTES_def)
    have b': "b' = b\<lparr>d := tmp, blen := n div 32 + 1\<rparr>" and ok: "ok"
      using run Some n top by (auto simp: reserve_def BITMAP_BITS_def)
    have "n div 32 + 1 \<le> 2 ^ 19 + 1" using n(1) by (simp add: BITMAP_MAX_def div_le_mono [of n "2 ^ 24" 32, simplified])
    then have wf': "bitmap_wf b'"
      using wf n(2) by (auto simp: b' bitmap_wf_def t nth_append)
    have "bits b' = bits b" using top len by (auto simp: bits_def b' t nth_append)
    then show ?thesis using wf' n ok by (simp add: b')
  qed
qed

lemma reserve_total:
  assumes "bitmap_wf b" and "n \<le> BITMAP_MAX" and "\<forall>k. malloc_ok A k"
  shows "\<exists>b'. reserve A b n = (True, b')"
proof -
  have "n div 32 + 1 < MUL_NO_OVERFLOW" "length (d b) < MUL_NO_OVERFLOW"
    using assms(1,2) by (auto simp: BITMAP_MAX_def MUL_NO_OVERFLOW_def bitmap_wf_def)
  then obtain ys where "recallocarray A (Some (d b)) (length (d b)) (n div 32 + 1) 4 = Some ys"
    using recallocarray_ok [OF assms(3), of "n div 32 + 1" "d b" 4] by (auto simp: MUL_NO_OVERFLOW_def)
  then show ?thesis using assms by (auto simp: reserve_def bitmap_wf_def Let_def bitmap_consts)
qed

lemma bits_update:
  assumes wf: "bitmap_wf b" and o: "o1 < blen b"
    and b': "d b' = (d b)[o1 := w]" "blen b' = blen b" "top b' = max o1 (top b)"
  shows "bitmap_wf b'" and "bits b' = {n. if n div 32 = o1 then bit w (n mod 32) else n \<in> bits b}"
proof -
  show wf': "bitmap_wf b'" using wf o b' by (auto simp: bitmap_wf_def)
  show "bits b' = {n. if n div 32 = o1 then bit w (n mod 32) else n \<in> bits b}"
  proof (rule set_eqI)
    fix n
    have l: "length (d b) = blen b" using wf by (simp add: bitmap_wf_def)
    show "n \<in> bits b' \<longleftrightarrow> n \<in> {n. if n div 32 = o1 then bit w (n mod 32) else n \<in> bits b}"
      using o l by (cases "n div 32 = o1") (simp_all add: bits_iff [OF wf'] bits_iff [OF wf] b')
  qed
qed

lemma bit_set_word: "k < 32 \<Longrightarrow> bit (w OR 2 ^ k) j \<longleftrightarrow> bit (w :: 32 word) j \<or> j = k"
  by (auto simp: bit_simps)

lemma bit_clear_word: "bit (w AND NOT (2 ^ k)) j \<longleftrightarrow> bit (w :: 32 word) j \<and> j \<noteq> k"
  by (auto simp: bit_simps dest: bit_imp_le_length)

lemma same_word: "n div 32 = m div 32 \<Longrightarrow> n mod 32 = m mod 32 \<longleftrightarrow> n = (m :: nat)"
  by (metis mult_div_mod_eq)

lemma set_word_insert:
  assumes "bitmap_wf b" and "n div 32 < blen b"
  shows "{m. if m div 32 = n div 32 then bit (d b ! (n div 32)) (m mod 32) \<or> m mod 32 = n mod 32 else m \<in> bits b} =
    insert n (bits b)" (is "?S = _")
    and "{m. if m div 32 = n div 32 then bit (d b ! (n div 32)) (m mod 32) \<and> m mod 32 \<noteq> n mod 32 else m \<in> bits b} =
    bits b - {n}" (is "?D = _")
proof -
  have "m \<in> ?S \<longleftrightarrow> m = n \<or> m \<in> bits b" "m \<in> ?D \<longleftrightarrow> m \<in> bits b \<and> m \<noteq> n" for m
  proof (atomize(full), cases "m div 32 = n div 32")
    case True
    then show "(m \<in> ?S \<longleftrightarrow> m = n \<or> m \<in> bits b) \<and> (m \<in> ?D \<longleftrightarrow> m \<in> bits b \<and> m \<noteq> n)"
      using same_word [OF True] assms(2) bits_iff [OF assms(1), of m] by auto
  next
    case False
    then show "(m \<in> ?S \<longleftrightarrow> m = n \<or> m \<in> bits b) \<and> (m \<in> ?D \<longleftrightarrow> m \<in> bits b \<and> m \<noteq> n)" by auto
  qed
  then show "?S = insert n (bits b)" and "?D = bits b - {n}" by blast+
qed

lemma bitmap_set_bit_correct:
  assumes wf: "bitmap_wf b" and run: "bitmap_set_bit A b n = (ok, b')"
  shows "bitmap_wf b' \<and> bits b' = (if ok then insert n (bits b) else bits b) \<and> (BITMAP_MAX < n \<longrightarrow> \<not> ok)"
proof -
  obtain ok1 b1 where r: "reserve A b n = (ok1, b1)" by force
  note rw = reserve_wf [OF wf r]
  show ?thesis
  proof (cases ok1)
    case False
    then show ?thesis using run r rw by (auto simp: bitmap_set_bit_def)
  next
    case True
    have o: "n div 32 < blen b1" using rw True by blast
    have f: "ok" "d b' = (d b1)[n div 32 := d b1 ! (n div 32) OR push_bit (n mod 32) 1]" "blen b' = blen b1"
        "top b' = max (n div 32) (top b1)"
      using run r True by (auto simp: bitmap_set_bit_def Let_def bitmap_consts)
    have wf1: "bitmap_wf b1" using rw by blast
    have "bits b' = {m. if m div 32 = n div 32 then bit (d b1 ! (n div 32)) (m mod 32) \<or> m mod 32 = n mod 32
        else m \<in> bits b1}"
      using bits_update(2) [OF wf1 o f(2-4)] by (simp add: bit_set_word)
    also have "\<dots> = insert n (bits b1)" by (rule set_word_insert(1) [OF wf1 o])
    finally show ?thesis using bits_update(1) [OF wf1 o f(2-4)] rw f(1) True by auto
  qed
qed

lemma bitmap_clear_bit_correct:
  assumes wf: "bitmap_wf b" and n: "n \<le> BITMAP_MAX"
  shows "bitmap_wf (bitmap_clear_bit b n) \<and> bits (bitmap_clear_bit b n) = bits b - {n}"
proof (cases "n div 32 \<le> top b")
  case False
  then show ?thesis using wf n by (auto simp: bitmap_clear_bit_def bits_def bitmap_consts Let_def)
next
  case True
  have top: "top b < blen b" using wf by (simp add: bitmap_wf_def)
  then have o: "n div 32 < blen b" using True by linarith
  let ?b = "b\<lparr>d := (d b)[n div 32 := d b ! (n div 32) AND NOT (push_bit (n mod 32) 1)]\<rparr>"
  have e: "bitmap_clear_bit b n = retop ?b"
    using True top n by (simp add: bitmap_clear_bit_def bitmap_consts Let_def)
  have t: "d ?b = (d b)[n div 32 := d b ! (n div 32) AND NOT (push_bit (n mod 32) 1)]" "blen ?b = blen b"
      "top ?b = max (n div 32) (top b)"
    using True by simp_all
  have "bits ?b = {m. if m div 32 = n div 32 then bit (d b ! (n div 32)) (m mod 32) \<and> m mod 32 \<noteq> n mod 32
        else m \<in> bits b}"
    using bits_update(2) [OF wf o t] by (simp add: bit_clear_word)
  also have "\<dots> = bits b - {n}" by (rule set_word_insert(2) [OF wf o])
  finally show ?thesis using retop_wf(1,2) [OF bits_update(1) [OF wf o t]] e by simp
qed

section \<open>Length\<close>

lemma top_bit_exists:
  assumes "w \<noteq> (0 :: 32 word)"
  obtains m where "m < 32" "bit w m" "\<And>j. m < j \<Longrightarrow> \<not> bit w j"
proof -
  let ?B = "{j. bit w j}"
  have sub: "?B \<subseteq> {..<32}" by (auto dest: bit_imp_le_length)
  then have fin: "finite ?B" using finite_subset by blast
  have "?B \<noteq> {}" using assms by (auto simp: bit_eq_iff)
  then have mx: "Max ?B \<in> ?B" using fin by (rule Max_in [rotated])
  have up: "\<not> bit w j" if "Max ?B < j" for j
  proof
    assume "bit w j"
    then have "j \<le> Max ?B" using fin by (intro Max_ge) simp_all
    then show False using that by simp
  qed
  have "Max ?B < 32" "bit w (Max ?B)" using mx sub by blast+
  then show thesis using up by (rule that)
qed

lemma msb_loop_step: "msb_loop w n = (if bit w 31 then Some n else msb_loop (push_bit 1 w) (n - 1))"
proof -
  have "w AND push_bit (BITMAP_BITS - 1) 1 \<noteq> 0 \<longleftrightarrow> bit w 31"
    using and_exp_eq_0_iff_not_bit [of w 31] by (simp add: BITMAP_BITS_def)
  then show ?thesis by (subst msb_loop.simps) (simp only:)
qed

lemma msb_loop_top:
  "m < 32 \<Longrightarrow> bit w m \<Longrightarrow> (\<And>j. m < j \<Longrightarrow> \<not> bit w j) \<Longrightarrow> msb_loop w n = Some (n - (31 - m))"
proof (induction "31 - m" arbitrary: m w n)
  case 0
  then have "m = 31" by simp
  then show ?case using 0 by (subst msb_loop_step) simp
next
  case (Suc x)
  then have m: "m < 31" by simp
  have "\<not> bit w 31" using Suc.prems(3) m by blast
  then have "msb_loop w n = msb_loop (push_bit 1 w) (n - 1)"
    by (subst msb_loop_step) simp
  also have "\<dots> = Some (n - 1 - (31 - (m + 1)))"
  proof (rule Suc.hyps(1))
    have pb: "bit (push_bit 1 w) j \<longleftrightarrow> 1 \<le> j \<and> j < 32 \<and> bit w (j - 1)" for j
      by (simp only: bit_push_bit_iff possible_bit_word) simp
    show "bit (push_bit 1 w) (m + 1)" using m Suc.prems(2) by (simp only: pb) simp
    show "\<not> bit (push_bit 1 w) j" if "m + 1 < j" for j
      using Suc.prems(3) [of "j - 1"] that by (simp only: pb) simp
  qed (use Suc.hyps(2) m in simp_all)
  finally show ?case using m by simp
qed

lemma finite_bits [simp]: "finite (bits b)"
proof -
  have "bits b \<subseteq> {..< 32 * (top b + 1)}" by (auto simp: bits_def)
  then show ?thesis using finite_subset by blast
qed

definition bits_length :: "bitmap \<Rightarrow> nat" where
  "bits_length b = (if bits b = {} then 0 else Suc (Max (bits b)))"

lemma bits_length_bound: "n \<in> bits b \<Longrightarrow> n < bits_length b"
  by (auto simp: bits_length_def le_imp_less_Suc)

lemma bitmap_nbits_correct:
  assumes wf: "bitmap_wf b" shows "bitmap_nbits b = (Some (bits_length b), retop b)"
proof -
  note r = retop_wf [OF wf]
  have top: "top (retop b) < blen b" using r(1,4) by (simp add: bitmap_wf_def)
  show ?thesis
  proof (cases "top (retop b) = 0 \<and> d b ! 0 = 0")
    case True
    then have "bits (retop b) = {}" using r(3) by (auto simp: bits_def)
    then show ?thesis using True top r by (simp add: bitmap_nbits_def Let_def bits_length_def)
  next
    case False
    let ?t = "top (retop b)"
    have "d b ! ?t \<noteq> 0" using r(5) False by (cases "?t = 0") auto
    then obtain m where m: "m < 32" "bit (d b ! ?t) m" "\<And>j. m < j \<Longrightarrow> \<not> bit (d b ! ?t) j"
      using top_bit_exists by metis
    have mem: "32 * ?t + m \<in> bits b" unfolding r(2) [symmetric] using m r(3) by (simp add: bits_def)
    have "Max (bits b) = 32 * ?t + m"
    proof (rule Max_eqI)
      show "32 * ?t + m \<in> bits b" by (rule mem)
      fix n assume "n \<in> bits b"
      then have n: "n div 32 \<le> ?t" "bit (d b ! (n div 32)) (n mod 32)"
        unfolding r(2) [symmetric] using r(3) by (auto simp: bits_def)
      have "n mod 32 \<le> m" if "n div 32 = ?t" using m(3) [of "n mod 32"] n(2) that by force
      then show "n \<le> 32 * ?t + m" using n(1) mult_div_mod_eq [of 32 n] mod_less_divisor [of 32 n]
        by (cases "n div 32 = ?t") linarith+
    qed simp
    moreover have "bits b \<noteq> {}" using mem by blast
    ultimately have "bits_length b = (?t + 1) * 32 - (31 - m)" using m(1) by (simp add: bits_length_def)
    moreover have "msb_loop (d b ! ?t) ((?t + 1) * 32) = Some ((?t + 1) * 32 - (31 - m))" by (rule msb_loop_top [OF m])
    ultimately show ?thesis using False top unfolding bitmap_nbits_def Let_def r(3,4) BITMAP_BITS_def by auto
  qed
qed

section \<open>Strings\<close>

text \<open>The bytes of the words in the order in which \<^verbatim>\<open>bitmap_to_string\<close> stores them, from the end of the string.\<close>

definition word_bytes :: "32 word \<Rightarrow> byte list" where
  "word_bytes w = [ucast w, ucast (drop_bit 8 w), ucast (drop_bit 16 w), ucast (drop_bit 24 w)]"

fun put_bytes :: "byte list \<Rightarrow> nat \<Rightarrow> nat \<Rightarrow> nat \<Rightarrow> byte list \<Rightarrow> nat \<times> byte list" where
  "put_bytes [] l need k s = (k, s)"
| "put_bytes (c # cs) l need k s =
    (if k \<ge> l then (k, s) else put_bytes cs l need (k + 1) (s[need - 1 - k := c]))"

lemma put_bytes_append:
  "put_bytes (xs @ ys) l need k s = (case put_bytes xs l need k s of (k1, s1) \<Rightarrow> put_bytes ys l need k1 s1)"
proof (induction xs arbitrary: k s)
  case (Cons x xs)
  have "put_bytes ys l need k s = (k, s)" if "l \<le> k" using that by (cases ys) auto
  then show ?case using Cons by auto
qed simp

lemma ucast_and_byte: "(ucast (x AND 0xff) :: byte) = ucast (x :: 32 word)"
proof -
  have "x AND 0xff = take_bit 8 x" by (simp add: take_bit_eq_mask mask_eq_exp_minus_1)
  then show ?thesis by (simp add: unsigned_take_bit_eq take_bit_word_eq_self)
qed

lemma put_word_bytes: "put_word w BITMAP_BYTES l need k s = put_bytes (word_bytes w) l need k s"
  by (simp add: BITMAP_BYTES_def numeral_eq_Suc word_bytes_def ucast_and_byte)

lemma put_words_bytes: "put_words ws l need k s = put_bytes (concat (map word_bytes ws)) l need k s"
  by (induction ws arbitrary: k s) (simp_all add: put_word_bytes put_bytes_append split: prod.split)

lemma length_put_bytes [simp]: "length (snd (put_bytes cs l need k s)) = length s"
  by (induction cs arbitrary: k s) auto

lemma nth_put_bytes:
  assumes "need \<le> length s" and "j < need"
  shows "snd (put_bytes cs need need k s) ! (need - 1 - j) =
    (if k \<le> j \<and> j < k + length cs then cs ! (j - k) else s ! (need - 1 - j))"
  using assms
proof (induction cs arbitrary: k s)
  case (Cons c cs)
  consider "need \<le> k" | "k < need" "j < k" | "k < need" "j = k" | "k < need" "k < j" by linarith
  then show ?case
  proof cases
    case 3
    then show ?thesis using Cons by simp
  next
    case 4
    then have "(c # cs) ! (j - k) = cs ! (j - (k + 1))" by (simp add: nth_Cons')
    then show ?thesis using 4 Cons by auto
  qed (use Cons in auto)
qed auto

lemma length_concat_word_bytes: "length (concat (map word_bytes ws)) = 4 * length ws"
  by (induction ws) (simp_all add: word_bytes_def)

lemma nth_concat_word_bytes:
  "j < 4 * length ws \<Longrightarrow> concat (map word_bytes ws) ! j = ucast (drop_bit (8 * (j mod 4)) (ws ! (j div 4)))"
proof (induction ws arbitrary: j)
  case (Cons w ws)
  show ?case
  proof (cases "j < 4")
    case True
    then consider "j = 0" | "j = 1" | "j = 2" | "j = 3" by linarith
    then show ?thesis by cases (simp_all add: word_bytes_def)
  next
    case False
    then obtain i where i: "j = 4 + i" using le_Suc_ex not_less by blast
    then have "j div 4 = Suc (i div 4)" by simp
    then show ?thesis using Cons i by (simp add: nth_append word_bytes_def)
  qed
qed simp

text \<open>Bit \<open>n\<close> of a big-endian string.\<close>

definition be_bit :: "byte list \<Rightarrow> nat \<Rightarrow> bool" where
  "be_bit s n \<longleftrightarrow> n div 8 < length s \<and> bit (s ! (length s - 1 - n div 8)) (n mod 8)"

definition wbit :: "32 word list \<Rightarrow> nat \<Rightarrow> bool" where
  "wbit xs n = bit (xs ! (n div 32)) (n mod 32)"

lemma byte_position:
  fixes n :: nat
  shows "n div 8 div 4 = n div 32" and "8 * (n div 8 mod 4) + n mod 8 = n mod 32"
  by (simp_all add: div_mult2_eq [symmetric]) (metis mod_mult2_eq mult.commute add.commute
      numeral_times_numeral semiring_norm(12) semiring_norm(13))

lemma wbit_byte:
  assumes "n div 8 < 4 * length ws"
  shows "bit (concat (map word_bytes ws) ! (n div 8)) (n mod 8) \<longleftrightarrow> wbit ws n"
  using byte_position [of n]
  by (simp add: nth_concat_word_bytes [OF assms] bit_simps wbit_def)

definition bits_bytes :: "bitmap \<Rightarrow> nat" where
  "bits_bytes b = (bits_length b + 7) div 8"

lemma bitmap_nbytes_correct: "bitmap_wf b \<Longrightarrow> bitmap_nbytes b = (Some (bits_bytes b), retop b)"
  by (simp add: bitmap_nbytes_def bitmap_nbits_correct bits_bytes_def)

lemma bits_length_le: "bits_length b \<le> 32 * (top b + 1)"
proof (cases "bits b = {}")
  case False
  then have "Max (bits b) \<in> bits b" by (rule Max_in [OF finite_bits])
  then have "Max (bits b) div 32 \<le> top b" by (simp add: bits_def)
  moreover have "Suc n \<le> 32 * (t + 1)" if "n div 32 \<le> t" for n t :: nat
    using that div_less_iff_less_mult [of 32 n "t + 1"] by simp
  ultimately have "Suc (Max (bits b)) \<le> 32 * (top b + 1)" by blast
  then show ?thesis using False by (simp only: bits_length_def if_False)
qed (simp add: bits_length_def)

lemma bits_bytes_bound: "n \<in> bits b \<Longrightarrow> n div 8 < bits_bytes b"
  using bits_length_bound [of n b] by (simp add: bits_bytes_def)

lemma bitmap_to_string_correct:
  assumes wf: "bitmap_wf b" and s: "bits_bytes b \<le> l" "l \<le> length s"
  shows "\<exists>s'. bitmap_to_string b s l = (Some (True, s'), retop b) \<and> length s' = length s \<and>
    (\<forall>n. be_bit (take (bits_bytes b) s') n \<longleftrightarrow> n \<in> bits b)"
proof -
  note r = retop_wf [OF wf]
  let ?need = "bits_bytes b" and ?ws = "take (top (retop b) + 1) (d b)"
  define s' where "s' = snd (put_words ?ws ?need ?need 0 s)"
  have top: "top (retop b) < blen b" "length (d b) = blen b" using r(1,3,4) by (auto simp: bitmap_wf_def)
  then have lw: "length ?ws = top (retop b) + 1" by simp
  have "bits_length b = bits_length (retop b)" by (simp add: bits_length_def r(2))
  then have "bits_length b \<le> 32 * length ?ws" using bits_length_le [of "retop b"] lw by simp
  then have need: "?need \<le> 4 * length ?ws" by (simp add: bits_bytes_def)
  have run: "bitmap_to_string b s l = (Some (True, s'), retop b)"
    using s top r(3,4) by (auto simp: bitmap_to_string_def bitmap_nbytes_correct [OF wf] Let_def s'_def)
  have len: "length s' = length s" by (simp add: s'_def put_words_bytes)
  have "be_bit (take ?need s') n \<longleftrightarrow> n \<in> bits b" for n
  proof (cases "n div 8 < ?need")
    case True
    have lt: "length (take ?need s') = ?need" using len s by simp
    have "take ?need s' ! (?need - 1 - n div 8) = s' ! (?need - 1 - n div 8)" using True by simp
    also have "\<dots> = concat (map word_bytes ?ws) ! (n div 8)"
      using nth_put_bytes [of ?need s "n div 8" "concat (map word_bytes ?ws)" 0] True s need
      by (simp add: s'_def put_words_bytes length_concat_word_bytes)
    finally have "be_bit (take ?need s') n \<longleftrightarrow> wbit ?ws n"
      using True lt need wbit_byte [of n ?ws] by (simp add: be_bit_def)
    moreover have "n div 32 < length ?ws" using True need byte_position(1) [of n] by linarith
    moreover have "n \<in> bits b \<longleftrightarrow> n \<in> bits (retop b)" using r(2) by simp
    ultimately show ?thesis using lw r(3) by (auto simp: wbit_def bits_def)
  next
    case False
    then show ?thesis using bits_bytes_bound [of n b] by (auto simp: be_bit_def)
  qed
  then show ?thesis using run len by blast
qed

lemma wbit_or_byte:
  assumes "n div 32 < length xs" and "p div 4 < length xs"
  shows "wbit (xs[p div 4 := xs ! (p div 4) OR push_bit (p mod 4 * 8) (ucast (c :: byte))]) n \<longleftrightarrow>
    wbit xs n \<or> (n div 8 = p \<and> bit c (n mod 8))"
proof (cases "n div 32 = p div 4")
  case False
  then have "n div 8 \<noteq> p" using byte_position(1) [of n] by auto
  then show ?thesis using False by (simp add: wbit_def)
next
  case True
  let ?b = "n div 8 mod 4" and ?q = "p mod 4"
  have n: "n mod 32 = 8 * ?b + n mod 8" using byte_position(2) [of n] by simp
  have eq: "n div 8 = p \<longleftrightarrow> ?b = ?q" using True byte_position(1) [of n] by (metis mult_div_mod_eq)
  have bt: "bit (push_bit (?q * 8) (ucast c) :: 32 word) (n mod 32) \<longleftrightarrow>
      ?q * 8 \<le> n mod 32 \<and> bit c (n mod 32 - ?q * 8)"
    by (auto simp: bit_simps)
  have "bit c (n mod 32 - ?q * 8) \<and> ?q * 8 \<le> n mod 32 \<longleftrightarrow> ?b = ?q \<and> bit c (n mod 8)"
  proof (cases "?b = ?q")
    case neq: False
    then consider "?b < ?q" | "?q < ?b" by linarith
    then show ?thesis
    proof cases
      case 1
      have "n mod 8 < 8" by simp
      then have "\<not> ?q * 8 \<le> n mod 32" using 1 n by linarith
      then show ?thesis using neq by simp
    next
      case 2
      then have "8 \<le> n mod 32 - ?q * 8" using n by linarith
      then have "\<not> bit c (n mod 32 - ?q * 8)" by (auto dest: bit_imp_le_length)
      then show ?thesis using neq by simp
    qed
  qed (simp add: n)
  then show ?thesis using True assms(2) eq bt by (auto simp: wbit_def bit_or_iff)
qed

lemma from_loop_correct:
  assumes "s \<noteq> [] \<Longrightarrow> (length s - 1) div 4 < length xs" and "n div 32 < length xs"
  shows "length (from_loop s xs ((length s - 1) div 4) ((length s - 1) mod 4 * 8)) = length xs \<and>
    (wbit (from_loop s xs ((length s - 1) div 4) ((length s - 1) mod 4 * 8)) n \<longleftrightarrow> wbit xs n \<or> be_bit s n)"
  using assms
proof (induction s arbitrary: xs)
  case (Cons c s)
  let ?p = "length s"
  let ?xs = "xs[?p div 4 := xs ! (?p div 4) OR push_bit (?p mod 4 * 8) (ucast c)]"
  have p: "?p div 4 < length xs" using Cons.prems(1) by simp
  have be: "be_bit (c # s) n \<longleftrightarrow> (n div 8 = ?p \<and> bit c (n mod 8)) \<or> be_bit s n"
  proof -
    have "(c # s) ! (length s - n div 8) = s ! (length s - 1 - n div 8)" if "n div 8 < length s"
      using that by (simp add: nth_Cons')
    then show ?thesis by (auto simp: be_bit_def less_Suc_eq)
  qed
  have step: "from_loop (c # s) xs (?p div 4) (?p mod 4 * 8) =
      (if s = [] then ?xs else from_loop s ?xs ((?p - 1) div 4) ((?p - 1) mod 4 * 8))"
  proof (cases "s = []")
    case False
    then have pos: "0 < ?p" by simp
    show ?thesis
    proof (cases "?p mod 4 = 0")
      case True
      then obtain k where k: "?p = 4 * k" by auto
      then have k1: "1 \<le> k" using pos by simp
      then have "?p - 1 = 4 * (k - 1) + 3" using k by simp
      then have "(?p - 1) div 4 = k - 1" "(?p - 1) mod 4 = 3" by simp_all
      then show ?thesis using False True k k1 by (simp add: Let_def size_sub_def BITMAP_BITS_def)
    next
      case nz: False
      have "?p mod 4 < 4" by simp
      moreover have "?p = 4 * (?p div 4) + ?p mod 4" by simp
      ultimately obtain q r where q: "?p = 4 * q + Suc r" "Suc r < 4" using nz by (metis not0_implies_Suc)
      then have "?p div 4 = q" "?p mod 4 = Suc r" "(?p - 1) div 4 = q" "(?p - 1) mod 4 = r" by simp_all
      then show ?thesis using False by (simp add: Let_def)
    qed
  qed (simp add: Let_def)
  have "length (from_loop (c # s) xs (?p div 4) (?p mod 4 * 8)) = length xs \<and>
      (wbit (from_loop (c # s) xs (?p div 4) (?p mod 4 * 8)) n \<longleftrightarrow> wbit ?xs n \<or> be_bit s n)"
  proof (cases "s = []")
    case True
    then show ?thesis using step by (simp add: be_bit_def)
  next
    case False
    have "(?p - 1) div 4 < length xs" using p by linarith
    then show ?thesis unfolding step using Cons.IH [of ?xs] Cons.prems(2) False by simp
  qed
  then show ?case using wbit_or_byte [OF Cons.prems(2) p, of c] be by simp
qed (simp add: be_bit_def)

lemma bitmap_from_string_correct:
  assumes wf: "bitmap_wf b" and run: "bitmap_from_string A b s = (ok, b')"
  shows "bitmap_wf b' \<and> (ok \<longrightarrow> bits b' = {n. be_bit s n}) \<and> (\<not> ok \<longrightarrow> bits b' = bits b) \<and>
    (BITMAP_MAX div 8 < length s \<longrightarrow> \<not> ok)"
proof (cases "length s > BITMAP_MAX div 8")
  case True
  then show ?thesis using run wf by (auto simp: bitmap_from_string_def)
next
  case False
  obtain ok1 b1 where r: "reserve A b (length s * 8) = (ok1, b1)" by force
  note rw = reserve_wf [OF wf r]
  show ?thesis
  proof (cases "ok1 \<and> s \<noteq> []")
    case no: False
    have "s = [] \<Longrightarrow> {n. be_bit s n} = {}" by (simp add: be_bit_def)
    then show ?thesis using no False run r rw bitmap_zero_wf [of b1]
      by (cases ok1) (auto simp: bitmap_from_string_def Let_def)
  next
    case True
    let ?b2 = "bitmap_zero b1" and ?o = "(length s - 1) div 4" and ?sh = "(length s - 1) mod 4 * 8"
    let ?b3 = "?b2\<lparr>top := ?o, d := from_loop s (d ?b2) ?o ?sh\<rparr>"
    have z: "bitmap_wf ?b2" "blen ?b2 = blen b1" "d ?b2 = replicate (blen b1) 0"
      using bitmap_zero_wf [of b1] rw by (auto simp: bitmap_zero_def bitmap_wf_def)
    have l: "length s * 8 div 32 < blen b1" using rw True by blast
    have pos: "0 < length s" using True by simp
    then have o: "?o < blen b1" using l by linarith
    have e: "(length s + 3) div 4 - 1 = ?o" "(length s + 3) mod 4 = (length s - 1) mod 4"
      using pos by (cases "length s"; simp)+
    have b': "b' = retop ?b3" and ok: ok
      using run r True False e by (auto simp: bitmap_from_string_def Let_def BITMAP_BYTES_def)
    have fl: "length (from_loop s (d ?b2) ?o ?sh) = blen b1" "wbit (from_loop s (d ?b2) ?o ?sh) n \<longleftrightarrow> be_bit s n"
      if "n div 32 < blen b1" for n
      using from_loop_correct [of s "d ?b2" n] o that by (simp_all add: z(3) wbit_def)
    have high: "n div 32 \<le> ?o" if "be_bit s n" for n
      using that pos byte_position(1) [of n] by (auto simp: be_bit_def intro!: div_le_mono)
    have zero: "d ?b3 ! i = 0" if "?o < i" "i < blen b1" for i
    proof (rule bit_word_eqI)
      fix j assume "j < LENGTH(32)"
      then have n: "(32 * i + j) div 32 = i" "(32 * i + j) mod 32 = j" by simp_all
      then show "bit (d ?b3 ! i) j = bit (0 :: 32 word) j"
        using fl(2) [of "32 * i + j"] high [of "32 * i + j"] that by (auto simp: wbit_def)
    qed
    have "blen b1 \<le> 2 ^ 19 + 1" using z(1,2) by (simp add: bitmap_wf_def)
    then have wf3: "bitmap_wf ?b3" using fl(1) [of 0] o zero z(2) by (auto simp: bitmap_wf_def)
    have "bits ?b3 = {n. be_bit s n}" using fl(2) high o by (fastforce simp: bits_def wbit_def)
    then show ?thesis using retop_wf(1,2) [OF wf3] b' ok False by simp
  qed
qed

lemma bitmap_set_bit_total:
  assumes "bitmap_wf b" and "n \<le> BITMAP_MAX" and "\<forall>k. malloc_ok A k"
  shows "\<exists>b'. bitmap_set_bit A b n = (True, b')"
  using reserve_total [OF assms] by (auto simp: bitmap_set_bit_def Let_def)

lemma bitmap_from_string_total:
  assumes "bitmap_wf b" and "length s \<le> BITMAP_MAX div 8" and "\<forall>k. malloc_ok A k"
  shows "\<exists>b'. bitmap_from_string A b s = (True, b')"
  using reserve_total [OF assms(1) _ assms(3), of "length s * 8"] assms(2)
  by (auto simp: bitmap_from_string_def Let_def BITMAP_MAX_def)

section \<open>A set interface\<close>

text \<open>What the revocation lists rely on: a set of numbers below a bound with a membership test, an insertion
  that may fail, and a deletion.\<close>

datatype set_op = SetBit nat | ClearBit nat

fun run_ops :: "('s \<Rightarrow> nat \<Rightarrow> bool \<times> 's) \<Rightarrow> ('s \<Rightarrow> nat \<Rightarrow> 's) \<Rightarrow> set_op list \<Rightarrow> 's \<Rightarrow> bool \<times> 's" where
  "run_ops ins del [] s = (True, s)"
| "run_ops ins del (SetBit n # ops) s = (case ins s n of (False, s1) \<Rightarrow> (False, s1) | (True, s1) \<Rightarrow> run_ops ins del ops s1)"
| "run_ops ins del (ClearBit n # ops) s = run_ops ins del ops (del s n)"

fun set_ops :: "set_op list \<Rightarrow> nat set \<Rightarrow> nat set" where
  "set_ops [] X = X"
| "set_ops (SetBit n # ops) X = set_ops ops (insert n X)"
| "set_ops (ClearBit n # ops) X = set_ops ops (X - {n})"

fun op_arg :: "set_op \<Rightarrow> nat" where
  "op_arg (SetBit n) = n"
| "op_arg (ClearBit n) = n"

locale bounded_set =
  fixes inv :: "'s \<Rightarrow> bool" and elems :: "'s \<Rightarrow> nat set" and isin :: "'s \<Rightarrow> nat \<Rightarrow> bool"
    and ins :: "'s \<Rightarrow> nat \<Rightarrow> bool \<times> 's" and del :: "'s \<Rightarrow> nat \<Rightarrow> 's" and bound :: nat
  assumes isin_elems: "inv s \<Longrightarrow> isin s n \<longleftrightarrow> n \<in> elems s"
    and ins_elems: "inv s \<Longrightarrow> ins s n = (ok, s') \<Longrightarrow> inv s' \<and> elems s' = (if ok then insert n (elems s) else elems s)"
    and del_elems: "inv s \<Longrightarrow> n \<le> bound \<Longrightarrow> inv (del s n) \<and> elems (del s n) = elems s - {n}"
begin

lemma run_elems:
  "inv s \<Longrightarrow> \<forall>x \<in> set ops. op_arg x \<le> bound \<Longrightarrow> run_ops ins del ops s = (True, s') \<Longrightarrow>
   inv s' \<and> elems s' = set_ops ops (elems s)"
proof (induction ops arbitrary: s)
  case (Cons x ops)
  show ?case
  proof (cases x)
    case (SetBit n)
    then obtain s1 where s1: "ins s n = (True, s1)" "run_ops ins del ops s1 = (True, s')"
      using Cons.prems(3) by (auto split: prod.splits bool.splits)
    then show ?thesis using Cons.IH [of s1] Cons.prems(2) ins_elems [OF Cons.prems(1) s1(1)] SetBit by simp
  next
    case (ClearBit n)
    then show ?thesis using Cons.IH [of "del s n"] Cons.prems del_elems [OF Cons.prems(1), of n] by simp
  qed
qed simp

lemma run_total:
  assumes "\<And>s n. inv s \<Longrightarrow> n \<le> bound \<Longrightarrow> fst (ins s n)"
  shows "inv s \<Longrightarrow> \<forall>x \<in> set ops. op_arg x \<le> bound \<Longrightarrow> \<exists>s'. run_ops ins del ops s = (True, s')"
proof (induction ops arbitrary: s)
  case (Cons x ops)
  show ?case
  proof (cases x)
    case (SetBit n)
    then obtain s1 where s1: "ins s n = (True, s1)"
      using assms [of s n] Cons.prems by (cases "ins s n") auto
    then show ?thesis using Cons.IH [of s1] Cons.prems(2) ins_elems [OF Cons.prems(1) s1] SetBit by simp
  next
    case (ClearBit n)
    then show ?thesis using Cons.IH [of "del s n"] Cons.prems del_elems [OF Cons.prems(1), of n] by simp
  qed
qed simp

end

interpretation bm: bounded_set bitmap_wf bits bitmap_test_bit "bitmap_set_bit A" bitmap_clear_bit BITMAP_MAX
  for A
  by unfold_locales (use bitmap_test_bit_iff bitmap_set_bit_correct bitmap_clear_bit_correct in auto)

section \<open>Properties\<close>

definition ex_mem :: allocator where
  "ex_mem = \<lparr>malloc_ok = (\<lambda>_. True), pagesize = 4096\<rparr>"

definition ex_bitmap :: bitmap where
  "ex_bitmap = \<lparr>d = [0x201], blen = 1, top = 0\<rparr>"

lemma ex_bitmap_wf: "bitmap_wf ex_bitmap" and ex_mem_ok: "\<forall>k. malloc_ok ex_mem k"
  by (auto simp: bitmap_wf_def ex_bitmap_def ex_mem_def)

lemma ex_bitmap_bits: "n \<in> bits ex_bitmap \<Longrightarrow> n < 32"
  by (auto simp: bits_def ex_bitmap_def)



text \<open>
  C27. The length loop ends: on every well-formed bitmap \<^verbatim>\<open>bitmap_nbits\<close> returns, without an endless search
  for the top bit, one more than the largest member (0 for the empty set), and only lowers the top
  index.
\<close>

theorem bitmap_nbits_returns:
  assumes "bitmap_wf b"
  shows "bitmap_nbits b = (Some (if bits b = {} then 0 else Suc (Max (bits b))), retop b) \<and>
    bitmap_wf (retop b) \<and> bits (retop b) = bits b \<and> d (retop b) = d b"
  using bitmap_nbits_correct [OF assms] retop_wf(1-3) [OF assms] by (simp add: bits_length_def)

theorem bitmap_nbits_returns_witness: "bits (retop ex_bitmap) = bits ex_bitmap \<and> fst (bitmap_nbits ex_bitmap) \<noteq> None"
  using bitmap_nbits_returns [OF ex_bitmap_wf] by simp

text \<open>
  C28. Strings round-trip: \<^verbatim>\<open>bitmap_to_string\<close> into an array that is long enough returns 0, and
  \<^verbatim>\<open>bitmap_from_string\<close> on the bytes it wrote rebuilds exactly the same set in any bitmap, whatever that
  bitmap held before, for every set of numbers below \<open>BITMAP_MAX\<close>.
\<close>

theorem bitmap_string_round_trip:
  assumes "bitmap_wf b" and "bits b \<subseteq> {..<BITMAP_MAX}" and "bits_bytes b \<le> length s"
    and "bitmap_wf c" and "\<forall>k. malloc_ok A k"
  shows "\<exists>s' c'. bitmap_to_string b s (length s) = (Some (True, s'), retop b) \<and>
    bitmap_from_string A c (take (bits_bytes b) s') = (True, c') \<and> bitmap_wf c' \<and> bits c' = bits b"
proof -
  obtain s' where s': "bitmap_to_string b s (length s) = (Some (True, s'), retop b)" "length s' = length s"
      "\<forall>n. be_bit (take (bits_bytes b) s') n \<longleftrightarrow> n \<in> bits b"
    using bitmap_to_string_correct [OF assms(1,3)] by blast
  have "bits_length b \<le> BITMAP_MAX"
  proof (cases "bits b = {}")
    case False
    then have "Max (bits b) < BITMAP_MAX" using Max_in [OF finite_bits] assms(2) by blast
    then show ?thesis using False unfolding bits_length_def by (simp del: Max_less_iff)
  qed (simp add: bits_length_def)
  then have "length (take (bits_bytes b) s') \<le> BITMAP_MAX div 8" by (simp add: bits_bytes_def BITMAP_MAX_def)
  then obtain c' where c': "bitmap_from_string A c (take (bits_bytes b) s') = (True, c')"
    using bitmap_from_string_total [OF assms(4) _ assms(5)] by blast
  then show ?thesis using s' bitmap_from_string_correct [OF assms(4) c'] by auto
qed

theorem bitmap_string_round_trip_witness:
  "\<exists>s' c'. bitmap_to_string ex_bitmap [0, 0, 0, 0] 4 = (Some (True, s'), retop ex_bitmap) \<and>
     bitmap_from_string ex_mem ex_bitmap (take (bits_bytes ex_bitmap) s') = (True, c') \<and> bits c' = bits ex_bitmap"
proof -
  have len: "length [0, 0, 0, 0 :: byte] = 4" by simp
  have sub: "bits ex_bitmap \<subseteq> {..<BITMAP_MAX}"
  proof
    fix n assume "n \<in> bits ex_bitmap"
    then show "n \<in> {..<BITMAP_MAX}" using ex_bitmap_bits [of n] by (simp add: BITMAP_MAX_def)
  qed
  have "bits_bytes ex_bitmap \<le> length [0, 0, 0, 0 :: byte]"
    using bits_length_le [of ex_bitmap] by (simp add: bits_bytes_def ex_bitmap_def)
  from bitmap_string_round_trip [OF ex_bitmap_wf sub this ex_bitmap_wf ex_mem_ok]
  show ?thesis unfolding len by blast
qed

text \<open>
  C29. The bounds of the two directions differ by one: \<^verbatim>\<open>bitmap_set_bit\<close> accepts the number \<open>BITMAP_MAX\<close>, and
  the string of a bitmap that holds it is refused by \<^verbatim>\<open>bitmap_from_string\<close>.
\<close>

theorem bitmap_max_bit_unreadable:
  "\<exists>b s'. bitmap_set_bit ex_mem ex_bitmap BITMAP_MAX = (True, b) \<and>
    bitmap_to_string b (replicate (bits_bytes b) 0) (bits_bytes b) = (Some (True, s'), retop b) \<and>
    bitmap_from_string ex_mem ex_bitmap s' = (False, ex_bitmap)"
proof -
  obtain b where b: "bitmap_set_bit ex_mem ex_bitmap BITMAP_MAX = (True, b)"
    using bitmap_set_bit_total [OF ex_bitmap_wf _ ex_mem_ok] by blast
  then have wf: "bitmap_wf b" and mem: "BITMAP_MAX \<in> bits b"
    using bitmap_set_bit_correct [OF ex_bitmap_wf b] by auto
  obtain s' where s': "bitmap_to_string b (replicate (bits_bytes b) 0) (bits_bytes b) = (Some (True, s'), retop b)"
      "length s' = bits_bytes b"
    using bitmap_to_string_correct [OF wf, of "bits_bytes b" "replicate (bits_bytes b) 0"] by auto
  have "BITMAP_MAX div 8 < length s'" using bits_bytes_bound [OF mem] s'(2) by simp
  then have "bitmap_from_string ex_mem ex_bitmap s' = (False, ex_bitmap)" by (simp add: bitmap_from_string_def)
  then show ?thesis using b s'(1) by blast
qed

end
