(* ===== verification/Nchan.thy ===== *)
theory Nchan
  imports Sshbuf_Getput "HOL-Library.Monad_Syntax"
begin

text \<open>
  Channels and their tear-down: the events of \<^verbatim>\<open>nchan.c\<close> on the \<^verbatim>\<open>Channel\<close> structure of \<^verbatim>\<open>channels.h\<close>. An event
  returns \<open>None\<close> when it calls \<^verbatim>\<open>fatal\<close>, which ends the process; otherwise the channel and the connection
  after it. The connection records the packets handed to \<^verbatim>\<open>sshpkt_send\<close> and the calls of \<^verbatim>\<open>shutdown\<close> and
  \<^verbatim>\<open>close\<close>, whose failures are only logged. The bookkeeping of the largest descriptor, which serves \<^verbatim>\<open>select\<close>,
  is left out. Callbacks and filters are function pointers in the code; here they are numbers, and the definitions
  that call one take what the numbers stand for as an argument.
\<close>

unbundle bit_operations_syntax

section \<open>State\<close>

datatype chan_type =
    SSH_CHANNEL_X11_LISTENER | SSH_CHANNEL_PORT_LISTENER | SSH_CHANNEL_OPENING | SSH_CHANNEL_OPEN
  | SSH_CHANNEL_CLOSED | SSH_CHANNEL_AUTH_SOCKET | SSH_CHANNEL_X11_OPEN | SSH_CHANNEL_LARVAL
  | SSH_CHANNEL_RPORT_LISTENER | SSH_CHANNEL_CONNECTING | SSH_CHANNEL_DYNAMIC | SSH_CHANNEL_ZOMBIE
  | SSH_CHANNEL_MUX_LISTENER | SSH_CHANNEL_MUX_CLIENT | SSH_CHANNEL_ABANDONED | SSH_CHANNEL_UNIX_LISTENER
  | SSH_CHANNEL_RUNIX_LISTENER | SSH_CHANNEL_MUX_PROXY | SSH_CHANNEL_RDYNAMIC_OPEN
  | SSH_CHANNEL_RDYNAMIC_FINISH

datatype ext_usage = CHAN_EXTENDED_IGNORE | CHAN_EXTENDED_READ | CHAN_EXTENDED_WRITE

record channel =
  ctyp :: chan_type
  self :: nat
  remote_id :: "32 word"
  have_remote_id :: bool
  istate :: nat
  ostate :: nat
  flags :: "32 word"
  rfd :: int
  wfd :: int
  efd :: int
  sock :: int
  ctl_chan :: int
  isatty :: bool
  force_drain :: bool
  notbefore :: int
  delayed :: bool
  cinput :: sshbuf
  coutput :: sshbuf
  cextended :: sshbuf
  path :: "string option"
  listening_port :: int
  listening_addr :: "string option"
  host_port :: int
  remote_name :: string
  remote_window :: "32 word"
  remote_maxpacket :: "32 word"
  local_window :: "32 word"
  local_window_max :: "32 word"
  local_consumed :: "32 word"
  local_maxpacket :: "32 word"
  extended_usage :: ext_usage
  ctype :: string
  open_confirm :: "nat option"
  detach_user :: "nat option"
  detach_close :: bool
  status_confirms :: "(nat \<times> nat option) list"
  input_filter :: "nat option"
  output_filter :: "nat option"
  filter_cleanup :: "nat option"
  datagram :: bool
  mux_ctx :: "nat option"
  mux_pause :: bool
  mux_downstream_id :: "32 word"

definition CHAN_INPUT_OPEN :: nat where "CHAN_INPUT_OPEN = 0"
definition CHAN_INPUT_WAIT_DRAIN :: nat where "CHAN_INPUT_WAIT_DRAIN = 1"
definition CHAN_INPUT_WAIT_OCLOSE :: nat where "CHAN_INPUT_WAIT_OCLOSE = 2"
definition CHAN_INPUT_CLOSED :: nat where "CHAN_INPUT_CLOSED = 3"
definition CHAN_OUTPUT_OPEN :: nat where "CHAN_OUTPUT_OPEN = 0"
definition CHAN_OUTPUT_WAIT_DRAIN :: nat where "CHAN_OUTPUT_WAIT_DRAIN = 1"
definition CHAN_OUTPUT_WAIT_IEOF :: nat where "CHAN_OUTPUT_WAIT_IEOF = 2"
definition CHAN_OUTPUT_CLOSED :: nat where "CHAN_OUTPUT_CLOSED = 3"

lemmas chan_states = CHAN_INPUT_OPEN_def CHAN_INPUT_WAIT_DRAIN_def CHAN_INPUT_WAIT_OCLOSE_def
  CHAN_INPUT_CLOSED_def CHAN_OUTPUT_OPEN_def CHAN_OUTPUT_WAIT_DRAIN_def CHAN_OUTPUT_WAIT_IEOF_def
  CHAN_OUTPUT_CLOSED_def

definition CHAN_CLOSE_SENT :: "32 word" where "CHAN_CLOSE_SENT = 0x01"
definition CHAN_CLOSE_RCVD :: "32 word" where "CHAN_CLOSE_RCVD = 0x02"
definition CHAN_EOF_SENT :: "32 word" where "CHAN_EOF_SENT = 0x04"
definition CHAN_EOF_RCVD :: "32 word" where "CHAN_EOF_RCVD = 0x08"
definition CHAN_LOCAL :: "32 word" where "CHAN_LOCAL = 0x10"

lemmas chan_flags = CHAN_CLOSE_SENT_def CHAN_CLOSE_RCVD_def CHAN_EOF_SENT_def CHAN_EOF_RCVD_def CHAN_LOCAL_def

definition has :: "channel \<Rightarrow> 32 word \<Rightarrow> bool" where
  "has c f \<longleftrightarrow> flags c AND f \<noteq> 0"

definition set_flag :: "32 word \<Rightarrow> channel \<Rightarrow> channel" where
  "set_flag f c = c\<lparr>flags := flags c OR f\<rparr>"

datatype msg =
    MsgEof "32 word"
  | MsgClose "32 word"
  | MsgEow "32 word"
  | MsgData "32 word" "byte list"
  | MsgExtData "32 word" "byte list"
  | MsgWindowAdjust "32 word" "32 word"
  | MsgOpen string nat "32 word" "32 word"
  | MsgRequest "32 word" string bool
  | MsgGlobal string bool string "int option"
  | MsgRaw byte "byte list"

datatype fd_op = ShutWr int | ShutRd int | CloseFd int

text \<open>
  \<open>sent\<close>: the messages of the connection protocol in the order they were sent; \<open>ignores\<close>: the lengths of the
  \<^verbatim>\<open>SSH2_MSG_IGNORE\<close> packets sent between them; \<open>pkt_ok\<close>: the packet layer accepts packets. The last two
  fields are bits of \<^verbatim>\<open>datafellows\<close>.
\<close>

record ssh =
  sent :: "msg list"
  ignores :: "nat list"
  fdlog :: "fd_op list"
  pkt_ok :: bool
  new_openssh :: bool
  bug_exteof :: bool

definition CHANNEL_EFD_INPUT_ACTIVE :: "channel \<Rightarrow> bool" where
  "CHANNEL_EFD_INPUT_ACTIVE c \<longleftrightarrow> extended_usage c = CHAN_EXTENDED_READ \<and>
     (efd c \<noteq> -1 \<or> sshbuf_len (cextended c) > 0)"

definition CHANNEL_EFD_OUTPUT_ACTIVE :: "channel \<Rightarrow> bool" where
  "CHANNEL_EFD_OUTPUT_ACTIVE c \<longleftrightarrow> extended_usage c = CHAN_EXTENDED_WRITE \<and> efd c \<noteq> -1 \<and>
     (\<not> has c (CHAN_EOF_RCVD OR CHAN_CLOSE_RCVD) \<or> sshbuf_len (cextended c) > 0)"

text \<open>The sequence \<^verbatim>\<open>sshpkt_start\<close>, \<^verbatim>\<open>sshpkt_put_*\<close>, \<^verbatim>\<open>sshpkt_send\<close> for one message, fatal when it fails.\<close>

definition send_packet :: "msg \<Rightarrow> ssh \<Rightarrow> ssh option" where
  "send_packet m w = (if pkt_ok w then Some (w\<lparr>sent := sent w @ [m]\<rparr>) else None)"

definition close_fd :: "int \<Rightarrow> ssh \<Rightarrow> ssh" where
  "close_fd fd w = (if fd \<noteq> -1 then w\<lparr>fdlog := fdlog w @ [CloseFd fd]\<rparr> else w)"

definition log_fd :: "fd_op \<Rightarrow> ssh \<Rightarrow> ssh" where
  "log_fd x w = w\<lparr>fdlog := fdlog w @ [x]\<rparr>"

section \<open>Helpers\<close>

definition chan_set_istate :: "nat \<Rightarrow> channel \<Rightarrow> channel option" where
  "chan_set_istate nxt c =
    (if istate c > CHAN_INPUT_CLOSED \<or> nxt > CHAN_INPUT_CLOSED then None else Some (c\<lparr>istate := nxt\<rparr>))"

definition chan_set_ostate :: "nat \<Rightarrow> channel \<Rightarrow> channel option" where
  "chan_set_ostate nxt c =
    (if ostate c > CHAN_OUTPUT_CLOSED \<or> nxt > CHAN_OUTPUT_CLOSED then None else Some (c\<lparr>ostate := nxt\<rparr>))"

definition chan_shutdown_write :: "allocator \<Rightarrow> channel \<times> ssh \<Rightarrow> channel \<times> ssh" where
  "chan_shutdown_write A s = (case s of (c, w) \<Rightarrow>
     let c1 = c\<lparr>coutput := sshbuf_reset A (coutput c)\<rparr> in
     if ctyp c1 = SSH_CHANNEL_LARVAL then (c1, w)
     else if sock c1 \<noteq> -1 then (c1, log_fd (ShutWr (sock c1)) w)
     else (c1\<lparr>wfd := -1\<rparr>, close_fd (wfd c1) w))"

definition chan_shutdown_read :: "channel \<times> ssh \<Rightarrow> channel \<times> ssh" where
  "chan_shutdown_read s = (case s of (c, w) \<Rightarrow>
     if ctyp c = SSH_CHANNEL_LARVAL then (c, w)
     else if sock c \<noteq> -1 then (c, log_fd (ShutRd (sock c)) w)
     else (c\<lparr>rfd := -1\<rparr>, close_fd (rfd c) w))"

definition chan_shutdown_extended_read :: "channel \<times> ssh \<Rightarrow> channel \<times> ssh" where
  "chan_shutdown_extended_read s = (case s of (c, w) \<Rightarrow>
     if ctyp c = SSH_CHANNEL_LARVAL \<or> efd c = -1 then (c, w)
     else if extended_usage c \<noteq> CHAN_EXTENDED_READ \<and> extended_usage c \<noteq> CHAN_EXTENDED_IGNORE then (c, w)
     else (c\<lparr>efd := -1\<rparr>, close_fd (efd c) w))"

definition chan_send_eof2 :: "channel \<times> ssh \<Rightarrow> (channel \<times> ssh) option" where
  "chan_send_eof2 s = (case s of (c, w) \<Rightarrow>
     if istate c = CHAN_INPUT_WAIT_DRAIN then
       if \<not> have_remote_id c then None
       else do { w1 \<leftarrow> send_packet (MsgEof (remote_id c)) w; Some (set_flag CHAN_EOF_SENT c, w1) }
     else Some (c, w))"

definition chan_send_close2 :: "channel \<times> ssh \<Rightarrow> (channel \<times> ssh) option" where
  "chan_send_close2 s = (case s of (c, w) \<Rightarrow>
     if ostate c \<noteq> CHAN_OUTPUT_CLOSED \<or> istate c \<noteq> CHAN_INPUT_CLOSED then Some (c, w)
     else if has c CHAN_CLOSE_SENT then Some (c, w)
     else if \<not> have_remote_id c then None
     else do { w1 \<leftarrow> send_packet (MsgClose (remote_id c)) w; Some (set_flag CHAN_CLOSE_SENT c, w1) })"

definition chan_send_eow2 :: "channel \<times> ssh \<Rightarrow> (channel \<times> ssh) option" where
  "chan_send_eow2 s = (case s of (c, w) \<Rightarrow>
     if ostate c = CHAN_OUTPUT_CLOSED then Some (c, w)
     else if \<not> new_openssh w then Some (c, w)
     else if \<not> have_remote_id c then None
     else do { w1 \<leftarrow> send_packet (MsgEow (remote_id c)) w; Some (c, w1) })"

section \<open>Events\<close>

definition chan_read_failed :: "channel \<times> ssh \<Rightarrow> (channel \<times> ssh) option" where
  "chan_read_failed s =
    (if istate (fst s) = CHAN_INPUT_OPEN then
       do { let (c, w) = chan_shutdown_read s;
            c1 \<leftarrow> chan_set_istate CHAN_INPUT_WAIT_DRAIN c; Some (c1, w) }
     else Some s)"

definition chan_ibuf_empty :: "channel \<times> ssh \<Rightarrow> (channel \<times> ssh) option" where
  "chan_ibuf_empty s =
    (if sshbuf_len (cinput (fst s)) \<noteq> 0 then Some s
     else if istate (fst s) = CHAN_INPUT_WAIT_DRAIN then
       do { (c, w) \<leftarrow> (if \<not> has (fst s) (CHAN_CLOSE_SENT OR CHAN_LOCAL) then chan_send_eof2 s else Some s);
            c1 \<leftarrow> chan_set_istate CHAN_INPUT_CLOSED c; Some (c1, w) }
     else Some s)"

definition chan_obuf_empty :: "allocator \<Rightarrow> channel \<times> ssh \<Rightarrow> (channel \<times> ssh) option" where
  "chan_obuf_empty A s =
    (if sshbuf_len (coutput (fst s)) \<noteq> 0 then Some s
     else if ostate (fst s) = CHAN_OUTPUT_WAIT_DRAIN then
       do { let (c, w) = chan_shutdown_write A s;
            c1 \<leftarrow> chan_set_ostate CHAN_OUTPUT_CLOSED c; Some (c1, w) }
     else Some s)"

definition chan_rcvd_eow :: "channel \<times> ssh \<Rightarrow> (channel \<times> ssh) option" where
  "chan_rcvd_eow s =
    (if istate (fst s) = CHAN_INPUT_OPEN then
       do { let (c, w) = chan_shutdown_read s;
            c1 \<leftarrow> chan_set_istate CHAN_INPUT_CLOSED c; Some (c1, w) }
     else Some s)"

definition chan_rcvd_ieof :: "allocator \<Rightarrow> channel \<times> ssh \<Rightarrow> (channel \<times> ssh) option" where
  "chan_rcvd_ieof A s = (case s of (c, w) \<Rightarrow>
     do { let c1 = set_flag CHAN_EOF_RCVD c;
          c2 \<leftarrow> (if ostate c1 = CHAN_OUTPUT_OPEN then chan_set_ostate CHAN_OUTPUT_WAIT_DRAIN c1 else Some c1);
          if ostate c2 = CHAN_OUTPUT_WAIT_DRAIN \<and> sshbuf_len (coutput c2) = 0 \<and> \<not> CHANNEL_EFD_OUTPUT_ACTIVE c2
          then chan_obuf_empty A (c2, w) else Some (c2, w) })"

definition rcvd_oclose_input :: "channel \<times> ssh \<Rightarrow> (channel \<times> ssh) option" where
  "rcvd_oclose_input s =
    (if istate (fst s) = CHAN_INPUT_OPEN then
       do { let (c, w) = chan_shutdown_extended_read (chan_shutdown_read s);
            c1 \<leftarrow> chan_set_istate CHAN_INPUT_CLOSED c; Some (c1, w) }
     else if istate (fst s) = CHAN_INPUT_WAIT_DRAIN then
       do { s1 \<leftarrow> (if \<not> has (fst s) CHAN_LOCAL then chan_send_eof2 s else Some s);
            let (c, w) = chan_shutdown_extended_read s1;
            c1 \<leftarrow> chan_set_istate CHAN_INPUT_CLOSED c; Some (c1, w) }
     else Some s)"

definition chan_rcvd_oclose :: "channel \<times> ssh \<Rightarrow> (channel \<times> ssh) option" where
  "chan_rcvd_oclose s = (case s of (c, w) \<Rightarrow>
     do { let c1 = (if \<not> has c CHAN_LOCAL then set_flag CHAN_CLOSE_RCVD c else c);
          if ctyp c1 = SSH_CHANNEL_LARVAL then
            do { c2 \<leftarrow> chan_set_ostate CHAN_OUTPUT_CLOSED c1;
                 c3 \<leftarrow> chan_set_istate CHAN_INPUT_CLOSED c2; Some (c3, w) }
          else do { c2 \<leftarrow> (if ostate c1 = CHAN_OUTPUT_OPEN then chan_set_ostate CHAN_OUTPUT_WAIT_DRAIN c1 else Some c1);
                 rcvd_oclose_input (c2, w) } })"

definition chan_write_failed :: "allocator \<Rightarrow> channel \<times> ssh \<Rightarrow> (channel \<times> ssh) option" where
  "chan_write_failed A s =
    (if ostate (fst s) = CHAN_OUTPUT_OPEN \<or> ostate (fst s) = CHAN_OUTPUT_WAIT_DRAIN then
       do { let s1 = chan_shutdown_write A s;
            (c, w) \<leftarrow> (if ctype (fst s1) = ''session'' then chan_send_eow2 s1 else Some s1);
            c1 \<leftarrow> chan_set_ostate CHAN_OUTPUT_CLOSED c; Some (c1, w) }
     else Some s)"

definition chan_mark_dead :: "channel \<times> ssh \<Rightarrow> channel \<times> ssh" where
  "chan_mark_dead s = (fst s\<lparr>ctyp := SSH_CHANNEL_ZOMBIE\<rparr>, snd s)"

definition chan_is_dead :: "bool \<Rightarrow> channel \<times> ssh \<Rightarrow> (bool \<times> channel \<times> ssh) option" where
  "chan_is_dead do_send s = (case s of (c, w) \<Rightarrow>
     if ctyp c = SSH_CHANNEL_ZOMBIE then Some (True, s)
     else if istate c \<noteq> CHAN_INPUT_CLOSED \<or> ostate c \<noteq> CHAN_OUTPUT_CLOSED then Some (False, s)
     else if bug_exteof w \<and> extended_usage c = CHAN_EXTENDED_WRITE \<and> efd c \<noteq> -1 \<and> sshbuf_len (cextended c) > 0
     then Some (False, s)
     else if has c CHAN_LOCAL then Some (True, s)
     else if \<not> has c CHAN_CLOSE_SENT \<and> \<not> do_send \<and> has c CHAN_CLOSE_RCVD then Some (True, s)
     else do { s1 \<leftarrow> (if \<not> has c CHAN_CLOSE_SENT \<and> do_send then chan_send_close2 s else Some s);
               Some (has (fst s1) CHAN_CLOSE_SENT \<and> has (fst s1) CHAN_CLOSE_RCVD, s1) })"

section \<open>Flags and frames\<close>

named_theorems chan_frame "what the helpers leave alone"

lemma has_or [simp]: "has c (f OR g) \<longleftrightarrow> has c f \<or> has c g"
  by (auto simp: has_def bit_eq_iff bit_simps)

lemma has_set_flag [simp]: "has (set_flag f c) g \<longleftrightarrow> has c g \<or> f AND g \<noteq> 0"
  by (auto simp: has_def set_flag_def bit_eq_iff bit_simps)

lemma flag_ands [simp]:
  "CHAN_EOF_SENT \<noteq> 0" "CHAN_CLOSE_SENT \<noteq> 0" "CHAN_CLOSE_RCVD \<noteq> 0" "CHAN_EOF_RCVD \<noteq> 0"
  "CHAN_EOF_SENT AND CHAN_CLOSE_SENT = 0" "CHAN_EOF_SENT AND CHAN_CLOSE_RCVD = 0" "CHAN_EOF_SENT AND CHAN_LOCAL = 0"
  "CHAN_EOF_SENT AND CHAN_EOF_RCVD = 0"
  "CHAN_EOF_RCVD AND CHAN_CLOSE_SENT = 0" "CHAN_EOF_RCVD AND CHAN_EOF_SENT = 0" "CHAN_EOF_RCVD AND CHAN_LOCAL = 0"
  "CHAN_EOF_RCVD AND CHAN_CLOSE_RCVD = 0"
  "CHAN_CLOSE_RCVD AND CHAN_CLOSE_SENT = 0" "CHAN_CLOSE_RCVD AND CHAN_EOF_SENT = 0" "CHAN_CLOSE_RCVD AND CHAN_LOCAL = 0"
  "CHAN_CLOSE_RCVD AND CHAN_EOF_RCVD = 0"
  "CHAN_CLOSE_SENT AND CHAN_EOF_SENT = 0" "CHAN_CLOSE_SENT AND CHAN_LOCAL = 0" "CHAN_CLOSE_SENT AND CHAN_CLOSE_RCVD = 0"
  "CHAN_CLOSE_SENT AND CHAN_EOF_RCVD = 0"
  by (simp_all add: chan_flags)

lemma has_cong: "flags c' = flags c \<Longrightarrow> has c' f = has c f"
  by (simp add: has_def)

lemma set_flag_simps [simp]:
  "istate (set_flag f c) = istate c" "ostate (set_flag f c) = ostate c" "ctyp (set_flag f c) = ctyp c"
  "cinput (set_flag f c) = cinput c" "coutput (set_flag f c) = coutput c" "have_remote_id (set_flag f c) = have_remote_id c"
  "remote_id (set_flag f c) = remote_id c" "remote_window (set_flag f c) = remote_window c"
  "local_window (set_flag f c) = local_window c" "local_consumed (set_flag f c) = local_consumed c"
  by (simp_all add: set_flag_def)

text \<open>The helpers that close descriptors change neither the states nor the flags nor what was sent.\<close>

definition same_chan :: "channel \<times> ssh \<Rightarrow> channel \<times> ssh \<Rightarrow> bool" where
  "same_chan s s' \<longleftrightarrow> istate (fst s') = istate (fst s) \<and> ostate (fst s') = ostate (fst s) \<and>
     flags (fst s') = flags (fst s) \<and> sent (snd s') = sent (snd s) \<and> ctyp (fst s') = ctyp (fst s) \<and>
     cinput (fst s') = cinput (fst s) \<and> have_remote_id (fst s') = have_remote_id (fst s) \<and>
     remote_id (fst s') = remote_id (fst s) \<and> pkt_ok (snd s') = pkt_ok (snd s) \<and>
     remote_window (fst s') = remote_window (fst s) \<and> local_window (fst s') = local_window (fst s) \<and>
     local_consumed (fst s') = local_consumed (fst s)"

lemma same_chan_shutdown:
  "same_chan s (chan_shutdown_write A s)" "same_chan s (chan_shutdown_read s)"
  "same_chan s (chan_shutdown_extended_read s)" "same_chan s (chan_shutdown_extended_read (chan_shutdown_read s))"
  by (auto simp: same_chan_def chan_shutdown_write_def chan_shutdown_read_def chan_shutdown_extended_read_def
      log_fd_def close_fd_def Let_def split: prod.splits)

lemma same_chan_has: "same_chan s s' \<Longrightarrow> has (fst s') f = has (fst s) f"
  by (simp add: same_chan_def has_def)

section \<open>The tear-down invariant\<close>

fun is_close :: "msg \<Rightarrow> bool" where
  "is_close (MsgClose _) = True"
| "is_close _ = False"

fun is_eof :: "msg \<Rightarrow> bool" where
  "is_eof (MsgEof _) = True"
| "is_eof _ = False"

fun is_data :: "msg \<Rightarrow> bool" where
  "is_data (MsgData _ _) = True"
| "is_data (MsgExtData _ _) = True"
| "is_data _ = False"

text \<open>What a peer relies on: at most one EOF and one CLOSE, nothing after a CLOSE, no data after an EOF.\<close>

fun msgs_ok :: "bool \<Rightarrow> bool \<Rightarrow> msg list \<Rightarrow> bool" where
  "msgs_ok eof closed [] = True"
| "msgs_ok eof closed (m # ms) =
    (\<not> closed \<and> (eof \<longrightarrow> \<not> is_eof m \<and> \<not> is_data m) \<and> msgs_ok (eof \<or> is_eof m) (is_close m) ms)"

lemma msgs_ok_append:
  "msgs_ok e k (ms @ [m]) \<longleftrightarrow> msgs_ok e k ms \<and> \<not> (k \<or> list_ex is_close ms) \<and>
     (e \<or> list_ex is_eof ms \<longrightarrow> \<not> is_eof m \<and> \<not> is_data m)"
  by (induction ms arbitrary: e k) auto

definition states_ok :: "channel \<Rightarrow> bool" where
  "states_ok c \<longleftrightarrow> istate c \<in> {CHAN_INPUT_OPEN, CHAN_INPUT_WAIT_DRAIN, CHAN_INPUT_CLOSED} \<and>
     ostate c \<in> {CHAN_OUTPUT_OPEN, CHAN_OUTPUT_WAIT_DRAIN, CHAN_OUTPUT_CLOSED}"

definition chan_inv :: "channel \<times> ssh \<Rightarrow> bool" where
  "chan_inv s = (case s of (c, w) \<Rightarrow> states_ok c \<and> msgs_ok False False (sent w) \<and>
     (has c CHAN_CLOSE_SENT \<longleftrightarrow> list_ex is_close (sent w)) \<and> (has c CHAN_EOF_SENT \<longleftrightarrow> list_ex is_eof (sent w)) \<and>
     (has c CHAN_CLOSE_SENT \<longrightarrow> istate c = CHAN_INPUT_CLOSED \<and> ostate c = CHAN_OUTPUT_CLOSED) \<and>
     (has c CHAN_EOF_SENT \<longrightarrow> istate c = CHAN_INPUT_CLOSED))"

text \<open>The states only move forward.\<close>

definition forward :: "channel \<Rightarrow> channel \<Rightarrow> bool" where
  "forward c c' \<longleftrightarrow> istate c \<le> istate c' \<and> ostate c \<le> ostate c' \<and> (\<forall>f. has c f \<longrightarrow> has c' f)"

lemma has_update [simp]:
  "has (c\<lparr>istate := x\<rparr>) f = has c f" "has (c\<lparr>ostate := x\<rparr>) f = has c f" "has (c\<lparr>ctyp := t\<rparr>) f = has c f"
  "has (c\<lparr>cinput := b\<rparr>) f = has c f" "has (c\<lparr>coutput := b\<rparr>) f = has c f" "has (c\<lparr>cextended := b\<rparr>) f = has c f"
  "has (c\<lparr>remote_window := v\<rparr>) f = has c f" "has (c\<lparr>local_window := v\<rparr>) f = has c f"
  "has (c\<lparr>local_consumed := v\<rparr>) f = has c f" "has (c\<lparr>efd := i\<rparr>) f = has c f"
  by (simp_all add: has_def)

lemma forward_refl [simp]: "forward c c"
  by (simp add: forward_def)

lemma forward_trans: "forward a b \<Longrightarrow> forward b c \<Longrightarrow> forward a c"
  by (auto simp: forward_def)

definition event_ok :: "channel \<times> ssh \<Rightarrow> channel \<times> ssh \<Rightarrow> bool" where
  "event_ok s s' \<longleftrightarrow> chan_inv s' \<and> forward (fst s) (fst s')"

lemma event_ok_same:
  assumes "chan_inv s" and "same_chan s s'" shows "event_ok s s'"
proof -
  obtain c w c' w' where s: "s = (c, w)" "s' = (c', w')" by force
  have h: "has c' f = has c f" for f using same_chan_has [OF assms(2)] s by simp
  have "istate c' = istate c" "ostate c' = ostate c" "sent w' = sent w"
    using assms(2) s by (simp_all add: same_chan_def)
  then show ?thesis using assms(1)
    by (simp add: s event_ok_def chan_inv_def states_ok_def forward_def h)
qed

lemma event_ok_trans: "event_ok a b \<Longrightarrow> event_ok b c \<Longrightarrow> event_ok a c"
  by (auto simp: event_ok_def intro: forward_trans)

lemma event_ok_inv: "event_ok s s' \<Longrightarrow> chan_inv s'"
  by (simp add: event_ok_def)

lemma event_ok_refl [simp]: "event_ok s s \<longleftrightarrow> chan_inv s"
  by (simp add: event_ok_def)

lemma set_istate_ok:
  assumes inv: "chan_inv (c, w)" and set: "chan_set_istate n c = Some c'" and le: "istate c \<le> n"
    and n: "n = CHAN_INPUT_WAIT_DRAIN \<or> n = CHAN_INPUT_CLOSED"
  shows "event_ok (c, w) (c', w)"
proof -
  have c': "c' = c\<lparr>istate := n\<rparr>" using set by (simp add: chan_set_istate_def split: if_splits)
  have fwd: "forward c c'" using le by (simp add: forward_def c')
  have "n = CHAN_INPUT_CLOSED" if "istate c = CHAN_INPUT_CLOSED" using that le n by (auto simp: chan_states)
  then have "chan_inv (c', w)" using inv n unfolding chan_inv_def states_ok_def c' by simp
  then show ?thesis using fwd by (simp add: event_ok_def)
qed

lemma set_ostate_ok:
  assumes inv: "chan_inv (c, w)" and set: "chan_set_ostate n c = Some c'" and le: "ostate c \<le> n"
    and n: "n = CHAN_OUTPUT_WAIT_DRAIN \<or> n = CHAN_OUTPUT_CLOSED"
  shows "event_ok (c, w) (c', w)"
proof -
  have c': "c' = c\<lparr>ostate := n\<rparr>" using set by (simp add: chan_set_ostate_def split: if_splits)
  have fwd: "forward c c'" using le by (simp add: forward_def c')
  have "n = CHAN_OUTPUT_CLOSED" if "ostate c = CHAN_OUTPUT_CLOSED" using that le n by (auto simp: chan_states)
  then have "chan_inv (c', w)" using inv n unfolding chan_inv_def states_ok_def c' by simp
  then show ?thesis using fwd by (simp add: event_ok_def)
qed

lemma states_le:
  assumes "chan_inv (c, w)" shows "istate c \<le> CHAN_INPUT_CLOSED" "ostate c \<le> CHAN_OUTPUT_CLOSED"
  using assms by (auto simp: chan_inv_def states_ok_def chan_states)

text \<open>Sending an EOF and moving the input to its final state belong together.\<close>

lemma send_eof2_closed_ok:
  assumes "chan_inv (c, w)" and "chan_send_eof2 (c, w) = Some (c1, w1)" and "chan_set_istate CHAN_INPUT_CLOSED c1 = Some c2"
  shows "event_ok (c, w) (c2, w1)"
proof (cases "istate c = CHAN_INPUT_WAIT_DRAIN")
  case True
  then have f: "c1 = set_flag CHAN_EOF_SENT c" "sent w1 = sent w @ [MsgEof (remote_id c)]" "c2 = c1\<lparr>istate := CHAN_INPUT_CLOSED\<rparr>"
    using assms(2,3) by (auto simp: chan_send_eof2_def send_packet_def chan_set_istate_def split: if_splits bind_splits)
  have "\<not> has c CHAN_CLOSE_SENT" "\<not> has c CHAN_EOF_SENT"
    using assms(1) True by (auto simp: chan_inv_def chan_states)
  moreover have "forward c c2" using True by (simp add: forward_def f chan_states)
  ultimately show ?thesis using assms(1) f by (simp add: event_ok_def chan_inv_def states_ok_def msgs_ok_append)
next
  case False
  then have "c1 = c" "w1 = w" using assms(2) by (auto simp: chan_send_eof2_def)
  then show ?thesis using set_istate_ok [OF assms(1)] assms(3) states_le [OF assms(1)] by simp
qed

lemma chan_read_failed_ok:
  assumes "chan_inv s" and "chan_read_failed s = Some s'" shows "event_ok s s'"
proof (cases "istate (fst s) = CHAN_INPUT_OPEN")
  case True
  obtain c w where sh: "chan_shutdown_read s = (c, w)" by force
  have e: "event_ok s (c, w)" using event_ok_same [OF assms(1) same_chan_shutdown(2)] sh by simp
  have "istate c = CHAN_INPUT_OPEN" using same_chan_shutdown(2) [of s] sh True by (simp add: same_chan_def)
  then show ?thesis
    using True assms(2) sh set_istate_ok [OF event_ok_inv [OF e]] event_ok_trans [OF e]
    by (auto simp: chan_read_failed_def chan_states split: bind_splits)
qed (use assms in \<open>auto simp: chan_read_failed_def\<close>)

lemma chan_rcvd_eow_ok:
  assumes "chan_inv s" and "chan_rcvd_eow s = Some s'" shows "event_ok s s'"
proof (cases "istate (fst s) = CHAN_INPUT_OPEN")
  case True
  obtain c w where sh: "chan_shutdown_read s = (c, w)" by force
  have e: "event_ok s (c, w)" using event_ok_same [OF assms(1) same_chan_shutdown(2)] sh by simp
  then show ?thesis
    using True assms(2) sh set_istate_ok [OF event_ok_inv [OF e]] states_le [OF event_ok_inv [OF e]] event_ok_trans [OF e]
    by (auto simp: chan_rcvd_eow_def split: bind_splits)
qed (use assms in \<open>auto simp: chan_rcvd_eow_def\<close>)

lemma chan_ibuf_empty_ok:
  assumes "chan_inv s" and "chan_ibuf_empty s = Some s'" shows "event_ok s s'"
proof (cases "sshbuf_len (cinput (fst s)) = 0 \<and> istate (fst s) = CHAN_INPUT_WAIT_DRAIN")
  case True
  obtain c w where s: "s = (c, w)" by force
  show ?thesis
  proof (cases "has c (CHAN_CLOSE_SENT OR CHAN_LOCAL)")
    case h: True
    then show ?thesis using True assms s set_istate_ok [of c w CHAN_INPUT_CLOSED] states_le [of c w]
      by (auto simp: chan_ibuf_empty_def split: bind_splits)
  next
    case h: False
    then show ?thesis using True assms s send_eof2_closed_ok [of c w]
      by (auto simp: chan_ibuf_empty_def split: bind_splits)
  qed
qed (use assms in \<open>auto simp: chan_ibuf_empty_def split: if_splits\<close>)

lemma chan_obuf_empty_ok:
  assumes "chan_inv s" and "chan_obuf_empty A s = Some s'" shows "event_ok s s'"
proof (cases "sshbuf_len (coutput (fst s)) = 0 \<and> ostate (fst s) = CHAN_OUTPUT_WAIT_DRAIN")
  case True
  obtain c w where sh: "chan_shutdown_write A s = (c, w)" by force
  have e: "event_ok s (c, w)" using event_ok_same [OF assms(1) same_chan_shutdown(1)] sh by metis
  show ?thesis
    using True assms(2) sh set_ostate_ok [OF event_ok_inv [OF e]] states_le [OF event_ok_inv [OF e]] event_ok_trans [OF e]
    by (auto simp: chan_obuf_empty_def split: bind_splits)
qed (use assms in \<open>auto simp: chan_obuf_empty_def split: if_splits\<close>)

lemma set_flag_ok:
  assumes "chan_inv (c, w)" and "f AND CHAN_CLOSE_SENT = 0" and "f AND CHAN_EOF_SENT = 0"
  shows "event_ok (c, w) (set_flag f c, w)"
  using assms by (simp add: event_ok_def chan_inv_def states_ok_def forward_def)

lemma drain_output_ok:
  assumes "chan_inv (c, w)"
    and "(if ostate c = CHAN_OUTPUT_OPEN then chan_set_ostate CHAN_OUTPUT_WAIT_DRAIN c else Some c) = Some c'"
  shows "event_ok (c, w) (c', w)"
  using assms set_ostate_ok [of c w CHAN_OUTPUT_WAIT_DRAIN c'] by (simp add: chan_states split: if_splits)

lemma chan_rcvd_ieof_ok:
  assumes "chan_inv s" and "chan_rcvd_ieof A s = Some s'" shows "event_ok s s'"
proof -
  obtain c w where s: "s = (c, w)" by force
  let ?c1 = "set_flag CHAN_EOF_RCVD c"
  have e1: "event_ok (c, w) (?c1, w)" using set_flag_ok assms(1) s by simp
  obtain c2 where c2: "(if ostate ?c1 = CHAN_OUTPUT_OPEN then chan_set_ostate CHAN_OUTPUT_WAIT_DRAIN ?c1 else Some ?c1) = Some c2"
      "(if ostate c2 = CHAN_OUTPUT_WAIT_DRAIN \<and> sshbuf_len (coutput c2) = 0 \<and> \<not> CHANNEL_EFD_OUTPUT_ACTIVE c2
        then chan_obuf_empty A (c2, w) else Some (c2, w)) = Some s'"
    using assms(2) s unfolding chan_rcvd_ieof_def Let_def by (simp del: set_flag_simps split: bind_splits)
  have e2: "event_ok (c, w) (c2, w)"
    using event_ok_trans [OF e1 drain_output_ok [OF event_ok_inv [OF e1] c2(1)]] .
  show ?thesis
    using c2(2) event_ok_trans [OF e2 chan_obuf_empty_ok [OF event_ok_inv [OF e2]]] e2 s by (auto split: if_splits)
qed

lemma rcvd_oclose_input_ok:
  assumes "chan_inv s" and "rcvd_oclose_input s = Some s'" shows "event_ok s s'"
proof -
  consider "istate (fst s) = CHAN_INPUT_OPEN" | "istate (fst s) = CHAN_INPUT_WAIT_DRAIN"
    | "istate (fst s) \<noteq> CHAN_INPUT_OPEN" "istate (fst s) \<noteq> CHAN_INPUT_WAIT_DRAIN" by blast
  then show ?thesis
  proof cases
    case 1
    obtain c w where sh: "chan_shutdown_extended_read (chan_shutdown_read s) = (c, w)" by force
    have e: "event_ok s (c, w)" using event_ok_same [OF assms(1) same_chan_shutdown(4)] sh by metis
    show ?thesis
      using 1 assms(2) sh set_istate_ok [OF event_ok_inv [OF e]] states_le [OF event_ok_inv [OF e]] event_ok_trans [OF e]
      by (auto simp: rcvd_oclose_input_def split: bind_splits)
  next
    case 2
    obtain c w where s: "s = (c, w)" by force
    obtain s1 where s1: "(if \<not> has c CHAN_LOCAL then chan_send_eof2 s else Some s) = Some s1"
      using 2 assms(2) s by (auto simp: rcvd_oclose_input_def chan_states split: bind_splits if_splits)
    obtain c1 w1 where sh: "chan_shutdown_extended_read s1 = (c1, w1)" by force
    obtain c2 where c2: "chan_set_istate CHAN_INPUT_CLOSED c1 = Some c2" "s' = (c2, w1)"
      using 2 assms(2) s s1 sh by (auto simp: rcvd_oclose_input_def chan_states split: bind_splits if_splits)
    have sm: "same_chan s1 (c1, w1)" using same_chan_shutdown(3) sh by metis
    obtain c1' w1' where s1': "s1 = (c1', w1')" by force
    let ?t = "(c1'\<lparr>istate := CHAN_INPUT_CLOSED\<rparr>, w1')"
    have st: "chan_set_istate CHAN_INPUT_CLOSED c1' = Some (c1'\<lparr>istate := CHAN_INPUT_CLOSED\<rparr>)"
      using c2(1) sm s1' by (auto simp: chan_set_istate_def same_chan_def split: if_splits)
    have e1: "event_ok s ?t"
    proof (cases "has c CHAN_LOCAL")
      case True
      then have "c1' = c" "w1' = w" using s1 s1' s by auto
      then show ?thesis using set_istate_ok [of c w _ "c\<lparr>istate := CHAN_INPUT_CLOSED\<rparr>"] assms(1) s st states_le [of c w] by auto
    next
      case False
      then show ?thesis using send_eof2_closed_ok [OF _ _ st, of c w w1'] s1 s1' s assms(1) by auto
    qed
    have "same_chan ?t s'"
      using sm c2 s1' by (auto simp: same_chan_def chan_set_istate_def split: if_splits)
    then show ?thesis using event_ok_trans [OF e1 event_ok_same [OF event_ok_inv [OF e1]]] by blast
  next
    case 3
    then show ?thesis using assms by (simp add: rcvd_oclose_input_def)
  qed
qed

lemma chan_rcvd_oclose_ok:
  assumes "chan_inv s" and "chan_rcvd_oclose s = Some s'" shows "event_ok s s'"
proof -
  obtain c w where s: "s = (c, w)" by force
  define c1 where "c1 = (if \<not> has c CHAN_LOCAL then set_flag CHAN_CLOSE_RCVD c else c)"
  have e1: "event_ok (c, w) (c1, w)" using set_flag_ok [of c w CHAN_CLOSE_RCVD] assms(1) s by (simp add: c1_def)
  have run: "chan_rcvd_oclose s = (if ctyp c1 = SSH_CHANNEL_LARVAL then
      chan_set_ostate CHAN_OUTPUT_CLOSED c1 \<bind> (\<lambda>c2. chan_set_istate CHAN_INPUT_CLOSED c2 \<bind> (\<lambda>c3. Some (c3, w)))
    else (if ostate c1 = CHAN_OUTPUT_OPEN then chan_set_ostate CHAN_OUTPUT_WAIT_DRAIN c1 else Some c1) \<bind>
      (\<lambda>c2. rcvd_oclose_input (c2, w)))"
    by (simp add: chan_rcvd_oclose_def s c1_def Let_def)
  show ?thesis
  proof (cases "ctyp c1 = SSH_CHANNEL_LARVAL")
    case True
    then obtain c2 c3 where c2: "chan_set_ostate CHAN_OUTPUT_CLOSED c1 = Some c2"
        "chan_set_istate CHAN_INPUT_CLOSED c2 = Some c3" "s' = (c3, w)"
      using assms(2) unfolding run by (auto split: bind_splits)
    have e2: "event_ok (c1, w) (c2, w)"
      using set_ostate_ok [OF event_ok_inv [OF e1] c2(1)] states_le [OF event_ok_inv [OF e1]] by simp
    have "event_ok (c2, w) (c3, w)"
      using set_istate_ok [OF event_ok_inv [OF e2] c2(2)] states_le [OF event_ok_inv [OF e2]] by simp
    then show ?thesis using event_ok_trans [OF e1 event_ok_trans [OF e2]] s c2(3) by simp
  next
    case False
    then obtain c2 where c2: "(if ostate c1 = CHAN_OUTPUT_OPEN then chan_set_ostate CHAN_OUTPUT_WAIT_DRAIN c1 else Some c1) = Some c2"
        "rcvd_oclose_input (c2, w) = Some s'"
      using assms(2) unfolding run by (auto split: bind_splits)
    have e2: "event_ok (c1, w) (c2, w)" using drain_output_ok [OF event_ok_inv [OF e1] c2(1)] .
    show ?thesis
      using event_ok_trans [OF e1 event_ok_trans [OF e2 rcvd_oclose_input_ok [OF event_ok_inv [OF e2] c2(2)]]] s by simp
  qed
qed

lemma send_eow2_ok:
  assumes inv: "chan_inv (c, w)" and run: "chan_send_eow2 (c, w) = Some (c', w')"
  shows "event_ok (c, w) (c', w')" and "c' = c"
proof -
  show c': "c' = c" using run by (auto simp: chan_send_eow2_def split: if_splits bind_splits)
  have "w' = w \<or> (ostate c \<noteq> CHAN_OUTPUT_CLOSED \<and> sent w' = sent w @ [MsgEow (remote_id c)])"
    using run by (auto simp: chan_send_eow2_def send_packet_def split: if_splits bind_splits)
  then show "event_ok (c, w) (c', w')"
    using inv by (auto simp: event_ok_def chan_inv_def msgs_ok_append c')
qed

lemma chan_write_failed_ok:
  assumes "chan_inv s" and "chan_write_failed A s = Some s'" shows "event_ok s s'"
proof (cases "ostate (fst s) = CHAN_OUTPUT_OPEN \<or> ostate (fst s) = CHAN_OUTPUT_WAIT_DRAIN")
  case True
  obtain c w where sh: "chan_shutdown_write A s = (c, w)" by force
  have e1: "event_ok s (c, w)" using event_ok_same [OF assms(1) same_chan_shutdown(1)] sh by metis
  obtain c1 w1 where c1: "(if ctype c = ''session'' then chan_send_eow2 (c, w) else Some (c, w)) = Some (c1, w1)"
      "\<exists>c2. chan_set_ostate CHAN_OUTPUT_CLOSED c1 = Some c2 \<and> s' = (c2, w1)"
    using True assms(2) sh by (auto simp: chan_write_failed_def Let_def split: bind_splits prod.splits)
  have e2: "event_ok (c, w) (c1, w1)"
    using c1(1) send_eow2_ok(1) [OF event_ok_inv [OF e1]] event_ok_inv [OF e1] by (auto split: if_splits)
  obtain c2 where c2: "chan_set_ostate CHAN_OUTPUT_CLOSED c1 = Some c2" "s' = (c2, w1)" using c1(2) by blast
  have "event_ok (c1, w1) s'"
    using set_ostate_ok [OF event_ok_inv [OF e2] c2(1)] states_le [OF event_ok_inv [OF e2]] c2(2) by simp
  then show ?thesis using event_ok_trans [OF e1 event_ok_trans [OF e2]] by blast
qed (use assms in \<open>auto simp: chan_write_failed_def\<close>)

lemma chan_mark_dead_ok: "chan_inv s \<Longrightarrow> event_ok s (chan_mark_dead s)"
  by (cases s) (simp add: event_ok_def chan_mark_dead_def chan_inv_def states_ok_def forward_def)

lemma chan_send_close2_ok:
  assumes inv: "chan_inv s" and run: "chan_send_close2 s = Some s'"
  shows "event_ok s s'"
proof -
  obtain c w where s: "s = (c, w)" by force
  show ?thesis
  proof (cases "ostate c = CHAN_OUTPUT_CLOSED \<and> istate c = CHAN_INPUT_CLOSED \<and> \<not> has c CHAN_CLOSE_SENT")
    case True
    then obtain w' where w': "s' = (set_flag CHAN_CLOSE_SENT c, w')" "sent w' = sent w @ [MsgClose (remote_id c)]"
      using run s by (auto simp: chan_send_close2_def send_packet_def split: if_splits bind_splits)
    then show ?thesis using inv True
      by (simp add: s event_ok_def chan_inv_def states_ok_def msgs_ok_append forward_def)
  next
    case False
    then have "s' = s" using run s by (auto simp: chan_send_close2_def split: if_splits)
    then show ?thesis using inv by simp
  qed
qed

lemma chan_is_dead_ok:
  assumes inv: "chan_inv s" and run: "chan_is_dead do_send s = Some (r, s')"
  shows "event_ok s s'"
proof -
  have "s' = s \<or> chan_send_close2 s = Some s'"
    using run by (auto simp: chan_is_dead_def split: prod.splits if_splits bind_splits)
  then show ?thesis
  proof
    assume "chan_send_close2 s = Some s'"
    then show ?thesis by (rule chan_send_close2_ok [OF inv])
  qed (use inv in simp)
qed

text \<open>When a channel that is not local is found dead, both CLOSE messages have been exchanged.\<close>

lemma chan_is_dead_true:
  assumes "chan_is_dead True s = Some (True, s')" and "ctyp (fst s) \<noteq> SSH_CHANNEL_ZOMBIE" and "\<not> has (fst s) CHAN_LOCAL"
  shows "has (fst s') CHAN_CLOSE_SENT" and "has (fst s') CHAN_CLOSE_RCVD"
  using assms by (auto simp: chan_is_dead_def split: prod.splits if_splits bind_splits)

end
