(* ===== verification/Channel_Data.thy ===== *)
theory Channel_Data
  imports Nchan
begin

text \<open>
  The data path of one open channel, from \<^verbatim>\<open>channels.c\<close>: what the \<^verbatim>\<open>select\<close> loop does with its descriptors
  (\<^verbatim>\<open>channel_pre_open\<close>, \<^verbatim>\<open>channel_handle_rfd\<close>, \<^verbatim>\<open>channel_handle_wfd\<close>, \<^verbatim>\<open>channel_handle_efd\<close>,
  \<^verbatim>\<open>channel_check_window\<close>), what it sends to the peer (\<^verbatim>\<open>channel_output_poll\<close>) and what it does with the
  messages of the peer (\<^verbatim>\<open>channel_input_data\<close> and the other handlers, after the look-up of the channel). The
  results of system calls are arguments. As in \<open>Nchan\<close>, \<open>None\<close> is the end of the process or of the connection.
\<close>

section \<open>System calls and packets\<close>

datatype errno = EINTR | EAGAIN | EOTHER

type_synonym read_res = "errno + byte list"
type_synonym write_res = "errno + nat"

datatype interest = ReadSet int | WriteSet int

definition CHAN_RBUF :: nat where "CHAN_RBUF = 16 * 1024"

definition or_fatal :: "unit res \<times> sshbuf \<Rightarrow> sshbuf option" where
  "or_fatal x = (case x of (Inl e, b) \<Rightarrow> None | (Inr _, b) \<Rightarrow> Some b)"

text \<open>The bytes between \<^verbatim>\<open>sshbuf_ptr\<close> and the end of the data.\<close>

definition buf_bytes :: "sshbuf \<Rightarrow> byte list" where
  "buf_bytes b = sshbuf_read b (off b) (sshbuf_len b)"

text \<open>Reading the incoming packet: \<^verbatim>\<open>sshpkt_get_u32\<close>, \<^verbatim>\<open>sshpkt_get_string_direct\<close>, \<^verbatim>\<open>sshpkt_get_cstring\<close> and
  \<^verbatim>\<open>sshpkt_get_end\<close> of \<^verbatim>\<open>packet.c\<close> on its buffer.\<close>

definition sshpkt_get_u32 :: "sshbuf \<Rightarrow> (32 word \<times> sshbuf) option" where
  "sshpkt_get_u32 p = (case sshbuf_get_u32 p of (Inl e, b) \<Rightarrow> None | (Inr v, b) \<Rightarrow> Some (v, b))"

definition sshpkt_get_string_direct :: "sshbuf \<Rightarrow> (byte list \<times> sshbuf) option" where
  "sshpkt_get_string_direct p =
    (case sshbuf_get_string_direct p of (Inl e, b) \<Rightarrow> None | (Inr (q, n), b) \<Rightarrow> Some (sshbuf_read b q n, b))"

definition sshpkt_get_cstring :: "allocator \<Rightarrow> sshbuf \<Rightarrow> (byte list \<times> sshbuf) option" where
  "sshpkt_get_cstring A p =
    (case sshbuf_get_cstring A True p of (Inl e, b) \<Rightarrow> None | (Inr (v, n), b) \<Rightarrow> Some (take n v, b))"

definition sshpkt_get_end :: "sshbuf \<Rightarrow> unit option" where
  "sshpkt_get_end p = (if sshbuf_len p > 0 then None else Some ())"

section \<open>Descriptors\<close>

definition channel_pre_open :: "allocator \<Rightarrow> channel \<times> ssh \<Rightarrow> (interest list \<times> channel \<times> ssh) option" where
  "channel_pre_open A s =
    do { let c = fst s;
         let rset = (if istate c = CHAN_INPUT_OPEN \<and> remote_window c > 0 \<and>
                        sshbuf_len (cinput c) < unat (remote_window c) \<and>
                        (case sshbuf_check_reserve (cinput c) CHAN_RBUF of Inl _ \<Rightarrow> False | Inr _ \<Rightarrow> True)
                     then [ReadSet (rfd c)] else []);
         let drain = ostate c = CHAN_OUTPUT_OPEN \<or> ostate c = CHAN_OUTPUT_WAIT_DRAIN;
         let wset = (if drain \<and> sshbuf_len (coutput c) > 0 then [WriteSet (wfd c)] else []);
         s1 \<leftarrow> (if drain \<and> sshbuf_len (coutput c) = 0 \<and> ostate c = CHAN_OUTPUT_WAIT_DRAIN \<and>
                   \<not> CHANNEL_EFD_OUTPUT_ACTIVE c
                then chan_obuf_empty A s else Some s);
         let c1 = fst s1;
         let eset = (if efd c1 \<noteq> -1 \<and> \<not> (istate c1 = CHAN_INPUT_CLOSED \<and> ostate c1 = CHAN_OUTPUT_CLOSED) then
                       if extended_usage c1 = CHAN_EXTENDED_WRITE \<and> sshbuf_len (cextended c1) > 0
                       then [WriteSet (efd c1)]
                       else if \<not> has c1 CHAN_EOF_SENT \<and>
                         (extended_usage c1 = CHAN_EXTENDED_READ \<or> extended_usage c1 = CHAN_EXTENDED_IGNORE) \<and>
                         sshbuf_len (cextended c1) < unat (remote_window c1)
                       then [ReadSet (efd c1)] else []
                     else []);
         Some (rset @ wset @ eset, s1) }"

text \<open>
  The filters of a channel: \<open>in_filter f buf\<close> is called with what was read and says whether to go on;
  \<open>out_filter f\<close> gives the bytes to write, or none to stop.
\<close>

record filters =
  in_filter :: "nat \<Rightarrow> byte list \<Rightarrow> channel \<times> ssh \<Rightarrow> bool \<times> channel \<times> ssh"
  out_filter :: "nat \<Rightarrow> channel \<times> ssh \<Rightarrow> byte list option \<times> channel \<times> ssh"

text \<open>\<open>pty_zeroread\<close> is the configuration macro \<^verbatim>\<open>PTY_ZEROREAD\<close>: a terminal may return nothing without being
  closed. The code clears \<^verbatim>\<open>errno\<close> before it reads.\<close>

definition read_data :: "bool \<Rightarrow> channel \<Rightarrow> read_res \<Rightarrow> byte list option" where
  "read_data pty_zeroread c rd = (case rd of Inl _ \<Rightarrow> None
     | Inr bs \<Rightarrow> if bs = [] \<and> \<not> (pty_zeroread \<and> isatty c) then None else Some bs)"

definition force_read :: "channel \<Rightarrow> bool" where
  "force_read c \<longleftrightarrow> isatty c \<and> detach_close c \<and> istate c \<noteq> CHAN_INPUT_CLOSED"

definition channel_handle_rfd ::
    "allocator \<Rightarrow> filters \<Rightarrow> bool \<Rightarrow> bool \<Rightarrow> read_res \<Rightarrow> channel \<times> ssh \<Rightarrow> (channel \<times> ssh) option" where
  "channel_handle_rfd A F pty_zeroread ready rd s = (case s of (c, w) \<Rightarrow>
     if rfd c = -1 \<or> \<not> force_read c \<and> \<not> ready then Some s
     else if rd = Inl EINTR \<or> rd = Inl EAGAIN \<and> \<not> force_read c then Some s
     else (case read_data pty_zeroread c rd of
         None \<Rightarrow> if ctyp c \<noteq> SSH_CHANNEL_OPEN then Some (chan_mark_dead s) else chan_read_failed s
       | Some buf \<Rightarrow>
           (case input_filter c of
              Some f \<Rightarrow> (case in_filter F f buf s of (go, s1) \<Rightarrow> if go then Some s1 else chan_read_failed s1)
            | None \<Rightarrow>
                do { b \<leftarrow> or_fatal (if datagram c then sshbuf_put_string A (cinput c) buf
                                    else sshbuf_put A (cinput c) buf);
                     Some (c\<lparr>cinput := b\<rparr>, w) })))"

definition wfd_data :: "allocator \<Rightarrow> filters \<Rightarrow> channel \<times> ssh \<Rightarrow> (byte list option \<times> channel \<times> ssh) option" where
  "wfd_data A F s = (case s of (c, w) \<Rightarrow>
     (case output_filter c of
        Some f \<Rightarrow> Some (out_filter F f s)
      | None \<Rightarrow>
          if datagram c then
            (case sshbuf_get_string A True (coutput c) of
               (Inl e, b) \<Rightarrow> None
             | (Inr (v, n), b) \<Rightarrow> Some (Some (take n v), c\<lparr>coutput := b\<rparr>, w))
          else Some (Some (buf_bytes (coutput c)), c, w)))"

definition wfd_failed :: "allocator \<Rightarrow> channel \<times> ssh \<Rightarrow> (channel \<times> ssh) option" where
  "wfd_failed A s = (if ctyp (fst s) \<noteq> SSH_CHANNEL_OPEN then Some (chan_mark_dead s) else chan_write_failed A s)"

definition send_ignore :: "nat \<Rightarrow> ssh \<Rightarrow> ssh option" where
  "send_ignore n w = (if pkt_ok w then Some (w\<lparr>ignores := ignores w @ [n]\<rparr>) else None)"

text \<open>\<open>olen - sshbuf_len(c->output)\<close> is computed in \<^verbatim>\<open>size_t\<close> and added to a \<^verbatim>\<open>u_int\<close>.\<close>

definition add_consumed :: "nat \<Rightarrow> channel \<Rightarrow> channel" where
  "add_consumed olen c =
    c\<lparr>local_consumed := local_consumed c + (of_nat olen - of_nat (sshbuf_len (coutput c)))\<rparr>"

text \<open>\<open>noecho\<close>: \<^verbatim>\<open>tcgetattr\<close> reports a terminal in canonical mode that does not echo.\<close>

definition channel_handle_wfd ::
    "allocator \<Rightarrow> filters \<Rightarrow> bool \<Rightarrow> bool \<Rightarrow> write_res \<Rightarrow> channel \<times> ssh \<Rightarrow> (channel \<times> ssh) option" where
  "channel_handle_wfd A F noecho ready wr s =
    (if wfd (fst s) = -1 \<or> \<not> ready \<or> sshbuf_len (coutput (fst s)) = 0 then Some s
     else do { let olen = sshbuf_len (coutput (fst s));
               (data, s1) \<leftarrow> wfd_data A F s;
               case data of None \<Rightarrow> wfd_failed A s1
               | Some buf \<Rightarrow>
                   (case wr of
                      Inl EINTR \<Rightarrow> Some s1
                    | Inl EAGAIN \<Rightarrow> Some s1
                    | Inl EOTHER \<Rightarrow> wfd_failed A s1
                    | Inr len \<Rightarrow>
                        if len = 0 then wfd_failed A s1
                        else if datagram (fst s1) then Some (add_consumed olen (fst s1), snd s1)
                        else do { w1 \<leftarrow> (if isatty (fst s1) \<and> buf \<noteq> [] \<and> hd buf \<noteq> 13 \<and> noecho
                                         then send_ignore (4 + len) (snd s1) else Some (snd s1));
                                  b \<leftarrow> or_fatal (sshbuf_consume (coutput (fst s1)) len);
                                  Some (add_consumed olen (fst s1\<lparr>coutput := b\<rparr>), w1) }) })"

definition channel_handle_efd_write :: "bool \<Rightarrow> write_res \<Rightarrow> channel \<times> ssh \<Rightarrow> (channel \<times> ssh) option" where
  "channel_handle_efd_write ready wr s = (case s of (c, w) \<Rightarrow>
     if \<not> ready \<or> sshbuf_len (cextended c) = 0 then Some s
     else (case wr of
         Inl EINTR \<Rightarrow> Some s
       | Inl EAGAIN \<Rightarrow> Some s
       | Inl EOTHER \<Rightarrow> Some (c\<lparr>efd := -1\<rparr>, close_fd (efd c) w)
       | Inr len \<Rightarrow>
           if len = 0 then Some (c\<lparr>efd := -1\<rparr>, close_fd (efd c) w)
           else do { b \<leftarrow> or_fatal (sshbuf_consume (cextended c) len);
                     Some (c\<lparr>cextended := b, local_consumed := local_consumed c + of_nat len\<rparr>, w) }))"

definition channel_handle_efd_read ::
    "allocator \<Rightarrow> bool \<Rightarrow> read_res \<Rightarrow> channel \<times> ssh \<Rightarrow> (channel \<times> ssh) option" where
  "channel_handle_efd_read A ready rd s = (case s of (c, w) \<Rightarrow>
     if efd c = -1 \<or> \<not> force_read c \<and> \<not> ready then Some s
     else if rd = Inl EINTR \<or> rd = Inl EAGAIN \<and> \<not> force_read c then Some s
     else (case rd of
         Inl _ \<Rightarrow> Some (c\<lparr>efd := -1\<rparr>, close_fd (efd c) w)
       | Inr buf \<Rightarrow>
           if buf = [] then Some (c\<lparr>efd := -1\<rparr>, close_fd (efd c) w)
           else if extended_usage c = CHAN_EXTENDED_IGNORE then Some s
           else do { b \<leftarrow> or_fatal (sshbuf_put A (cextended c) buf); Some (c\<lparr>cextended := b\<rparr>, w) }))"

definition channel_handle_efd ::
    "allocator \<Rightarrow> bool \<Rightarrow> read_res \<Rightarrow> write_res \<Rightarrow> channel \<times> ssh \<Rightarrow> (channel \<times> ssh) option" where
  "channel_handle_efd A ready rd wr s =
    (if efd (fst s) = -1 then Some s
     else if extended_usage (fst s) = CHAN_EXTENDED_WRITE then channel_handle_efd_write ready wr s
     else channel_handle_efd_read A ready rd s)"

definition channel_check_window :: "channel \<times> ssh \<Rightarrow> (channel \<times> ssh) option" where
  "channel_check_window s = (case s of (c, w) \<Rightarrow>
     if ctyp c = SSH_CHANNEL_OPEN \<and> \<not> has c (CHAN_CLOSE_SENT OR CHAN_CLOSE_RCVD) \<and>
        (local_window_max c - local_window c > local_maxpacket c * 3 \<or> local_window c < local_window_max c div 2) \<and>
        local_consumed c > 0
     then if \<not> have_remote_id c then None
          else do { w1 \<leftarrow> send_packet (MsgWindowAdjust (remote_id c) (local_consumed c)) w;
                    Some (c\<lparr>local_window := local_window c + local_consumed c, local_consumed := 0\<rparr>, w1) }
     else Some s)"

text \<open>The results of the system calls of one round of the loop on one channel.\<close>

record io =
  rfd_ready :: bool
  rfd_res :: read_res
  wfd_ready :: bool
  wfd_res :: write_res
  efd_ready :: bool
  efd_rres :: read_res
  efd_wres :: write_res
  io_noecho :: bool

definition channel_post_open ::
    "allocator \<Rightarrow> filters \<Rightarrow> bool \<Rightarrow> io \<Rightarrow> channel \<times> ssh \<Rightarrow> (channel \<times> ssh) option" where
  "channel_post_open A F pty_zeroread i s =
    do { s1 \<leftarrow> channel_handle_rfd A F pty_zeroread (rfd_ready i) (rfd_res i) s;
         s2 \<leftarrow> channel_handle_wfd A F (io_noecho i) (wfd_ready i) (wfd_res i) s1;
         s3 \<leftarrow> channel_handle_efd A (efd_ready i) (efd_rres i) (efd_wres i) s2;
         channel_check_window s3 }"

section \<open>Sending to the peer\<close>

definition channel_output_poll_input_open :: "allocator \<Rightarrow> channel \<times> ssh \<Rightarrow> (channel \<times> ssh) option" where
  "channel_output_poll_input_open A s = (case s of (c, w) \<Rightarrow>
     if sshbuf_len (cinput c) = 0 then
       if istate c = CHAN_INPUT_WAIT_DRAIN \<and> \<not> CHANNEL_EFD_INPUT_ACTIVE c then chan_ibuf_empty s else Some s
     else if \<not> have_remote_id c then None
     else if datagram c then
       (case sshbuf_get_string_direct (cinput c) of
          (Inl e, b) \<Rightarrow> None
        | (Inr (p, plen), b) \<Rightarrow>
            let c1 = c\<lparr>cinput := b\<rparr> in
            if plen > unat (remote_window c) \<or> plen > unat (remote_maxpacket c) then Some (c1, w)
            else do { w1 \<leftarrow> send_packet (MsgData (remote_id c) (sshbuf_read b p plen)) w;
                      Some (c1\<lparr>remote_window := remote_window c - of_nat plen\<rparr>, w1) })
     else (let len = min (min (sshbuf_len (cinput c)) (unat (remote_window c))) (unat (remote_maxpacket c)) in
       if len = 0 then Some s
       else do { w1 \<leftarrow> send_packet (MsgData (remote_id c) (sshbuf_read (cinput c) (off (cinput c)) len)) w;
                 b \<leftarrow> or_fatal (sshbuf_consume (cinput c) len);
                 Some (c\<lparr>cinput := b, remote_window := remote_window c - of_nat len\<rparr>, w1) }))"

definition channel_output_poll_extended_read :: "channel \<times> ssh \<Rightarrow> (channel \<times> ssh) option" where
  "channel_output_poll_extended_read s = (case s of (c, w) \<Rightarrow>
     let len = min (min (sshbuf_len (cextended c)) (unat (remote_window c))) (unat (remote_maxpacket c)) in
     if len = 0 then Some s
     else if \<not> have_remote_id c then None
     else do { w1 \<leftarrow> send_packet (MsgExtData (remote_id c) (sshbuf_read (cextended c) (off (cextended c)) len)) w;
               b \<leftarrow> or_fatal (sshbuf_consume (cextended c) len);
               Some (c\<lparr>cextended := b, remote_window := remote_window c - of_nat len\<rparr>, w1) })"

definition channel_output_poll_channel :: "allocator \<Rightarrow> channel \<times> ssh \<Rightarrow> (channel \<times> ssh) option" where
  "channel_output_poll_channel A s =
    (if ctyp (fst s) \<noteq> SSH_CHANNEL_OPEN then Some s
     else if has (fst s) (CHAN_CLOSE_SENT OR CHAN_CLOSE_RCVD) then Some s
     else do { s1 \<leftarrow> (if istate (fst s) = CHAN_INPUT_OPEN \<or> istate (fst s) = CHAN_INPUT_WAIT_DRAIN
                      then channel_output_poll_input_open A s else Some s);
               if \<not> has (fst s1) CHAN_EOF_SENT \<and> extended_usage (fst s1) = CHAN_EXTENDED_READ
               then channel_output_poll_extended_read s1 else Some s1 })"

section \<open>Messages of the peer\<close>

text \<open>The handlers from the point where the channel is known; \<open>p\<close> is the rest of the packet.\<close>

definition input_data :: "allocator \<Rightarrow> sshbuf \<Rightarrow> channel \<times> ssh \<Rightarrow> (channel \<times> ssh) option" where
  "input_data A p s = (case s of (c, w) \<Rightarrow>
     if ctyp c \<notin> {SSH_CHANNEL_OPEN, SSH_CHANNEL_RDYNAMIC_OPEN, SSH_CHANNEL_RDYNAMIC_FINISH, SSH_CHANNEL_X11_OPEN}
     then Some s
     else do { (data, p1) \<leftarrow> sshpkt_get_string_direct p;
               _ \<leftarrow> sshpkt_get_end p1;
               let win_len = length data + (if datagram c then 4 else 0);
               if ostate c \<noteq> CHAN_OUTPUT_OPEN then
                 Some (c\<lparr>local_window := local_window c - of_nat win_len,
                         local_consumed := local_consumed c + of_nat win_len\<rparr>, w)
               else if win_len > unat (local_maxpacket c) then Some s
               else if win_len > unat (local_window c) then Some s
               else do { b \<leftarrow> or_fatal (if datagram c then sshbuf_put_string A (coutput c) data
                                        else sshbuf_put A (coutput c) data);
                         Some (c\<lparr>local_window := local_window c - of_nat win_len, coutput := b\<rparr>, w) } })"

definition SSH2_EXTENDED_DATA_STDERR :: "32 word" where "SSH2_EXTENDED_DATA_STDERR = 1"

definition input_extended_data :: "allocator \<Rightarrow> sshbuf \<Rightarrow> channel \<times> ssh \<Rightarrow> (channel \<times> ssh) option" where
  "input_extended_data A p s = (case s of (c, w) \<Rightarrow>
     if ctyp c \<noteq> SSH_CHANNEL_OPEN then Some s
     else if has c CHAN_EOF_RCVD \<and> \<not> bug_exteof w then None
     else do { (tcode, p1) \<leftarrow> sshpkt_get_u32 p;
               if efd c = -1 \<or> extended_usage c \<noteq> CHAN_EXTENDED_WRITE \<or> tcode \<noteq> SSH2_EXTENDED_DATA_STDERR
               then Some s
               else do { (data, p2) \<leftarrow> sshpkt_get_string_direct p1;
                         _ \<leftarrow> sshpkt_get_end p2;
                         if length data > unat (local_window c) then Some s
                         else Some (c\<lparr>cextended := snd (sshbuf_put A (cextended c) data),
                                      local_window := local_window c - of_nat (length data)\<rparr>, w) } })"

definition input_ieof :: "allocator \<Rightarrow> channel \<times> ssh \<Rightarrow> (channel \<times> ssh) option" where
  "input_ieof A s =
    do { s1 \<leftarrow> chan_rcvd_ieof A s;
         if force_drain (fst s1) \<and> istate (fst s1) = CHAN_INPUT_OPEN then
           do { let s2 = (fst s1\<lparr>istate := CHAN_INPUT_WAIT_DRAIN\<rparr>, snd s1);
                if sshbuf_len (cinput (fst s2)) = 0 then chan_ibuf_empty s2 else Some s2 }
         else Some s1 }"

definition input_oclose :: "sshbuf \<Rightarrow> channel \<times> ssh \<Rightarrow> (channel \<times> ssh) option" where
  "input_oclose p s = do { _ \<leftarrow> sshpkt_get_end p; chan_rcvd_oclose s }"

definition input_open_confirmation :: "sshbuf \<Rightarrow> channel \<times> ssh \<Rightarrow> (channel \<times> ssh) option" where
  "input_open_confirmation p s = (case s of (c, w) \<Rightarrow>
     if ctyp c \<noteq> SSH_CHANNEL_OPENING then None
     else do { (rid, p1) \<leftarrow> sshpkt_get_u32 p;
               (rwin, p2) \<leftarrow> sshpkt_get_u32 p1;
               (rmax, p3) \<leftarrow> sshpkt_get_u32 p2;
               _ \<leftarrow> sshpkt_get_end p3;
               Some (c\<lparr>remote_id := rid, have_remote_id := True, remote_window := rwin, remote_maxpacket := rmax,
                       ctyp := SSH_CHANNEL_OPEN\<rparr>, w) })"

definition input_window_adjust :: "sshbuf \<Rightarrow> channel \<times> ssh \<Rightarrow> (channel \<times> ssh) option" where
  "input_window_adjust p s = (case s of (c, w) \<Rightarrow>
     do { (adjust, p1) \<leftarrow> sshpkt_get_u32 p;
          _ \<leftarrow> sshpkt_get_end p1;
          if remote_window c + adjust < remote_window c then None
          else Some (c\<lparr>remote_window := remote_window c + adjust\<rparr>, w) })"

section \<open>Contracts of the buffer operations\<close>

declare length_contents [simp del]

lemma buf_bytes_contents [simp]: "sshbuf_wf b \<Longrightarrow> buf_bytes b = contents b"
proof -
  assume wf: "sshbuf_wf b"
  then have "sshbuf_len b = bsize b - off b" by (simp add: length_contents)
  then show ?thesis by (simp only: buf_bytes_def sshbuf_read_def contents_def)
qed

lemma or_fatal_put:
  assumes "sshbuf_wf b" and "or_fatal (sshbuf_put A b v) = Some b'"
  shows "sshbuf_wf b'" and "contents b' = contents b @ v" and "same_header b b'"
proof -
  have run: "sshbuf_put A b v = (Inr (), b')"
    using assms(2) by (auto simp: or_fatal_def split: prod.splits sum.splits)
  show "sshbuf_wf b'" "contents b' = contents b @ v" "same_header b b'"
    using sshbuf_put_correct [OF assms(1) run] by auto
qed

lemma sshbuf_put_room:
  assumes "sshbuf_wf b" and "writable b" and "\<forall>k. malloc_ok A k" and "length (contents b) + length v \<le> max_size b"
  obtains b' where "sshbuf_put A b v = (Inr (), b')"
proof -
  obtain p where p: "fst (sshbuf_reserve A b (length v)) = Inr p"
    using sshbuf_reserve_total [OF assms(1,3), of "length v"] assms(2,4) by auto
  obtain b2 where "sshbuf_reserve A b (length v) = (Inr p, b2)" using p by (metis prod.collapse)
  then have "sshbuf_put A b v = (Inr (), sshbuf_write b2 p v)" by (simp add: sshbuf_put_write)
  then show ?thesis by (rule that)
qed

lemma or_fatal_put_room:
  assumes "sshbuf_wf b" and "writable b" and "\<forall>k. malloc_ok A k" and "length (contents b) + length v \<le> max_size b"
  shows "\<exists>b'. or_fatal (sshbuf_put A b v) = Some b' \<and> sshbuf_wf b' \<and> contents b' = contents b @ v \<and> same_header b b'"
proof -
  obtain b' where b': "sshbuf_put A b v = (Inr (), b')" by (rule sshbuf_put_room [OF assms])
  then have "or_fatal (sshbuf_put A b v) = Some b'" by (simp add: or_fatal_def)
  then show ?thesis using or_fatal_put [OF assms(1)] by blast
qed

lemma or_fatal_consume:
  assumes "sshbuf_wf b" and "or_fatal (sshbuf_consume b n) = Some b'"
  shows "sshbuf_wf b' \<and> n \<le> length (contents b) \<and> contents b' = drop n (contents b) \<and> same_header b b'"
proof (cases "n \<le> length (contents b)")
  case True
  then show ?thesis using sshbuf_consume_correct [OF assms(1) True] assms(2) by (auto simp: or_fatal_def)
next
  case False
  then show ?thesis using sshbuf_consume_incomplete [OF assms(1), of n] assms(2) by (simp add: or_fatal_def)
qed

lemma or_fatal_consume_room:
  assumes "sshbuf_wf b" and "n \<le> length (contents b)"
  shows "\<exists>b'. or_fatal (sshbuf_consume b n) = Some b' \<and> sshbuf_wf b' \<and> contents b' = drop n (contents b) \<and> same_header b b'"
  using sshbuf_consume_correct [OF assms] by (auto simp: or_fatal_def)

lemma sshpkt_get_u32_ok:
  assumes "sshbuf_wf p" and "contents p = POKE_U32 v @ r"
  shows "\<exists>p'. sshpkt_get_u32 p = Some (v, p') \<and> sshbuf_wf p' \<and> contents p' = r"
  using q32.get_val_ok [OF assms(1) TrueI assms(2)] by (auto simp: sshpkt_get_u32_def)

lemma sshpkt_get_string_ok:
  assumes "sshbuf_wf p" and "string_fits s" and "contents p = wire_string s @ r"
  shows "\<exists>p'. sshpkt_get_string_direct p = Some (s, p') \<and> sshbuf_wf p' \<and> contents p' = r"
proof -
  obtain r1 b where d: "sshbuf_get_string_direct p = (r1, b)" by force
  have "get_string_bytes p = (case r1 of Inl e \<Rightarrow> (Inl e, b) | Inr (q, n) \<Rightarrow> (Inr (sshbuf_read b q n), b))"
    using d by (simp add: get_string_bytes_def split: sum.splits)
  then show ?thesis using qs.get_val_ok [OF assms] d
    by (auto simp: sshpkt_get_string_direct_def split: sum.splits)
qed

lemma sshpkt_get_cstring_ok:
  assumes "sshbuf_wf p" and "string_fits s" and "contents p = wire_string s @ r" and "cstring_ok s"
    and "malloc_ok A (length s + 1)"
  shows "\<exists>p'. sshpkt_get_cstring A p = Some (s, p') \<and> sshbuf_wf p' \<and> contents p' = r"
proof -
  obtain r1 b where d: "sshbuf_get_cstring A True p = (r1, b)" by force
  have "parse_string (contents p) = Inr (s, r)" using str.parse_enc [OF assms(2), of r] assms(3) by simp
  then show ?thesis using sshbuf_get_cstring_correct [OF assms(1) d] assms(4,5) d
    by (auto simp: sshpkt_get_cstring_def)
qed

lemma sshpkt_get_end_iff [simp]: "sshbuf_wf p \<Longrightarrow> sshpkt_get_end p = Some () \<longleftrightarrow> contents p = []"
  unfolding sshpkt_get_end_def by (metis length_greater_0_conv option.distinct(1) sshbuf_len_contents)

section \<open>The protocol of one end\<close>

text \<open>Operations on the buffers, windows and descriptors leave the states, flags and messages alone.\<close>

definition quiet :: "channel \<times> ssh \<Rightarrow> channel \<times> ssh \<Rightarrow> bool" where
  "quiet s s' \<longleftrightarrow> istate (fst s') = istate (fst s) \<and> ostate (fst s') = ostate (fst s) \<and>
     flags (fst s') = flags (fst s) \<and> sent (snd s') = sent (snd s)"

lemma quiet_ok:
  assumes "chan_inv s" and "quiet s s'" shows "event_ok s s'"
proof -
  have "has (fst s') f = has (fst s) f" for f using assms(2) by (simp add: quiet_def has_def)
  then show ?thesis using assms
    by (cases s, cases s') (simp add: event_ok_def chan_inv_def states_ok_def forward_def quiet_def)
qed

lemma inv_refl: "chan_inv s \<Longrightarrow> event_ok s s"
  by simp

lemma send_ok:
  assumes inv: "chan_inv (c, w)" and same: "istate c' = istate c" "ostate c' = ostate c" "flags c' = flags c"
    and m: "sent w' = sent w @ [m]" "\<not> is_close m" "\<not> is_eof m"
    and sendable: "\<not> has c CHAN_CLOSE_SENT" "is_data m \<Longrightarrow> \<not> has c CHAN_EOF_SENT"
  shows "event_ok (c, w) (c', w')"
proof -
  have "has c' f = has c f" for f using same(3) by (simp add: has_def)
  then show ?thesis using inv same m sendable
    by (auto simp: event_ok_def chan_inv_def states_ok_def forward_def msgs_ok_append)
qed

text \<open>What the code relies on of a filter: it leaves the states and flags of the channel and its messages alone.\<close>

definition filters_ok :: "filters \<Rightarrow> bool" where
  "filters_ok F \<longleftrightarrow> (\<forall>f buf s. quiet s (snd (in_filter F f buf s))) \<and> (\<forall>f s. quiet s (snd (out_filter F f s)))"

lemma pre_open_ok:
  assumes "chan_inv s" and "channel_pre_open A s = Some (is, s')" shows "event_ok s s'"
proof -
  have "s' = s \<or> chan_obuf_empty A s = Some s'"
    using assms(2) by (auto simp: channel_pre_open_def Let_def split: bind_splits if_splits)
  then show ?thesis using chan_obuf_empty_ok [OF assms(1)] inv_refl [OF assms(1)] by blast
qed

lemma handle_rfd_ok:
  assumes F: "filters_ok F" and inv: "chan_inv s" and run: "channel_handle_rfd A F z r rd s = Some s'"
  shows "event_ok s s'"
proof -
  obtain c w where s: "s = (c, w)" by force
  have q: "event_ok s (snd (in_filter F f buf s))" for f buf
    by (rule quiet_ok [OF inv]) (use F in \<open>unfold filters_ok_def, blast\<close>)
  have filter: "event_ok s s'" if "(case in_filter F f buf s of (go, s1) \<Rightarrow> if go then Some s1 else chan_read_failed s1) = Some s'"
    for f buf
  proof -
    obtain go s1 where g: "in_filter F f buf s = (go, s1)" by (rule prod.exhaust)
    have e1: "event_ok s s1" using q [of f buf] g by simp
    from that g have "s1 = s' \<or> chan_read_failed s1 = Some s'" by (simp split: if_splits)
    then show ?thesis using e1 event_ok_trans [OF e1 chan_read_failed_ok [OF event_ok_inv [OF e1]]] by blast
  qed
  have put: "event_ok s s'" if "(do { b \<leftarrow> x; Some (c\<lparr>cinput := b\<rparr>, w) }) = Some s'" for x
    by (rule quiet_ok [OF inv]) (use that in \<open>auto simp: s quiet_def split: bind_splits\<close>)
  show ?thesis
  proof (cases "s' = s")
    case False
    then show ?thesis using run filter put chan_mark_dead_ok [OF inv] chan_read_failed_ok [OF inv]
      unfolding channel_handle_rfd_def s
      by (simp split: if_split_asm option.split_asm)
  qed (use inv in simp)
qed

lemma wfd_failed_ok: "chan_inv s \<Longrightarrow> wfd_failed A s = Some s' \<Longrightarrow> event_ok s s'"
  by (auto simp: wfd_failed_def chan_mark_dead_ok chan_write_failed_ok split: if_splits)

lemma quiet_trans: "quiet a b \<Longrightarrow> quiet b c \<Longrightarrow> quiet a c"
  by (simp add: quiet_def)

lemma quiet_refl [simp]: "quiet s s"
  by (simp add: quiet_def)

lemma wfd_data_quiet:
  assumes F: "filters_ok F" and run: "wfd_data A F s = Some (d, s')"
  shows "quiet s s'"
proof -
  obtain c w where s: "s = (c, w)" by force
  have q: "quiet s (snd (out_filter F f s))" for f using F unfolding filters_ok_def by blast
  show ?thesis
  proof (cases "output_filter c")
    case (Some f)
    then show ?thesis using run q [of f] by (simp add: wfd_data_def s)
  next
    case None
    then show ?thesis using run
      by (auto simp: wfd_data_def s quiet_def split: if_splits prod.splits sum.splits)
  qed
qed

lemma handle_wfd_ok:
  assumes F: "filters_ok F" and inv: "chan_inv s" and run: "channel_handle_wfd A F n r wr s = Some s'"
  shows "event_ok s s'"
proof (cases "wfd (fst s) = -1 \<or> \<not> r \<or> sshbuf_len (coutput (fst s)) = 0")
  case False
  then obtain d s1 where d: "wfd_data A F s = Some (d, s1)"
    using run by (auto simp: channel_handle_wfd_def Let_def split: bind_splits)
  have q: "quiet s s1" by (rule wfd_data_quiet [OF F d])
  have e1: "event_ok s s1" by (rule quiet_ok [OF inv q])
  have "wfd_failed A s1 = Some s' \<or> quiet s1 s'"
    using run False d unfolding channel_handle_wfd_def Let_def
    by (simp add: quiet_def send_ignore_def add_consumed_def
        split: option.split_asm sum.split_asm errno.split_asm if_split_asm bind_split_asm) auto
  then show ?thesis
    using event_ok_trans [OF e1 wfd_failed_ok [OF event_ok_inv [OF e1]]] quiet_ok [OF inv quiet_trans [OF q]] by blast
qed (use inv run in \<open>simp add: channel_handle_wfd_def\<close>)

lemma handle_efd_ok:
  assumes inv: "chan_inv s" and run: "channel_handle_efd A r rd wr s = Some s'"
  shows "event_ok s s'"
proof (rule quiet_ok [OF inv])
  obtain c w where s: "s = (c, w)" by force
  have "quiet s s'" if "channel_handle_efd_write r wr s = Some s'"
    using that by (auto simp: s quiet_def channel_handle_efd_write_def close_fd_def
        split: sum.splits errno.splits if_splits bind_splits)
  moreover have "quiet s s'" if "channel_handle_efd_read A r rd s = Some s'"
    using that by (auto simp: s quiet_def channel_handle_efd_read_def close_fd_def
        split: sum.splits if_splits bind_splits)
  ultimately show "quiet s s'" using run by (auto simp: channel_handle_efd_def split: if_splits)
qed

lemma check_window_ok:
  assumes inv: "chan_inv s" and run: "channel_check_window s = Some s'"
  shows "event_ok s s'"
proof -
  obtain c w where s: "s = (c, w)" by force
  obtain c' w' where s': "s' = (c', w')" by force
  show ?thesis
  proof (cases "s' = s")
    case False
    then have "\<not> has c CHAN_CLOSE_SENT \<and> sent w' = sent w @ [MsgWindowAdjust (remote_id c) (local_consumed c)] \<and>
        istate c' = istate c \<and> ostate c' = ostate c \<and> flags c' = flags c"
      using run by (auto simp: s s' channel_check_window_def send_packet_def split: if_splits bind_splits)
    then show ?thesis using inv send_ok [of c w c' w' "MsgWindowAdjust (remote_id c) (local_consumed c)"] s s' by simp
  qed (use inv in simp)
qed

lemma post_open_ok:
  assumes F: "filters_ok F" and inv: "chan_inv s" and run: "channel_post_open A F z i s = Some s'"
  shows "event_ok s s'"
proof -
  from run obtain s1 s2 s3 where r: "channel_handle_rfd A F z (rfd_ready i) (rfd_res i) s = Some s1"
      "channel_handle_wfd A F (io_noecho i) (wfd_ready i) (wfd_res i) s1 = Some s2"
      "channel_handle_efd A (efd_ready i) (efd_rres i) (efd_wres i) s2 = Some s3"
      "channel_check_window s3 = Some s'"
    unfolding channel_post_open_def by (simp split: bind_split_asm)
  note e1 = handle_rfd_ok [OF F inv r(1)]
  note e2 = handle_wfd_ok [OF F event_ok_inv [OF e1] r(2)]
  note e3 = handle_efd_ok [OF event_ok_inv [OF e2] r(3)]
  note e4 = check_window_ok [OF event_ok_inv [OF e3] r(4)]
  show ?thesis using event_ok_trans e1 e2 e3 e4 by blast
qed

lemma poll_input_ok:
  assumes inv: "chan_inv s" and run: "channel_output_poll_input_open A s = Some s'"
    and live: "istate (fst s) \<noteq> CHAN_INPUT_CLOSED"
  shows "event_ok s s'"
proof -
  obtain c w c' w' where s: "s = (c, w)" "s' = (c', w')" by (cases s, cases s') blast
  have fl: "\<not> has c CHAN_CLOSE_SENT" "\<not> has c CHAN_EOF_SENT"
    using inv live by (auto simp: s chan_inv_def)
  consider "chan_ibuf_empty s = Some s'" | "quiet s s'"
    | d where "istate c' = istate c" "ostate c' = ostate c" "flags c' = flags c" "sent w' = sent w @ [MsgData (remote_id c) d]"
    using run unfolding s channel_output_poll_input_open_def
    by (auto simp: quiet_def send_packet_def Let_def split: if_splits sum.splits prod.splits bind_splits)
  then show ?thesis
  proof cases
    case (3 d)
    then show ?thesis using send_ok [of c w c' w' "MsgData (remote_id c) d"] inv fl s by simp
  qed (use inv chan_ibuf_empty_ok quiet_ok in blast)+
qed

lemma poll_extended_ok:
  assumes inv: "chan_inv s" and run: "channel_output_poll_extended_read s = Some s'"
    and live: "\<not> has (fst s) CHAN_CLOSE_SENT" "\<not> has (fst s) CHAN_EOF_SENT"
  shows "event_ok s s'"
proof -
  obtain c w c' w' where s: "s = (c, w)" "s' = (c', w')" by (cases s, cases s') blast
  consider "quiet s s'"
    | d where "istate c' = istate c" "ostate c' = ostate c" "flags c' = flags c" "sent w' = sent w @ [MsgExtData (remote_id c) d]"
    using run unfolding s channel_output_poll_extended_read_def
    by (auto simp: quiet_def send_packet_def Let_def split: if_splits bind_splits)
  then show ?thesis
  proof cases
    case (2 d)
    then show ?thesis using send_ok [of c w c' w' "MsgExtData (remote_id c) d"] inv live s by simp
  qed (use inv quiet_ok in blast)
qed

text \<open>Sending data never sets \<^verbatim>\<open>CHAN_CLOSE_SENT\<close>.\<close>

lemma poll_input_no_close:
  assumes "channel_output_poll_input_open A s = Some s'" and "\<not> has (fst s) CHAN_CLOSE_SENT"
  shows "\<not> has (fst s') CHAN_CLOSE_SENT"
proof -
  obtain c w where s: "s = (c, w)" by force
  have "chan_ibuf_empty s = Some s' \<or> flags (fst s') = flags c"
    using assms(1) unfolding s channel_output_poll_input_open_def
    by (auto simp: Let_def split: if_splits sum.splits prod.splits bind_splits)
  moreover have "\<not> has (fst s') CHAN_CLOSE_SENT" if "chan_ibuf_empty s = Some s'"
    using that assms(2)
    by (auto simp: s chan_ibuf_empty_def chan_send_eof2_def chan_set_istate_def split: if_splits bind_splits)
  ultimately show ?thesis using assms(2) by (auto simp: s has_def)
qed

lemma output_poll_ok:
  assumes inv: "chan_inv s" and run: "channel_output_poll_channel A s = Some s'"
  shows "event_ok s s'"
proof (cases "ctyp (fst s) \<noteq> SSH_CHANNEL_OPEN \<or> has (fst s) (CHAN_CLOSE_SENT OR CHAN_CLOSE_RCVD)")
  case False
  then have ncl: "\<not> has (fst s) CHAN_CLOSE_SENT" by simp
  obtain s1 where s1: "(if istate (fst s) = CHAN_INPUT_OPEN \<or> istate (fst s) = CHAN_INPUT_WAIT_DRAIN
      then channel_output_poll_input_open A s else Some s) = Some s1"
    and r: "(if \<not> has (fst s1) CHAN_EOF_SENT \<and> extended_usage (fst s1) = CHAN_EXTENDED_READ
               then channel_output_poll_extended_read s1 else Some s1) = Some s'"
    using run False unfolding channel_output_poll_channel_def by (simp split: bind_split_asm)
  have e1: "event_ok s s1"
  proof (cases "istate (fst s) = CHAN_INPUT_OPEN \<or> istate (fst s) = CHAN_INPUT_WAIT_DRAIN")
    case True
    then have "channel_output_poll_input_open A s = Some s1" "istate (fst s) \<noteq> CHAN_INPUT_CLOSED"
      using s1 by (auto simp: chan_states)
    then show ?thesis by (rule poll_input_ok [OF inv])
  qed (use s1 inv in simp)
  have n1: "\<not> has (fst s1) CHAN_CLOSE_SENT"
    using s1 poll_input_no_close [OF _ ncl] ncl by (simp split: if_split_asm)
  have "event_ok s1 s'"
    using r poll_extended_ok [OF event_ok_inv [OF e1] _ n1] event_ok_inv [OF e1] by (simp split: if_split_asm)
  then show ?thesis using event_ok_trans [OF e1] by blast
qed (use inv run in \<open>simp add: channel_output_poll_channel_def split: if_split_asm\<close>)

lemma input_data_ok:
  assumes inv: "chan_inv s" and run: "input_data A p s = Some s'" shows "event_ok s s'"
proof (rule quiet_ok [OF inv])
  obtain c w where s: "s = (c, w)" by force
  show "quiet s s'"
    using run unfolding s input_data_def
    by (auto simp: quiet_def Let_def split: if_splits bind_splits)
qed

lemma input_extended_ok:
  assumes inv: "chan_inv s" and run: "input_extended_data A p s = Some s'" shows "event_ok s s'"
proof (rule quiet_ok [OF inv])
  obtain c w where s: "s = (c, w)" by force
  show "quiet s s'"
    using run unfolding s input_extended_data_def
    by (auto simp: quiet_def Let_def split: if_splits bind_splits)
qed

lemma input_adjust_ok:
  assumes inv: "chan_inv s" and run: "input_window_adjust p s = Some s'" shows "event_ok s s'"
proof (rule quiet_ok [OF inv])
  obtain c w where s: "s = (c, w)" by force
  show "quiet s s'"
    using run unfolding s input_window_adjust_def by (auto simp: quiet_def split: if_splits bind_splits)
qed

lemma input_confirmation_ok:
  assumes inv: "chan_inv s" and run: "input_open_confirmation p s = Some s'" shows "event_ok s s'"
proof (rule quiet_ok [OF inv])
  obtain c w where s: "s = (c, w)" by force
  show "quiet s s'"
    using run unfolding s input_open_confirmation_def by (auto simp: quiet_def split: if_splits bind_splits)
qed

lemma input_ieof_ok:
  assumes inv: "chan_inv s" and run: "input_ieof A s = Some s'" shows "event_ok s s'"
proof -
  obtain s1 where s1: "chan_rcvd_ieof A s = Some s1" using run by (auto simp: input_ieof_def split: bind_splits)
  note e1 = chan_rcvd_ieof_ok [OF inv s1]
  show ?thesis
  proof (cases "force_drain (fst s1) \<and> istate (fst s1) = CHAN_INPUT_OPEN")
    case True
    define s2 where "s2 = (fst s1\<lparr>istate := CHAN_INPUT_WAIT_DRAIN\<rparr>, snd s1)"
    have e2: "event_ok s1 s2"
      using event_ok_inv [OF e1] True
      by (cases s1) (auto simp: s2_def event_ok_def chan_inv_def states_ok_def forward_def chan_states)
    have "(if sshbuf_len (cinput (fst s2)) = 0 then chan_ibuf_empty s2 else Some s2) = Some s'"
      using run s1 True by (simp add: input_ieof_def s2_def Let_def split: if_split_asm)
    then have "event_ok s2 s'"
      using chan_ibuf_empty_ok [OF event_ok_inv [OF e2]] event_ok_inv [OF e2] by (simp split: if_split_asm)
    then show ?thesis using event_ok_trans [OF e1 event_ok_trans [OF e2]] by blast
  next
    case False
    then have "s' = s1" using run s1 by (auto simp: input_ieof_def split: if_splits)
    then show ?thesis using e1 by simp
  qed
qed

lemma input_oclose_ok:
  assumes inv: "chan_inv s" and run: "input_oclose p s = Some s'" shows "event_ok s s'"
proof -
  have "chan_rcvd_oclose s = Some s'" using run by (simp add: input_oclose_def split: bind_split_asm)
  then show ?thesis by (rule chan_rcvd_oclose_ok [OF inv])
qed

text \<open>The life of one end of a channel: rounds of the loop, messages of the peer, in any order.\<close>

inductive chan_step :: "allocator \<Rightarrow> filters \<Rightarrow> bool \<Rightarrow> channel \<times> ssh \<Rightarrow> channel \<times> ssh \<Rightarrow> bool" for A F z where
  StepPre: "channel_pre_open A s = Some (fds, s') \<Longrightarrow> chan_step A F z s s'"
| StepPost: "channel_post_open A F z i s = Some s' \<Longrightarrow> chan_step A F z s s'"
| StepPoll: "channel_output_poll_channel A s = Some s' \<Longrightarrow> chan_step A F z s s'"
| StepGc: "chan_is_dead b s = Some (dead, s') \<Longrightarrow> chan_step A F z s s'"
| StepConfirm: "input_open_confirmation p s = Some s' \<Longrightarrow> chan_step A F z s s'"
| StepData: "input_data A p s = Some s' \<Longrightarrow> chan_step A F z s s'"
| StepExt: "input_extended_data A p s = Some s' \<Longrightarrow> chan_step A F z s s'"
| StepAdjust: "input_window_adjust p s = Some s' \<Longrightarrow> chan_step A F z s s'"
| StepEof: "input_ieof A s = Some s' \<Longrightarrow> chan_step A F z s s'"
| StepEow: "chan_rcvd_eow s = Some s' \<Longrightarrow> chan_step A F z s s'"
| StepClose: "input_oclose p s = Some s' \<Longrightarrow> chan_step A F z s s'"

lemmas step_ok = pre_open_ok output_poll_ok chan_is_dead_ok input_confirmation_ok input_data_ok
  input_extended_ok input_adjust_ok input_ieof_ok chan_rcvd_eow_ok input_oclose_ok

lemma chan_step_ok:
  assumes F: "filters_ok F" and "chan_step A F z s s'" and inv: "chan_inv s"
  shows "event_ok s s'"
  using assms(2)
proof cases
  case (StepPost i)
  then show ?thesis by (rule post_open_ok [OF F inv])
qed (rule step_ok [OF inv], assumption)+

lemma chan_steps_ok:
  assumes F: "filters_ok F" and "(chan_step A F z)\<^sup>*\<^sup>* s s'" and inv: "chan_inv s"
  shows "event_ok s s'"
  using assms(2)
proof (induction rule: rtranclp_induct)
  case (step s1 s2)
  show ?case by (rule event_ok_trans [OF step.IH chan_step_ok [OF F step.hyps(2) event_ok_inv [OF step.IH]]])
qed (use inv in simp)

text \<open>What may follow a message on a channel.\<close>

definition may_follow :: "msg \<Rightarrow> msg \<Rightarrow> bool" where
  "may_follow m n \<longleftrightarrow> \<not> is_close m \<and> (is_eof m \<longrightarrow> \<not> is_eof n \<and> \<not> is_data n)"

lemma msgs_ok_sorted:
  "msgs_ok e k ms \<longleftrightarrow> (k \<longrightarrow> ms = []) \<and> (e \<longrightarrow> (\<forall>m \<in> set ms. \<not> is_eof m \<and> \<not> is_data m)) \<and>
     sorted_wrt may_follow ms"
  by (induction ms arbitrary: e k) (auto simp: may_follow_def)


definition ex_chan :: "byte list \<Rightarrow> channel" where
  "ex_chan out = \<lparr>ctyp = SSH_CHANNEL_OPEN, self = 0, remote_id = 7, have_remote_id = True, istate = CHAN_INPUT_OPEN,
     ostate = CHAN_OUTPUT_OPEN, flags = 0, rfd = 5, wfd = 5, efd = -1, sock = 5, ctl_chan = -1, isatty = False,
     force_drain = False, notbefore = 0, delayed = False, cinput = ex_buf [], coutput = ex_buf out,
     cextended = ex_buf [], path = None, listening_port = 0, listening_addr = None, host_port = 0,
     remote_name = ''peer'', remote_window = 100, remote_maxpacket = 50, local_window = 100, local_window_max = 100,
     local_consumed = 0, local_maxpacket = 50, extended_usage = CHAN_EXTENDED_IGNORE, ctype = ''session'',
     open_confirm = None, detach_user = None, detach_close = False, status_confirms = [], input_filter = None,
     output_filter = None, filter_cleanup = None, datagram = False, mux_ctx = None, mux_pause = False,
     mux_downstream_id = 0\<rparr>"

definition ex_ssh :: ssh where
  "ex_ssh = \<lparr>sent = [], ignores = [], fdlog = [], pkt_ok = True, new_openssh = True, bug_exteof = False\<rparr>"

definition ex_filters :: filters where
  "ex_filters = \<lparr>in_filter = \<lambda>f buf s. (True, s), out_filter = \<lambda>f s. (None, s)\<rparr>"

lemma ex_filters_ok: "filters_ok ex_filters"
  by (simp add: filters_ok_def ex_filters_def)

lemmas ex_chan_eval = ex_chan_def ex_ssh_def chan_states chan_flags has_def set_flag_def ex_buf_wf

text \<open>The peer closes an open channel: the end drains, then answers with its own CLOSE.\<close>

lemma ex_close_run:
  obtains c' where "(chan_step ex_alloc ex_filters False)\<^sup>*\<^sup>* (ex_chan [], ex_ssh) (c', ex_ssh\<lparr>sent := [MsgClose 7], fdlog := [ShutRd 5, ShutWr 5]\<rparr>)"
    and "has c' CHAN_CLOSE_SENT" and "has c' CHAN_CLOSE_RCVD"
proof -
  define c1 where "c1 = (ex_chan [])\<lparr>flags := 2, ostate := 1, istate := 3\<rparr>"
  define w1 where "w1 = ex_ssh\<lparr>fdlog := [ShutRd 5]\<rparr>"
  define c2 where "c2 = c1\<lparr>coutput := sshbuf_reset ex_alloc (ex_buf []), ostate := 3\<rparr>"
  define w2 where "w2 = w1\<lparr>fdlog := [ShutRd 5, ShutWr 5]\<rparr>"
  have "input_oclose (ex_buf []) (ex_chan [], ex_ssh) = Some (c1, w1)"
    by (simp add: input_oclose_def sshpkt_get_end_def chan_rcvd_oclose_def rcvd_oclose_input_def chan_shutdown_read_def
        chan_shutdown_extended_read_def chan_set_istate_def chan_set_ostate_def log_fd_def ex_chan_eval c1_def w1_def)
  then have "chan_step ex_alloc ex_filters False (ex_chan [], ex_ssh) (c1, w1)" by (rule StepClose)
  moreover have "chan_step ex_alloc ex_filters False (c1, w1) (c2, w2)"
    by (rule StepPre [of _ _ "[]"])
      (simp add: channel_pre_open_def chan_obuf_empty_def chan_shutdown_write_def chan_set_ostate_def log_fd_def
        CHANNEL_EFD_OUTPUT_ACTIVE_def ex_chan_eval c1_def w1_def c2_def w2_def)
  moreover have "chan_step ex_alloc ex_filters False (c2, w2)
      (set_flag CHAN_CLOSE_SENT c2, ex_ssh\<lparr>sent := [MsgClose 7], fdlog := [ShutRd 5, ShutWr 5]\<rparr>)"
    by (rule StepGc [of True _ True])
      (simp add: chan_is_dead_def chan_send_close2_def send_packet_def ex_chan_eval c1_def w1_def c2_def w2_def)
  ultimately have "(chan_step ex_alloc ex_filters False)\<^sup>*\<^sup>* (ex_chan [], ex_ssh)
      (set_flag CHAN_CLOSE_SENT c2, ex_ssh\<lparr>sent := [MsgClose 7], fdlog := [ShutRd 5, ShutWr 5]\<rparr>)"
    by (meson rtranclp.intros)
  then show ?thesis
    by (rule that) (simp_all add: c2_def c1_def has_def set_flag_def chan_flags)
qed


end
