(* ===== verification/Channels.thy ===== *)
theory Channels
  imports Channel_Data
begin

text \<open>
  The table of channels of a connection, from \<^verbatim>\<open>channels.c\<close>: allocation, look-up and release of channels, the
  callbacks registered on them, the loops over the table, the dispatch of the peer's messages to a channel, and the
  forwarding permissions that a multiplexing client owns. A pointer to a channel is the index of its slot. A callback
  is a number; what it does (on an extra argument, the slot and the state) is an argument of the definitions.
\<close>

section \<open>State\<close>

record permission =
  host_to_connect :: "string option"
  port_to_connect :: int
  listen_host :: "string option"
  listen_path :: "string option"
  listen_port :: int
  downstream :: "nat option"

record permission_set =
  permitted_user :: "permission list"
  permitted_admin :: "permission list"
  all_permitted :: bool

record ssh_channels =
  channels :: "channel option list"
  local_perms :: permission_set
  remote_perms :: permission_set
  net :: ssh

type_synonym callback = "nat \<Rightarrow> nat \<Rightarrow> nat \<Rightarrow> ssh_channels \<Rightarrow> ssh_channels option"

definition CHANNELS_MAX_CHANNELS :: nat where "CHANNELS_MAX_CHANNELS = 16 * 1024"

definition channel_init_channels :: "ssh \<Rightarrow> ssh_channels" where
  "channel_init_channels w = \<lparr>channels = replicate 10 None, local_perms = \<lparr>permitted_user = [], permitted_admin = [], all_permitted = False\<rparr>,
     remote_perms = \<lparr>permitted_user = [], permitted_admin = [], all_permitted = False\<rparr>, net = w\<rparr>"

definition slot :: "ssh_channels \<Rightarrow> nat \<Rightarrow> channel option" where
  "slot sc i = (if i < length (channels sc) then channels sc ! i else None)"

definition put_slot :: "nat \<Rightarrow> channel option \<Rightarrow> ssh_channels \<Rightarrow> ssh_channels" where
  "put_slot i x sc = sc\<lparr>channels := (channels sc)[i := x]\<rparr>"

text \<open>Run an operation on one channel and the connection, in place.\<close>

definition on_channel ::
    "nat \<Rightarrow> (channel \<times> ssh \<Rightarrow> (channel \<times> ssh) option) \<Rightarrow> ssh_channels \<Rightarrow> ssh_channels option" where
  "on_channel i f sc = (case slot sc i of None \<Rightarrow> None
     | Some c \<Rightarrow> (case f (c, net sc) of None \<Rightarrow> None | Some (c', w') \<Rightarrow> Some (put_slot i (Some c') (sc\<lparr>net := w'\<rparr>))))"

text \<open>The loops \<^verbatim>\<open>for (i = 0; i < channels_alloc; i++)\<close> that skip the free slots.\<close>

primrec each_slot ::
    "(nat \<Rightarrow> channel \<Rightarrow> ssh_channels \<Rightarrow> ssh_channels option) \<Rightarrow> nat list \<Rightarrow> ssh_channels \<Rightarrow> ssh_channels option" where
  "each_slot f [] sc = Some sc"
| "each_slot f (i # is) sc =
    (case slot sc i of None \<Rightarrow> each_slot f is sc | Some c \<Rightarrow> do { sc1 \<leftarrow> f i c sc; each_slot f is sc1 })"

definition all_slots :: "ssh_channels \<Rightarrow> nat list" where
  "all_slots sc = [0..<length (channels sc)]"

section \<open>Look-up\<close>

definition channel_by_id :: "ssh_channels \<Rightarrow> int \<Rightarrow> nat option" where
  "channel_by_id sc cid =
    (if cid < 0 \<or> nat cid \<ge> length (channels sc) then None
     else case channels sc ! nat cid of None \<Rightarrow> None | Some c \<Rightarrow> Some (nat cid))"

definition channel_by_remote_id :: "ssh_channels \<Rightarrow> 32 word \<Rightarrow> nat option" where
  "channel_by_remote_id sc rid =
    find (\<lambda>i. case slot sc i of None \<Rightarrow> False | Some c \<Rightarrow> have_remote_id c \<and> remote_id c = rid) (all_slots sc)"

definition public_type :: "chan_type \<Rightarrow> bool" where
  "public_type t \<longleftrightarrow> t \<in> {SSH_CHANNEL_X11_OPEN, SSH_CHANNEL_LARVAL, SSH_CHANNEL_CONNECTING, SSH_CHANNEL_DYNAMIC,
     SSH_CHANNEL_RDYNAMIC_OPEN, SSH_CHANNEL_RDYNAMIC_FINISH, SSH_CHANNEL_OPENING, SSH_CHANNEL_OPEN,
     SSH_CHANNEL_ABANDONED, SSH_CHANNEL_MUX_PROXY}"

definition channel_lookup :: "ssh_channels \<Rightarrow> int \<Rightarrow> nat option" where
  "channel_lookup sc cid =
    (case channel_by_id sc cid of None \<Rightarrow> None
     | Some i \<Rightarrow> (case slot sc i of None \<Rightarrow> None | Some c \<Rightarrow> if public_type (ctyp c) then Some i else None))"

section \<open>Allocation\<close>

definition channel_register_fds :: "int \<Rightarrow> int \<Rightarrow> int \<Rightarrow> ext_usage \<Rightarrow> bool \<Rightarrow> channel \<Rightarrow> channel" where
  "channel_register_fds r w e extusage is_tty c =
    c\<lparr>rfd := r, wfd := w, sock := (if r = w then r else -1), efd := e, extended_usage := extusage, isatty := is_tty\<rparr>"

fun free_slot :: "channel option list \<Rightarrow> nat option" where
  "free_slot [] = None"
| "free_slot (None # xs) = Some 0"
| "free_slot (Some c # xs) = (case free_slot xs of None \<Rightarrow> None | Some i \<Rightarrow> Some (Suc i))"

text \<open>The zeroed structure of \<^verbatim>\<open>xcalloc\<close> with its three new buffers.\<close>

definition blank_channel :: "sshbuf \<Rightarrow> sshbuf \<Rightarrow> sshbuf \<Rightarrow> chan_type \<Rightarrow> channel" where
  "blank_channel b1 b2 b3 t = \<lparr>ctyp = t, self = 0, remote_id = 0, have_remote_id = False, istate = CHAN_INPUT_OPEN,
     ostate = CHAN_OUTPUT_OPEN, flags = 0, rfd = 0, wfd = 0, efd = 0, sock = 0, ctl_chan = 0, isatty = False,
     force_drain = False, notbefore = 0, delayed = False, cinput = b1, coutput = b2, cextended = b3, path = None,
     listening_port = 0, listening_addr = None, host_port = 0, remote_name = [], remote_window = 0,
     remote_maxpacket = 0, local_window = 0, local_window_max = 0, local_consumed = 0, local_maxpacket = 0,
     extended_usage = CHAN_EXTENDED_IGNORE, ctype = [], open_confirm = None, detach_user = None,
     detach_close = False, status_confirms = [], input_filter = None, output_filter = None, filter_cleanup = None,
     datagram = False, mux_ctx = None, mux_pause = False, mux_downstream_id = 0\<rparr>"

definition channel_new ::
    "allocator \<Rightarrow> string \<Rightarrow> chan_type \<Rightarrow> int \<Rightarrow> int \<Rightarrow> int \<Rightarrow> 32 word \<Rightarrow> 32 word \<Rightarrow> ext_usage \<Rightarrow> string \<Rightarrow>
     ssh_channels \<Rightarrow> (nat \<times> ssh_channels) option" where
  "channel_new A ct type r w e window maxpack extusage rname sc =
    do { (found, tab) \<leftarrow>
           (case free_slot (channels sc) of
              Some i \<Rightarrow> Some (i, channels sc)
            | None \<Rightarrow> if length (channels sc) > CHANNELS_MAX_CHANNELS then None
                      else Some (length (channels sc), channels sc @ replicate 10 None));
         b1 \<leftarrow> sshbuf_new A True;
         b2 \<leftarrow> sshbuf_new A True;
         b3 \<leftarrow> sshbuf_new A True;
         let c = channel_register_fds r w e extusage False (blank_channel b1 b2 b3 type);
         let c1 = c\<lparr>self := found, ctype := ct, local_window := window, local_window_max := window,
                    local_maxpacket := maxpack, remote_name := rname, ctl_chan := -1, delayed := True\<rparr>;
         Some (found, sc\<lparr>channels := tab[found := Some c1]\<rparr>) }"

section \<open>Release\<close>

definition channel_close_fds :: "channel \<times> ssh \<Rightarrow> channel \<times> ssh" where
  "channel_close_fds s = (case s of (c, w) \<Rightarrow>
     let w1 = close_fd (sock c) w; c1 = c\<lparr>sock := -1\<rparr>;
         (c2, w2) = (if rfd c \<noteq> sock c then (c1\<lparr>rfd := -1\<rparr>, close_fd (rfd c) w1) else (c1, w1));
         (c3, w3) = (if wfd c \<noteq> sock c \<and> wfd c \<noteq> rfd c then (c2\<lparr>wfd := -1\<rparr>, close_fd (wfd c) w2) else (c2, w2))
     in if efd c \<noteq> sock c \<and> efd c \<noteq> rfd c \<and> efd c \<noteq> wfd c then (c3\<lparr>efd := -1\<rparr>, close_fd (efd c) w3)
        else (c3, w3))"

definition fwd_perm_clear :: "permission \<Rightarrow> permission" where
  "fwd_perm_clear p = \<lparr>host_to_connect = None, port_to_connect = 0, listen_host = None, listen_path = None,
     listen_port = 0, downstream = None\<rparr>"

definition channel_rfwd_bind_host :: "string option \<Rightarrow> string" where
  "channel_rfwd_bind_host h = (case h of None \<Rightarrow> ''localhost'' | Some s \<Rightarrow> if s = '''' \<or> s = ''*'' then '''' else s)"

primrec mux_remove_loop :: "nat \<Rightarrow> permission list \<Rightarrow> ssh \<Rightarrow> (permission list \<times> ssh) option" where
  "mux_remove_loop i [] w = Some ([], w)"
| "mux_remove_loop i (p # ps) w =
    (if downstream p \<noteq> Some i then
       do { (qs, w1) \<leftarrow> mux_remove_loop i ps w; Some (p # qs, w1) }
     else do { w1 \<leftarrow> send_packet (MsgGlobal ''cancel-tcpip-forward'' False (channel_rfwd_bind_host (listen_host p)) (Some (listen_port p))) w;
               (qs, w2) \<leftarrow> mux_remove_loop i ps w1; Some (fwd_perm_clear p # qs, w2) })"

definition mux_remove_remote_forwardings :: "nat \<Rightarrow> ssh_channels \<Rightarrow> ssh_channels option" where
  "mux_remove_remote_forwardings i sc =
    do { (ps, w) \<leftarrow> mux_remove_loop i (permitted_user (local_perms sc)) (net sc);
         Some (sc\<lparr>local_perms := (local_perms sc)\<lparr>permitted_user := ps\<rparr>, net := w\<rparr>) }"

text \<open>A channel proxied for the multiplexing client \<open>i\<close> is made an ordinary channel that is about to close.\<close>

definition detach_proxy :: "nat \<Rightarrow> channel \<Rightarrow> channel" where
  "detach_proxy i c = (if ctyp c = SSH_CHANNEL_MUX_PROXY \<and> mux_ctx c = Some i
     then c\<lparr>mux_ctx := None, ctyp := SSH_CHANNEL_OPEN, istate := CHAN_INPUT_CLOSED, ostate := CHAN_OUTPUT_CLOSED\<rparr> else c)"

primrec abandon_confirms :: "callback \<Rightarrow> nat \<Rightarrow> (nat \<times> nat option) list \<Rightarrow> ssh_channels \<Rightarrow> ssh_channels option" where
  "abandon_confirms cb i [] sc = Some sc"
| "abandon_confirms cb i (x # xs) sc =
    do { sc1 \<leftarrow> (case snd x of None \<Rightarrow> Some sc | Some f \<Rightarrow> cb f 0 i sc); abandon_confirms cb i xs sc1 }"

definition channel_free :: "callback \<Rightarrow> nat \<Rightarrow> ssh_channels \<Rightarrow> ssh_channels option" where
  "channel_free cb i sc = (case slot sc i of None \<Rightarrow> None
     | Some c \<Rightarrow>
         do { let sc1 = (if ctyp c = SSH_CHANNEL_MUX_CLIENT
                         then sc\<lparr>channels := map (map_option (detach_proxy i)) (channels sc)\<rparr> else sc);
              sc2 \<leftarrow> (if ctyp c = SSH_CHANNEL_MUX_CLIENT then mux_remove_remote_forwardings i sc1 else Some sc1);
              let (c1, w1) = channel_close_fds (c, net sc2);
              let sc3 = put_slot i (Some (c1\<lparr>remote_name := [], path := None, listening_addr := None\<rparr>)) (sc2\<lparr>net := w1\<rparr>);
              sc4 \<leftarrow> abandon_confirms cb i (status_confirms c) sc3;
              sc5 \<leftarrow> (case filter_cleanup c of None \<Rightarrow> Some sc4 | Some f \<Rightarrow> cb f 0 i sc4);
              Some (put_slot i None sc5) })"

definition channel_free_all :: "callback \<Rightarrow> ssh_channels \<Rightarrow> ssh_channels option" where
  "channel_free_all cb sc =
    do { sc1 \<leftarrow> each_slot (\<lambda>i c. channel_free cb i) (all_slots sc) sc; Some (sc1\<lparr>channels := []\<rparr>) }"

definition channel_close_all :: "ssh_channels \<Rightarrow> ssh_channels option" where
  "channel_close_all sc = each_slot (\<lambda>i c. on_channel i (\<lambda>s. Some (channel_close_fds s))) (all_slots sc) sc"

definition listener_type :: "chan_type \<Rightarrow> bool" where
  "listener_type t \<longleftrightarrow> t \<in> {SSH_CHANNEL_AUTH_SOCKET, SSH_CHANNEL_PORT_LISTENER, SSH_CHANNEL_RPORT_LISTENER,
     SSH_CHANNEL_X11_LISTENER, SSH_CHANNEL_UNIX_LISTENER, SSH_CHANNEL_RUNIX_LISTENER}"

definition channel_stop_listening :: "callback \<Rightarrow> ssh_channels \<Rightarrow> ssh_channels option" where
  "channel_stop_listening cb sc =
    each_slot (\<lambda>i c sc1.
      if listener_type (ctyp c) then
        channel_free cb i (put_slot i (Some (c\<lparr>sock := -1\<rparr>)) (sc1\<lparr>net := close_fd (sock c) (net sc1)\<rparr>))
      else Some sc1) (all_slots sc) sc"

section \<open>Questions about the table\<close>

definition channel_not_very_much_buffered_data :: "nat \<Rightarrow> ssh_channels \<Rightarrow> bool" where
  "channel_not_very_much_buffered_data maxsize sc \<longleftrightarrow>
     list_all (\<lambda>x. case x of None \<Rightarrow> True
       | Some c \<Rightarrow> ctyp c = SSH_CHANNEL_OPEN \<longrightarrow> sshbuf_len (coutput c) \<le> maxsize) (channels sc)"

definition channel_still_open :: "ssh_channels \<Rightarrow> bool" where
  "channel_still_open sc \<longleftrightarrow>
     list_ex (\<lambda>x. case x of None \<Rightarrow> False
       | Some c \<Rightarrow> ctyp c \<in> {SSH_CHANNEL_OPENING, SSH_CHANNEL_OPEN, SSH_CHANNEL_RDYNAMIC_FINISH, SSH_CHANNEL_X11_OPEN,
           SSH_CHANNEL_MUX_CLIENT, SSH_CHANNEL_MUX_PROXY}) (channels sc)"

definition channel_find_open :: "ssh_channels \<Rightarrow> nat option" where
  "channel_find_open sc =
    find (\<lambda>i. case slot sc i of None \<Rightarrow> False
       | Some c \<Rightarrow> have_remote_id c \<and> ctyp c \<in> {SSH_CHANNEL_LARVAL, SSH_CHANNEL_AUTH_SOCKET, SSH_CHANNEL_OPEN,
           SSH_CHANNEL_X11_OPEN}) (all_slots sc)"

section \<open>Requests and callbacks\<close>

definition channel_send_open :: "int \<Rightarrow> ssh_channels \<Rightarrow> ssh_channels option" where
  "channel_send_open cid sc = (case channel_lookup sc cid of None \<Rightarrow> Some sc
     | Some i \<Rightarrow> on_channel i (\<lambda>(c, w).
         do { w1 \<leftarrow> send_packet (MsgOpen (ctype c) (self c) (local_window c) (local_maxpacket c)) w; Some (c, w1) }) sc)"

text \<open>The packet that \<^verbatim>\<open>channel_request_start\<close> begins; its caller completes and sends it.\<close>

definition channel_request_start :: "int \<Rightarrow> string \<Rightarrow> bool \<Rightarrow> ssh_channels \<Rightarrow> msg option option" where
  "channel_request_start cid service wantconfirm sc = (case channel_lookup sc cid of None \<Rightarrow> Some None
     | Some i \<Rightarrow> (case slot sc i of None \<Rightarrow> Some None
         | Some c \<Rightarrow> if \<not> have_remote_id c then None else Some (Some (MsgRequest (remote_id c) service wantconfirm))))"

definition update_slot :: "nat \<Rightarrow> (channel \<Rightarrow> channel) \<Rightarrow> ssh_channels \<Rightarrow> ssh_channels" where
  "update_slot i f sc = put_slot i (map_option f (slot sc i)) sc"

definition channel_register_status_confirm :: "int \<Rightarrow> nat \<Rightarrow> nat option \<Rightarrow> ssh_channels \<Rightarrow> ssh_channels option" where
  "channel_register_status_confirm cid f abandon sc = (case channel_lookup sc cid of None \<Rightarrow> None
     | Some i \<Rightarrow> Some (update_slot i (\<lambda>c. c\<lparr>status_confirms := status_confirms c @ [(f, abandon)]\<rparr>) sc))"

definition channel_register_open_confirm :: "int \<Rightarrow> nat option \<Rightarrow> ssh_channels \<Rightarrow> ssh_channels" where
  "channel_register_open_confirm cid f sc = (case channel_lookup sc cid of None \<Rightarrow> sc
     | Some i \<Rightarrow> update_slot i (\<lambda>c. c\<lparr>open_confirm := f\<rparr>) sc)"

definition channel_register_cleanup :: "int \<Rightarrow> nat option \<Rightarrow> bool \<Rightarrow> ssh_channels \<Rightarrow> ssh_channels" where
  "channel_register_cleanup cid f do_close sc = (case channel_by_id sc cid of None \<Rightarrow> sc
     | Some i \<Rightarrow> update_slot i (\<lambda>c. c\<lparr>detach_user := f, detach_close := do_close\<rparr>) sc)"

definition channel_cancel_cleanup :: "int \<Rightarrow> ssh_channels \<Rightarrow> ssh_channels" where
  "channel_cancel_cleanup cid sc = (case channel_by_id sc cid of None \<Rightarrow> sc
     | Some i \<Rightarrow> update_slot i (\<lambda>c. c\<lparr>detach_user := None, detach_close := False\<rparr>) sc)"

definition channel_register_filter :: "int \<Rightarrow> nat option \<Rightarrow> nat option \<Rightarrow> nat option \<Rightarrow> ssh_channels \<Rightarrow> ssh_channels" where
  "channel_register_filter cid ifn ofn cfn sc = (case channel_lookup sc cid of None \<Rightarrow> sc
     | Some i \<Rightarrow> update_slot i (\<lambda>c. c\<lparr>input_filter := ifn, output_filter := ofn, filter_cleanup := cfn\<rparr>) sc)"

definition channel_set_fds ::
    "int \<Rightarrow> int \<Rightarrow> int \<Rightarrow> int \<Rightarrow> ext_usage \<Rightarrow> bool \<Rightarrow> 32 word \<Rightarrow> ssh_channels \<Rightarrow> ssh_channels option" where
  "channel_set_fds cid r w e extusage is_tty window_max sc = (case channel_lookup sc cid of None \<Rightarrow> None
     | Some i \<Rightarrow> on_channel i (\<lambda>(c, n).
         if ctyp c \<noteq> SSH_CHANNEL_LARVAL \<or> \<not> have_remote_id c then None
         else do { let c1 = (channel_register_fds r w e extusage is_tty c)\<lparr>ctyp := SSH_CHANNEL_OPEN,
                     local_window := window_max, local_window_max := window_max\<rparr>;
                   n1 \<leftarrow> send_packet (MsgWindowAdjust (remote_id c1) (local_window c1)) n;
                   Some (c1, n1) }) sc)"

section \<open>Forwarding permissions\<close>

datatype fwd_who = FORWARD_USER | FORWARD_ADM

datatype fwd_where = FORWARD_LOCAL | FORWARD_REMOTE

definition INT_MAX :: nat where "INT_MAX = 2147483647"

definition permission_set_get :: "fwd_where \<Rightarrow> ssh_channels \<Rightarrow> permission_set" where
  "permission_set_get dir sc = (case dir of FORWARD_LOCAL \<Rightarrow> local_perms sc | FORWARD_REMOTE \<Rightarrow> remote_perms sc)"

definition permission_set_put :: "fwd_where \<Rightarrow> permission_set \<Rightarrow> ssh_channels \<Rightarrow> ssh_channels" where
  "permission_set_put dir ps sc =
    (case dir of FORWARD_LOCAL \<Rightarrow> sc\<lparr>local_perms := ps\<rparr> | FORWARD_REMOTE \<Rightarrow> sc\<lparr>remote_perms := ps\<rparr>)"

definition permission_set_get_array :: "fwd_who \<Rightarrow> fwd_where \<Rightarrow> ssh_channels \<Rightarrow> permission list" where
  "permission_set_get_array who dir sc =
    (case who of FORWARD_USER \<Rightarrow> permitted_user (permission_set_get dir sc)
     | FORWARD_ADM \<Rightarrow> permitted_admin (permission_set_get dir sc))"

definition permission_set_put_array :: "fwd_who \<Rightarrow> fwd_where \<Rightarrow> permission list \<Rightarrow> ssh_channels \<Rightarrow> ssh_channels" where
  "permission_set_put_array who dir ps sc = permission_set_put dir
    (case who of FORWARD_USER \<Rightarrow> (permission_set_get dir sc)\<lparr>permitted_user := ps\<rparr>
     | FORWARD_ADM \<Rightarrow> (permission_set_get dir sc)\<lparr>permitted_admin := ps\<rparr>) sc"

definition permission_set_add :: "fwd_who \<Rightarrow> fwd_where \<Rightarrow> permission \<Rightarrow> ssh_channels \<Rightarrow> (nat \<times> ssh_channels) option" where
  "permission_set_add who dir p sc =
    (let ps = permission_set_get_array who dir sc in
     if length ps \<ge> INT_MAX then None else Some (length ps, permission_set_put_array who dir (ps @ [p]) sc))"

section \<open>Messages between the peer and multiplexing clients\<close>

definition SSH2_MSG_GLOBAL_REQUEST :: byte where "SSH2_MSG_GLOBAL_REQUEST = 80"
definition SSH2_MSG_CHANNEL_OPEN :: byte where "SSH2_MSG_CHANNEL_OPEN = 90"
definition SSH2_MSG_CHANNEL_OPEN_CONFIRMATION :: byte where "SSH2_MSG_CHANNEL_OPEN_CONFIRMATION = 91"
definition SSH2_MSG_CHANNEL_OPEN_FAILURE :: byte where "SSH2_MSG_CHANNEL_OPEN_FAILURE = 92"
definition SSH2_MSG_CHANNEL_WINDOW_ADJUST :: byte where "SSH2_MSG_CHANNEL_WINDOW_ADJUST = 93"
definition SSH2_MSG_CHANNEL_DATA :: byte where "SSH2_MSG_CHANNEL_DATA = 94"
definition SSH2_MSG_CHANNEL_EXTENDED_DATA :: byte where "SSH2_MSG_CHANNEL_EXTENDED_DATA = 95"
definition SSH2_MSG_CHANNEL_EOF :: byte where "SSH2_MSG_CHANNEL_EOF = 96"
definition SSH2_MSG_CHANNEL_CLOSE :: byte where "SSH2_MSG_CHANNEL_CLOSE = 97"
definition SSH2_MSG_CHANNEL_REQUEST :: byte where "SSH2_MSG_CHANNEL_REQUEST = 98"
definition SSH2_MSG_CHANNEL_SUCCESS :: byte where "SSH2_MSG_CHANNEL_SUCCESS = 99"
definition SSH2_MSG_CHANNEL_FAILURE :: byte where "SSH2_MSG_CHANNEL_FAILURE = 100"

lemmas ssh2_msgs = SSH2_MSG_GLOBAL_REQUEST_def SSH2_MSG_CHANNEL_OPEN_def SSH2_MSG_CHANNEL_OPEN_CONFIRMATION_def
  SSH2_MSG_CHANNEL_OPEN_FAILURE_def SSH2_MSG_CHANNEL_WINDOW_ADJUST_def SSH2_MSG_CHANNEL_DATA_def
  SSH2_MSG_CHANNEL_EXTENDED_DATA_def SSH2_MSG_CHANNEL_EOF_def SSH2_MSG_CHANNEL_CLOSE_def SSH2_MSG_CHANNEL_REQUEST_def
  SSH2_MSG_CHANNEL_SUCCESS_def SSH2_MSG_CHANNEL_FAILURE_def

definition proxied_type :: "byte \<Rightarrow> bool" where
  "proxied_type t \<longleftrightarrow> t \<in> {SSH2_MSG_CHANNEL_CLOSE, SSH2_MSG_CHANNEL_DATA, SSH2_MSG_CHANNEL_EOF,
     SSH2_MSG_CHANNEL_EXTENDED_DATA, SSH2_MSG_CHANNEL_OPEN_CONFIRMATION, SSH2_MSG_CHANNEL_OPEN_FAILURE,
     SSH2_MSG_CHANNEL_WINDOW_ADJUST, SSH2_MSG_CHANNEL_SUCCESS, SSH2_MSG_CHANNEL_FAILURE, SSH2_MSG_CHANNEL_REQUEST}"

text \<open>The packet for the client: padding length, type, the client's own number of the channel, the rest.\<close>

definition mux_packet :: "allocator \<Rightarrow> byte \<Rightarrow> 32 word \<Rightarrow> byte list \<Rightarrow> sshbuf option" where
  "mux_packet A t did rest =
    do { b \<leftarrow> sshbuf_new A True;
         b1 \<leftarrow> or_fatal (sshbuf_put_u8 A b 0);
         b2 \<leftarrow> or_fatal (sshbuf_put_u8 A b1 t);
         b3 \<leftarrow> or_fatal (sshbuf_put_u32 A b2 did);
         or_fatal (sshbuf_put A b3 rest) }"

definition proxy_deliver :: "allocator \<Rightarrow> byte \<Rightarrow> 32 word \<Rightarrow> byte list \<Rightarrow> sshbuf \<Rightarrow> sshbuf" where
  "proxy_deliver A t did rest out =
    (case mux_packet A t did rest of None \<Rightarrow> out | Some b \<Rightarrow> snd (sshbuf_put_stringb A out (Some b)))"

definition channel_proxy_upstream ::
    "allocator \<Rightarrow> callback \<Rightarrow> nat \<Rightarrow> byte \<Rightarrow> sshbuf \<Rightarrow> ssh_channels \<Rightarrow> (bool \<times> ssh_channels) option" where
  "channel_proxy_upstream A cb i t p sc = (case slot sc i of None \<Rightarrow> Some (False, sc)
     | Some c \<Rightarrow>
         if ctyp c \<noteq> SSH_CHANNEL_MUX_PROXY then Some (False, sc)
         else (case mux_ctx c of None \<Rightarrow> Some (False, sc)
           | Some d \<Rightarrow>
               if \<not> proxied_type t then Some (False, sc)
               else (case slot sc d of None \<Rightarrow> None
                 | Some dc \<Rightarrow>
                   do { let rest = buf_bytes p;
                        let sc1 = put_slot d (Some (dc\<lparr>coutput :=
                              proxy_deliver A t (mux_downstream_id c) rest (coutput dc)\<rparr>)) sc;
                        sc2 \<leftarrow> (if t = SSH2_MSG_CHANNEL_OPEN_CONFIRMATION \<and> sshbuf_new A True \<noteq> None \<and> length rest > 4 then
                                  Some (update_slot i (\<lambda>c. c\<lparr>remote_id := PEEK_U32 rest, have_remote_id := True\<rparr>) sc1)
                                else if t = SSH2_MSG_CHANNEL_CLOSE then
                                  if has c CHAN_CLOSE_SENT then channel_free cb i sc1
                                  else Some (update_slot i (set_flag CHAN_CLOSE_RCVD) sc1)
                                else Some sc1);
                        Some (True, sc2) })))"

text \<open>A string of the packet as a C string.\<close>

definition cstr :: "byte list \<Rightarrow> string" where
  "cstr bs = map (\<lambda>b. char_of (unat b)) bs"

definition mux_proxy_new ::
    "allocator \<Rightarrow> string \<Rightarrow> nat \<Rightarrow> 32 word \<Rightarrow> ssh_channels \<Rightarrow> (nat \<times> ssh_channels) option" where
  "mux_proxy_new A rname d did sc =
    do { (i, sc1) \<leftarrow> channel_new A ''mux proxy'' SSH_CHANNEL_MUX_PROXY (-1) (-1) (-1) 0 0 CHAN_EXTENDED_IGNORE rname sc;
         Some (i, update_slot i (\<lambda>c. c\<lparr>mux_ctx := Some d, mux_downstream_id := did\<rparr>) sc1) }"

definition send_raw :: "byte \<Rightarrow> byte list \<Rightarrow> ssh_channels \<Rightarrow> bool \<times> ssh_channels" where
  "send_raw t bs sc = (case send_packet (MsgRaw t bs) (net sc) of None \<Rightarrow> (False, sc) | Some w \<Rightarrow> (True, sc\<lparr>net := w\<rparr>))"

definition downstream_open :: "allocator \<Rightarrow> callback \<Rightarrow> nat \<Rightarrow> byte list \<Rightarrow> ssh_channels \<Rightarrow> (bool \<times> ssh_channels) option" where
  "downstream_open A cb d bs sc = (case (sshbuf_from True (Some bs) (length bs), sshbuf_new A True) of
     (Some original, Some modified) \<Rightarrow>
       (case sshpkt_get_cstring A original of None \<Rightarrow> Some (False, sc)
        | Some (ct, o1) \<Rightarrow>
          (case sshpkt_get_u32 o1 of None \<Rightarrow> Some (False, sc)
           | Some (did, o2) \<Rightarrow>
               do { (i, sc1) \<leftarrow> mux_proxy_new A (cstr ct) d did sc;
                    case (do { m1 \<leftarrow> or_fatal (sshbuf_put_cstring A modified (Some ct));
                               m2 \<leftarrow> or_fatal (sshbuf_put_u32 A m1 (of_nat i));
                               or_fatal (sshbuf_putb A m2 (Some o2)) }) of
                      None \<Rightarrow> do { sc2 \<leftarrow> channel_free cb i sc1; Some (False, sc2) }
                    | Some m \<Rightarrow> Some (send_raw SSH2_MSG_CHANNEL_OPEN (buf_bytes m) sc1) }))
   | _ \<Rightarrow> Some (False, sc))"

definition downstream_confirm :: "allocator \<Rightarrow> callback \<Rightarrow> nat \<Rightarrow> byte list \<Rightarrow> ssh_channels \<Rightarrow> (bool \<times> ssh_channels) option" where
  "downstream_confirm A cb d bs sc = (case (sshbuf_from True (Some bs) (length bs), sshbuf_new A True) of
     (Some original, Some modified) \<Rightarrow>
       (case sshpkt_get_u32 original of None \<Rightarrow> Some (False, sc)
        | Some (rid, o1) \<Rightarrow>
          (case sshpkt_get_u32 o1 of None \<Rightarrow> Some (False, sc)
           | Some (did, o2) \<Rightarrow>
               do { (i, sc0) \<leftarrow> mux_proxy_new A ''mux-down-connect'' d did sc;
                    let sc1 = update_slot i (\<lambda>c. c\<lparr>remote_id := rid, have_remote_id := True\<rparr>) sc0;
                    case (do { m1 \<leftarrow> or_fatal (sshbuf_put_u32 A modified rid);
                               m2 \<leftarrow> or_fatal (sshbuf_put_u32 A m1 (of_nat i));
                               or_fatal (sshbuf_putb A m2 (Some o2)) }) of
                      None \<Rightarrow> do { sc2 \<leftarrow> channel_free cb i sc1; Some (False, sc2) }
                    | Some m \<Rightarrow> Some (send_raw SSH2_MSG_CHANNEL_OPEN_CONFIRMATION (buf_bytes m) sc1) }))
   | _ \<Rightarrow> Some (False, sc))"

definition downstream_forward :: "allocator \<Rightarrow> nat \<Rightarrow> byte list \<Rightarrow> ssh_channels \<Rightarrow> (bool \<times> ssh_channels) option" where
  "downstream_forward A d bs sc = (case sshbuf_from True (Some bs) (length bs) of None \<Rightarrow> Some (False, sc)
     | Some original \<Rightarrow>
       (case (do { (ct, o1) \<leftarrow> sshpkt_get_cstring A original;
                   if cstr ct \<noteq> ''tcpip-forward'' then None
                   else (case sshbuf_get_u8 o1 of (Inl e, _) \<Rightarrow> None
                     | (Inr _, o2) \<Rightarrow>
                         do { (lh, o3) \<leftarrow> sshpkt_get_cstring A o2;
                              (lp, o4) \<leftarrow> sshpkt_get_u32 o3;
                              if unat lp > 65535 then None else Some (cstr lh, int (unat lp)) }) }) of
          None \<Rightarrow> Some (False, sc)
        | Some (lh, lp) \<Rightarrow>
            do { (n, sc1) \<leftarrow> permission_set_add FORWARD_USER FORWARD_LOCAL
                   \<lparr>host_to_connect = Some ''<mux>'', port_to_connect = -1, listen_host = Some lh, listen_path = None,
                    listen_port = lp, downstream = Some d\<rparr> sc;
                 Some (send_raw SSH2_MSG_GLOBAL_REQUEST bs sc1) }))"

definition downstream_close :: "callback \<Rightarrow> byte list \<Rightarrow> ssh_channels \<Rightarrow> ssh_channels option" where
  "downstream_close cb bs sc =
    (if length bs < 4 then Some sc
     else (case channel_by_remote_id sc (PEEK_U32 bs) of None \<Rightarrow> Some sc
       | Some i \<Rightarrow> (case slot sc i of None \<Rightarrow> Some sc
           | Some c \<Rightarrow> if has c CHAN_CLOSE_RCVD then channel_free cb i sc
                       else Some (update_slot i (set_flag CHAN_CLOSE_SENT) sc))))"

definition channel_proxy_downstream :: "allocator \<Rightarrow> callback \<Rightarrow> nat \<Rightarrow> ssh_channels \<Rightarrow> (bool \<times> ssh_channels) option" where
  "channel_proxy_downstream A cb d sc = (case slot sc d of None \<Rightarrow> None
     | Some dc \<Rightarrow>
       (case sshpkt_get_string_direct (cinput dc) of None \<Rightarrow> Some (False, sc)
        | Some (msg, b) \<Rightarrow>
            let sc1 = update_slot d (\<lambda>c. c\<lparr>cinput := b\<rparr>) sc in
            if length msg < 2 then Some (False, sc1)
            else let t = msg ! 1; bs = drop 2 msg in
              if t = SSH2_MSG_CHANNEL_OPEN then downstream_open A cb d bs sc1
              else if t = SSH2_MSG_CHANNEL_OPEN_CONFIRMATION then downstream_confirm A cb d bs sc1
              else if t = SSH2_MSG_GLOBAL_REQUEST then downstream_forward A d bs sc1
              else if t = SSH2_MSG_CHANNEL_CLOSE then
                do { sc2 \<leftarrow> downstream_close cb bs sc1; Some (send_raw t bs sc2) }
              else Some (send_raw t bs sc1)))"

section \<open>Multiplexing clients in the loop\<close>

definition channel_pre_mux_client :: "allocator \<Rightarrow> channel \<times> ssh \<Rightarrow> (interest list \<times> channel \<times> ssh) option" where
  "channel_pre_mux_client A s =
    do { let c = fst s;
         let rset = (if istate c = CHAN_INPUT_OPEN \<and> \<not> mux_pause c \<and>
                        (case sshbuf_check_reserve (cinput c) CHAN_RBUF of Inl _ \<Rightarrow> False | Inr _ \<Rightarrow> True)
                     then [ReadSet (rfd c)] else []);
         s1 \<leftarrow> (if istate c = CHAN_INPUT_WAIT_DRAIN then
                  do { s2 \<leftarrow> chan_ibuf_empty (c\<lparr>cinput := sshbuf_reset A (cinput c)\<rparr>, snd s); chan_rcvd_oclose s2 }
                else Some s);
         let c1 = fst s1;
         if ostate c1 = CHAN_OUTPUT_OPEN \<or> ostate c1 = CHAN_OUTPUT_WAIT_DRAIN then
           if sshbuf_len (coutput c1) > 0 then Some (rset @ [WriteSet (wfd c1)], s1)
           else if ostate c1 = CHAN_OUTPUT_WAIT_DRAIN then do { s3 \<leftarrow> chan_obuf_empty A s1; Some (rset, s3) }
           else Some (rset, s1)
         else Some (rset, s1) }"

text \<open>\<^verbatim>\<open>read\<close> returns no more than it was asked for.\<close>

definition read_mux :: "allocator \<Rightarrow> read_res \<Rightarrow> nat \<Rightarrow> channel \<times> ssh \<Rightarrow> (nat \<times> channel \<times> ssh) option" where
  "read_mux A rd need s = (case s of (c, w) \<Rightarrow>
     if sshbuf_len (cinput c) < need then
       (case map_sum (\<lambda>e. e) (take (min (need - sshbuf_len (cinput c)) CHAN_RBUF)) rd of
          Inl EINTR \<Rightarrow> Some (sshbuf_len (cinput c), s)
        | Inl EAGAIN \<Rightarrow> Some (sshbuf_len (cinput c), s)
        | Inl EOTHER \<Rightarrow> do { s1 \<leftarrow> chan_read_failed s; Some (0, s1) }
        | Inr bs \<Rightarrow>
            if bs = [] then do { s1 \<leftarrow> chan_read_failed s; Some (0, s1) }
            else do { b \<leftarrow> or_fatal (sshbuf_put A (cinput c) bs); Some (sshbuf_len b, c\<lparr>cinput := b\<rparr>, w) })
     else Some (sshbuf_len (cinput c), s))"

definition CHANNEL_MUX_MAX_PACKET :: nat where "CHANNEL_MUX_MAX_PACKET = 256 * 1024"

text \<open>Reads the header and the body of one packet; the flag says whether a whole packet is there.\<close>

definition mux_client_fill :: "allocator \<Rightarrow> read_res \<Rightarrow> read_res \<Rightarrow> channel \<times> ssh \<Rightarrow> (bool \<times> channel \<times> ssh) option" where
  "mux_client_fill A rd1 rd2 s =
    do { (n1, s1) \<leftarrow> read_mux A rd1 4 s;
         if n1 < 4 then Some (False, s1)
         else do { let need = unat (PEEK_U32 (buf_bytes (cinput (fst s1))));
                   if need > CHANNEL_MUX_MAX_PACKET then do { s2 \<leftarrow> chan_rcvd_oclose s1; Some (False, s2) }
                   else do { (n2, s2) \<leftarrow> read_mux A rd2 (need + 4) s1; Some (\<not> n2 < need + 4, s2) } } }"

definition channel_post_mux_client_read ::
    "allocator \<Rightarrow> (nat \<Rightarrow> ssh_channels \<Rightarrow> (bool \<times> ssh_channels) option) \<Rightarrow> bool \<Rightarrow> read_res \<Rightarrow> read_res \<Rightarrow> nat \<Rightarrow>
     ssh_channels \<Rightarrow> ssh_channels option" where
  "channel_post_mux_client_read A mux_rcb ready rd1 rd2 i sc = (case slot sc i of None \<Rightarrow> None
     | Some c \<Rightarrow>
         if rfd c = -1 \<or> \<not> ready then Some sc
         else if istate c \<noteq> CHAN_INPUT_OPEN \<and> istate c \<noteq> CHAN_INPUT_WAIT_DRAIN then Some sc
         else if mux_pause c then Some sc
         else do { (full, c1, w1) \<leftarrow> mux_client_fill A rd1 rd2 (c, net sc);
                   let sc1 = put_slot i (Some c1) (sc\<lparr>net := w1\<rparr>);
                   if \<not> full then Some sc1
                   else do { (good, sc2) \<leftarrow> mux_rcb i sc1;
                             if good then Some sc2 else on_channel i (\<lambda>s. Some (chan_mark_dead s)) sc2 } })"

definition channel_post_mux_client_write :: "bool \<Rightarrow> write_res \<Rightarrow> channel \<times> ssh \<Rightarrow> (channel \<times> ssh) option" where
  "channel_post_mux_client_write ready wr s = (case s of (c, w) \<Rightarrow>
     if wfd c = -1 \<or> \<not> ready \<or> sshbuf_len (coutput c) = 0 then Some s
     else (case wr of
         Inl EINTR \<Rightarrow> Some s
       | Inl EAGAIN \<Rightarrow> Some s
       | Inl EOTHER \<Rightarrow> Some (chan_mark_dead s)
       | Inr len \<Rightarrow> if len = 0 then Some (chan_mark_dead s)
                    else do { b \<leftarrow> or_fatal (sshbuf_consume (coutput c) len); Some (c\<lparr>coutput := b\<rparr>, w) }))"

definition channel_post_mux_client ::
    "allocator \<Rightarrow> (nat \<Rightarrow> ssh_channels \<Rightarrow> (bool \<times> ssh_channels) option) \<Rightarrow> io \<Rightarrow> read_res \<Rightarrow> nat \<Rightarrow> ssh_channels \<Rightarrow>
     ssh_channels option" where
  "channel_post_mux_client A mux_rcb x rd2 i sc =
    do { sc1 \<leftarrow> channel_post_mux_client_read A mux_rcb (rfd_ready x) (rfd_res x) rd2 i sc;
         on_channel i (channel_post_mux_client_write (wfd_ready x) (wfd_res x)) sc1 }"

section \<open>The loop\<close>

definition is_dead_at :: "bool \<Rightarrow> nat \<Rightarrow> ssh_channels \<Rightarrow> (bool \<times> ssh_channels) option" where
  "is_dead_at do_send i sc = (case slot sc i of None \<Rightarrow> None
     | Some c \<Rightarrow> (case chan_is_dead do_send (c, net sc) of None \<Rightarrow> None
         | Some (dead, c1, w1) \<Rightarrow> Some (dead, put_slot i (Some c1) (sc\<lparr>net := w1\<rparr>))))"

text \<open>The first half of \<^verbatim>\<open>channel_garbage_collect\<close>: whether the owner of the channel has let it go.\<close>

definition gc_detached :: "callback \<Rightarrow> nat \<Rightarrow> ssh_channels \<Rightarrow> (bool \<times> ssh_channels) option" where
  "gc_detached cb i sc = (case slot sc i of None \<Rightarrow> None
     | Some c \<Rightarrow> (case detach_user c of None \<Rightarrow> Some (True, sc)
         | Some f \<Rightarrow>
             do { (dead, sc1) \<leftarrow> is_dead_at (detach_close c) i sc;
                  if \<not> dead then Some (False, sc1)
                  else do { sc2 \<leftarrow> cb f 0 i sc1; c2 \<leftarrow> slot sc2 i; Some (detach_user c2 = None, sc2) } }))"

definition channel_garbage_collect :: "callback \<Rightarrow> nat \<Rightarrow> ssh_channels \<Rightarrow> ssh_channels option" where
  "channel_garbage_collect cb i sc = (case slot sc i of None \<Rightarrow> Some sc
     | Some c \<Rightarrow>
         do { (detached, sc1) \<leftarrow> gc_detached cb i sc;
              if \<not> detached then Some sc1
              else do { (dead, sc2) \<leftarrow> is_dead_at True i sc1;
                        if dead then channel_free cb i sc2 else Some sc2 } })"

datatype chan_fn =
    Pre_open | Pre_x11_open | Pre_listener | Pre_connecting | Pre_dynamic | Pre_mux_client
  | Post_open | Post_port_listener | Post_x11_listener | Post_auth_listener | Post_connecting | Post_mux_listener
  | Post_mux_client

definition channel_pre :: "chan_type \<Rightarrow> chan_fn option" where
  "channel_pre t = (case t of
     SSH_CHANNEL_OPEN \<Rightarrow> Some Pre_open
   | SSH_CHANNEL_X11_OPEN \<Rightarrow> Some Pre_x11_open
   | SSH_CHANNEL_PORT_LISTENER \<Rightarrow> Some Pre_listener
   | SSH_CHANNEL_RPORT_LISTENER \<Rightarrow> Some Pre_listener
   | SSH_CHANNEL_UNIX_LISTENER \<Rightarrow> Some Pre_listener
   | SSH_CHANNEL_RUNIX_LISTENER \<Rightarrow> Some Pre_listener
   | SSH_CHANNEL_X11_LISTENER \<Rightarrow> Some Pre_listener
   | SSH_CHANNEL_AUTH_SOCKET \<Rightarrow> Some Pre_listener
   | SSH_CHANNEL_CONNECTING \<Rightarrow> Some Pre_connecting
   | SSH_CHANNEL_DYNAMIC \<Rightarrow> Some Pre_dynamic
   | SSH_CHANNEL_RDYNAMIC_FINISH \<Rightarrow> Some Pre_connecting
   | SSH_CHANNEL_MUX_LISTENER \<Rightarrow> Some Pre_listener
   | SSH_CHANNEL_MUX_CLIENT \<Rightarrow> Some Pre_mux_client
   | _ \<Rightarrow> None)"

definition channel_post :: "chan_type \<Rightarrow> chan_fn option" where
  "channel_post t = (case t of
     SSH_CHANNEL_OPEN \<Rightarrow> Some Post_open
   | SSH_CHANNEL_PORT_LISTENER \<Rightarrow> Some Post_port_listener
   | SSH_CHANNEL_RPORT_LISTENER \<Rightarrow> Some Post_port_listener
   | SSH_CHANNEL_UNIX_LISTENER \<Rightarrow> Some Post_port_listener
   | SSH_CHANNEL_RUNIX_LISTENER \<Rightarrow> Some Post_port_listener
   | SSH_CHANNEL_X11_LISTENER \<Rightarrow> Some Post_x11_listener
   | SSH_CHANNEL_AUTH_SOCKET \<Rightarrow> Some Post_auth_listener
   | SSH_CHANNEL_CONNECTING \<Rightarrow> Some Post_connecting
   | SSH_CHANNEL_DYNAMIC \<Rightarrow> Some Post_open
   | SSH_CHANNEL_RDYNAMIC_FINISH \<Rightarrow> Some Post_connecting
   | SSH_CHANNEL_MUX_LISTENER \<Rightarrow> Some Post_mux_listener
   | SSH_CHANNEL_MUX_CLIENT \<Rightarrow> Some Post_mux_client
   | _ \<Rightarrow> None)"

datatype channel_table = CHAN_PRE | CHAN_POST

text \<open>
  One visit of a slot by \<^verbatim>\<open>channel_handler\<close>; \<open>H\<close> runs the function that the table names. The time until the next
  paused channel may run, which is reported to \<^verbatim>\<open>select\<close>, is left out.
\<close>

definition handler_visit ::
    "(chan_fn \<Rightarrow> nat \<Rightarrow> ssh_channels \<Rightarrow> ssh_channels option) \<Rightarrow> callback \<Rightarrow> channel_table \<Rightarrow> int \<Rightarrow> nat \<Rightarrow> channel \<Rightarrow>
     ssh_channels \<Rightarrow> ssh_channels option" where
  "handler_visit H cb table now i c sc =
    (if delayed c \<and> table = CHAN_POST then Some sc
     else do { let sc1 = (if delayed c then update_slot i (\<lambda>c. c\<lparr>delayed := False\<rparr>) sc else sc);
               sc2 \<leftarrow> (case (if table = CHAN_PRE then channel_pre (ctyp c) else channel_post (ctyp c)) of
                        None \<Rightarrow> Some sc1
                      | Some f \<Rightarrow> if notbefore c \<le> now then H f i sc1 else Some sc1);
               channel_garbage_collect cb i sc2 })"

definition channel_handler ::
    "(chan_fn \<Rightarrow> nat \<Rightarrow> ssh_channels \<Rightarrow> ssh_channels option) \<Rightarrow> callback \<Rightarrow> channel_table \<Rightarrow> int \<Rightarrow> ssh_channels \<Rightarrow>
     ssh_channels option" where
  "channel_handler H cb table now sc = each_slot (handler_visit H cb table now) (all_slots sc) sc"

definition channel_after_select ::
    "(chan_fn \<Rightarrow> nat \<Rightarrow> ssh_channels \<Rightarrow> ssh_channels option) \<Rightarrow> callback \<Rightarrow> int \<Rightarrow> ssh_channels \<Rightarrow> ssh_channels option" where
  "channel_after_select H cb now sc = channel_handler H cb CHAN_POST now sc"

definition channel_output_poll :: "allocator \<Rightarrow> ssh_channels \<Rightarrow> ssh_channels option" where
  "channel_output_poll A sc = each_slot (\<lambda>i c. on_channel i (channel_output_poll_channel A)) (all_slots sc) sc"

section \<open>Messages of the peer\<close>

definition channel_parse_id :: "sshbuf \<Rightarrow> (int \<times> sshbuf) option" where
  "channel_parse_id p =
    do { (v, p1) \<leftarrow> sshpkt_get_u32 p; if unat v > INT_MAX then None else Some (int (unat v), p1) }"

definition channel_from_packet_id :: "ssh_channels \<Rightarrow> sshbuf \<Rightarrow> (nat \<times> sshbuf) option" where
  "channel_from_packet_id sc p = do { (cid, p1) \<leftarrow> channel_parse_id p; i \<leftarrow> channel_lookup sc cid; Some (i, p1) }"

text \<open>Most handlers: find the channel, pass the message on to a multiplexing client, or handle it.\<close>

definition or_proxied ::
    "allocator \<Rightarrow> callback \<Rightarrow> nat \<Rightarrow> byte \<Rightarrow> sshbuf \<Rightarrow> (ssh_channels \<Rightarrow> ssh_channels option) \<Rightarrow> ssh_channels \<Rightarrow>
     ssh_channels option" where
  "or_proxied A cb i t p f sc =
    do { (done, sc1) \<leftarrow> channel_proxy_upstream A cb i t p sc; if done then Some sc1 else f sc1 }"

definition channel_input_data :: "allocator \<Rightarrow> callback \<Rightarrow> sshbuf \<Rightarrow> ssh_channels \<Rightarrow> ssh_channels option" where
  "channel_input_data A cb p sc =
    do { (i, p1) \<leftarrow> channel_from_packet_id sc p;
         or_proxied A cb i SSH2_MSG_CHANNEL_DATA p1 (on_channel i (input_data A p1)) sc }"

definition channel_input_extended_data :: "allocator \<Rightarrow> callback \<Rightarrow> sshbuf \<Rightarrow> ssh_channels \<Rightarrow> ssh_channels option" where
  "channel_input_extended_data A cb p sc =
    do { (i, p1) \<leftarrow> channel_from_packet_id sc p;
         or_proxied A cb i SSH2_MSG_CHANNEL_EXTENDED_DATA p1 (on_channel i (input_extended_data A p1)) sc }"

definition channel_input_ieof :: "allocator \<Rightarrow> callback \<Rightarrow> sshbuf \<Rightarrow> ssh_channels \<Rightarrow> ssh_channels option" where
  "channel_input_ieof A cb p sc =
    do { (i, p1) \<leftarrow> channel_from_packet_id sc p;
         _ \<leftarrow> sshpkt_get_end p1;
         or_proxied A cb i SSH2_MSG_CHANNEL_EOF p1 (on_channel i (input_ieof A)) sc }"

definition channel_input_oclose :: "allocator \<Rightarrow> callback \<Rightarrow> sshbuf \<Rightarrow> ssh_channels \<Rightarrow> ssh_channels option" where
  "channel_input_oclose A cb p sc =
    do { (i, p1) \<leftarrow> channel_from_packet_id sc p;
         or_proxied A cb i SSH2_MSG_CHANNEL_CLOSE p1 (on_channel i (input_oclose p1)) sc }"

definition run_open_confirm :: "callback \<Rightarrow> nat \<Rightarrow> nat \<Rightarrow> ssh_channels \<Rightarrow> ssh_channels option" where
  "run_open_confirm cb success i sc =
    do { c \<leftarrow> slot sc i; case open_confirm c of None \<Rightarrow> Some sc | Some f \<Rightarrow> cb f success i sc }"

definition channel_input_open_confirmation :: "allocator \<Rightarrow> callback \<Rightarrow> sshbuf \<Rightarrow> ssh_channels \<Rightarrow> ssh_channels option" where
  "channel_input_open_confirmation A cb p sc =
    do { (i, p1) \<leftarrow> channel_from_packet_id sc p;
         or_proxied A cb i SSH2_MSG_CHANNEL_OPEN_CONFIRMATION p1
           (\<lambda>sc1. do { sc2 \<leftarrow> on_channel i (input_open_confirmation p1) sc1; run_open_confirm cb 1 i sc2 }) sc }"

definition open_failure_body :: "allocator \<Rightarrow> callback \<Rightarrow> sshbuf \<Rightarrow> nat \<Rightarrow> ssh_channels \<Rightarrow> ssh_channels option" where
  "open_failure_body A cb p i sc =
    do { c \<leftarrow> slot sc i;
         if ctyp c \<noteq> SSH_CHANNEL_OPENING then None
         else do { (reason, p1) \<leftarrow> sshpkt_get_u32 p;
                   (m, p2) \<leftarrow> sshpkt_get_cstring A p1;
                   (lang, p3) \<leftarrow> sshpkt_get_string_direct p2;
                   _ \<leftarrow> sshpkt_get_end p3;
                   sc1 \<leftarrow> run_open_confirm cb 0 i sc;
                   on_channel i (\<lambda>s. Some (chan_mark_dead s)) sc1 } }"

definition channel_input_open_failure :: "allocator \<Rightarrow> callback \<Rightarrow> sshbuf \<Rightarrow> ssh_channels \<Rightarrow> ssh_channels option" where
  "channel_input_open_failure A cb p sc =
    do { (i, p1) \<leftarrow> channel_from_packet_id sc p;
         or_proxied A cb i SSH2_MSG_CHANNEL_OPEN_FAILURE p1 (open_failure_body A cb p1 i) sc }"

definition channel_input_window_adjust :: "allocator \<Rightarrow> callback \<Rightarrow> sshbuf \<Rightarrow> ssh_channels \<Rightarrow> ssh_channels option" where
  "channel_input_window_adjust A cb p sc =
    do { (cid, p1) \<leftarrow> channel_parse_id p;
         case channel_lookup sc cid of None \<Rightarrow> Some sc
         | Some i \<Rightarrow> or_proxied A cb i SSH2_MSG_CHANNEL_WINDOW_ADJUST p1 (on_channel i (input_window_adjust p1)) sc }"

definition status_confirm_body :: "callback \<Rightarrow> byte \<Rightarrow> sshbuf \<Rightarrow> nat \<Rightarrow> ssh_channels \<Rightarrow> ssh_channels option" where
  "status_confirm_body cb t p i sc =
    do { _ \<leftarrow> sshpkt_get_end p;
         c \<leftarrow> slot sc i;
         case status_confirms c of [] \<Rightarrow> Some sc
         | (f, ab) # rest \<Rightarrow>
             do { sc1 \<leftarrow> cb f (unat t) i sc;
                  Some (update_slot i (\<lambda>c. c\<lparr>status_confirms := remove1 (f, ab) (status_confirms c)\<rparr>) sc1) } }"

definition channel_input_status_confirm ::
    "allocator \<Rightarrow> callback \<Rightarrow> byte \<Rightarrow> sshbuf \<Rightarrow> ssh_channels \<Rightarrow> ssh_channels option" where
  "channel_input_status_confirm A cb t p sc =
    do { (cid, p1) \<leftarrow> channel_parse_id p;
         case channel_lookup sc cid of None \<Rightarrow> Some sc
         | Some i \<Rightarrow> or_proxied A cb i t p1 (status_confirm_body cb t p1 i) sc }"

section \<open>Slots\<close>

lemma slot_put: "slot (put_slot i x sc) j = (if j = i \<and> i < length (channels sc) then x else slot sc j)"
  by (simp add: slot_def put_slot_def)

lemma slot_None [simp]: "length (channels sc) \<le> i \<Longrightarrow> slot sc i = None"
  by (simp add: slot_def)

lemma slot_Some_lt: "slot sc i = Some c \<Longrightarrow> i < length (channels sc)"
  by (simp add: slot_def split: if_splits)

lemma length_put_slot [simp]: "length (channels (put_slot i x sc)) = length (channels sc)"
  by (simp add: put_slot_def)

lemma slot_net [simp]: "slot (sc\<lparr>net := w\<rparr>) i = slot sc i" "slot (sc\<lparr>local_perms := ps\<rparr>) i = slot sc i"
  "slot (sc\<lparr>remote_perms := ps\<rparr>) i = slot sc i"
  by (simp_all add: slot_def)

lemma put_slot_other [simp]: "local_perms (put_slot i x sc) = local_perms sc" "net (put_slot i x sc) = net sc"
  "remote_perms (put_slot i x sc) = remote_perms sc"
  by (simp_all add: put_slot_def)

lemma slot_update: "slot (update_slot i f sc) j = (if j = i then map_option f (slot sc i) else slot sc j)"
  by (auto simp: update_slot_def put_slot_def slot_def)

lemma update_slot_other [simp]: "local_perms (update_slot i f sc) = local_perms sc" "net (update_slot i f sc) = net sc"
  "length (channels (update_slot i f sc)) = length (channels sc)"
  by (simp_all add: update_slot_def)

lemma slot_map: "slot (sc\<lparr>channels := map (map_option f) (channels sc)\<rparr>) i = map_option f (slot sc i)"
  by (simp add: slot_def)

lemma free_slot_Some: "free_slot xs = Some i \<Longrightarrow> i < length xs \<and> xs ! i = None"
  by (induction xs arbitrary: i rule: free_slot.induct) (auto split: option.splits)

lemma free_slot_None: "free_slot xs = None \<longleftrightarrow> None \<notin> set xs"
  by (induction xs rule: free_slot.induct) (auto split: option.splits)

text \<open>Every channel knows its slot, and the table is never much larger than the limit.\<close>

definition table_ok :: "ssh_channels \<Rightarrow> bool" where
  "table_ok sc \<longleftrightarrow> (\<forall>i c. slot sc i = Some c \<longrightarrow> self c = i) \<and> length (channels sc) \<le> CHANNELS_MAX_CHANNELS + 10"

lemma channel_new_slot:
  assumes "channel_new A ct t r w e win mp eu rn sc = Some (i, sc')"
  shows "slot sc i = None" and "\<And>j. j \<noteq> i \<Longrightarrow> slot sc' j = slot sc j"
    and "\<exists>c. slot sc' i = Some c \<and> self c = i \<and> ctyp c = t \<and> rfd c = r \<and> wfd c = w \<and> efd c = e \<and>
        sock c = (if r = w then r else -1) \<and> local_window c = win \<and> local_window_max c = win \<and> local_consumed c = 0 \<and>
        istate c = CHAN_INPUT_OPEN \<and> ostate c = CHAN_OUTPUT_OPEN \<and> flags c = 0 \<and> delayed c \<and>
        contents (cinput c) = [] \<and> contents (coutput c) = [] \<and> mux_ctx c = None"
    and "length (channels sc) \<le> CHANNELS_MAX_CHANNELS + 10 \<Longrightarrow> length (channels sc') \<le> CHANNELS_MAX_CHANNELS + 10"
    and "local_perms sc' = local_perms sc" and "net sc' = net sc"
proof -
  obtain b1 b2 b3 where b: "sshbuf_new A True = Some b1" "sshbuf_new A True = Some b2" "sshbuf_new A True = Some b3"
    using assms unfolding channel_new_def by (cases "sshbuf_new A True") (auto split: bind_split_asm)
  have empty: "contents b1 = []" "contents b2 = []" using sshbuf_new_wf [OF b(1)] sshbuf_new_wf [OF b(2)] by auto
  obtain tab where tab: "(case free_slot (channels sc) of Some i \<Rightarrow> Some (i, channels sc)
      | None \<Rightarrow> if length (channels sc) > CHANNELS_MAX_CHANNELS then None
                else Some (length (channels sc), channels sc @ replicate 10 None)) = Some (i, tab)"
    using assms unfolding channel_new_def by (auto simp: Let_def split: bind_split_asm)
  define c where "c = (channel_register_fds r w e eu False (blank_channel b1 b2 b3 t))\<lparr>self := i, ctype := ct,
      local_window := win, local_window_max := win, local_maxpacket := mp, remote_name := rn, ctl_chan := -1, delayed := True\<rparr>"
  have sc': "sc' = sc\<lparr>channels := tab[i := Some c]\<rparr>"
    using assms tab b unfolding channel_new_def by (auto simp: c_def Let_def split: bind_split_asm)
  have t: "i < length tab" "slot sc i = None" "\<And>j. (if j < length tab then tab ! j else None) = slot sc j"
      "length (channels sc) \<le> CHANNELS_MAX_CHANNELS + 10 \<Longrightarrow> length tab \<le> CHANNELS_MAX_CHANNELS + 10"
    using tab free_slot_Some [of "channels sc"]
    by (auto simp: slot_def nth_append split: option.splits if_splits)
  show "slot sc i = None" by fact
  show "slot sc' j = slot sc j" if "j \<noteq> i" for j
    using t(3) [of j] that by (auto simp: sc' slot_def split: if_splits)
  show "\<exists>c. slot sc' i = Some c \<and> self c = i \<and> ctyp c = t \<and> rfd c = r \<and> wfd c = w \<and> efd c = e \<and>
        sock c = (if r = w then r else -1) \<and> local_window c = win \<and> local_window_max c = win \<and> local_consumed c = 0 \<and>
        istate c = CHAN_INPUT_OPEN \<and> ostate c = CHAN_OUTPUT_OPEN \<and> flags c = 0 \<and> delayed c \<and>
        contents (cinput c) = [] \<and> contents (coutput c) = [] \<and> mux_ctx c = None"
    using t(1) empty by (simp add: sc' slot_def c_def channel_register_fds_def blank_channel_def)
  show "length (channels sc) \<le> CHANNELS_MAX_CHANNELS + 10 \<Longrightarrow> length (channels sc') \<le> CHANNELS_MAX_CHANNELS + 10"
    using t(4) by (simp add: sc')
  show "local_perms sc' = local_perms sc" "net sc' = net sc" by (simp_all add: sc')
qed

text \<open>What the code relies on of the callbacks it runs while it frees a channel: they release their own memory.\<close>

definition cleanup_cb :: "callback \<Rightarrow> bool" where
  "cleanup_cb cb \<longleftrightarrow> (\<forall>f x i sc sc'. cb f x i sc = Some sc' \<longrightarrow>
     channels sc' = channels sc \<and> local_perms sc' = local_perms sc \<and> fdlog (net sc') = fdlog (net sc))"

lemma abandon_confirms_frame:
  assumes "cleanup_cb cb" and "abandon_confirms cb i xs sc = Some sc'"
  shows "channels sc' = channels sc \<and> local_perms sc' = local_perms sc \<and> fdlog (net sc') = fdlog (net sc)"
  using assms(2)
proof (induction xs arbitrary: sc)
  case (Cons x xs)
  obtain sc1 where sc1: "(case snd x of None \<Rightarrow> Some sc | Some f \<Rightarrow> cb f 0 i sc) = Some sc1"
      "abandon_confirms cb i xs sc1 = Some sc'"
    using Cons.prems by (auto split: bind_split_asm)
  have "channels sc1 = channels sc \<and> local_perms sc1 = local_perms sc \<and> fdlog (net sc1) = fdlog (net sc)"
    using sc1(1) assms(1) unfolding cleanup_cb_def by (auto split: option.splits)
  then show ?case using Cons.IH [OF sc1(2)] by simp
qed simp

lemma mux_remove_loop_map:
  assumes "mux_remove_loop i ps w = Some (qs, w')"
  shows "qs = map (\<lambda>p. if downstream p = Some i then fwd_perm_clear p else p) ps \<and> fdlog w' = fdlog w"
  using assms
  by (induction ps arbitrary: qs w w') (auto simp: send_packet_def split: if_splits bind_split_asm)

lemma channel_free_correct:
  assumes cb: "cleanup_cb cb" and run: "channel_free cb i sc = Some sc'" and c: "slot sc i = Some c"
  shows "slot sc' i = None"
    and "\<And>j. j \<noteq> i \<Longrightarrow> slot sc' j = (if ctyp c = SSH_CHANNEL_MUX_CLIENT then map_option (detach_proxy i) (slot sc j) else slot sc j)"
    and "permitted_user (local_perms sc') = (if ctyp c = SSH_CHANNEL_MUX_CLIENT
           then map (\<lambda>p. if downstream p = Some i then fwd_perm_clear p else p) (permitted_user (local_perms sc))
           else permitted_user (local_perms sc))"
    and "length (channels sc') = length (channels sc)"
    and "fdlog (net sc') = fdlog (snd (channel_close_fds (c, net sc)))"
proof -
  define mux where "mux \<longleftrightarrow> ctyp c = SSH_CHANNEL_MUX_CLIENT"
  define sc1 where "sc1 = (if mux then sc\<lparr>channels := map (map_option (detach_proxy i)) (channels sc)\<rparr> else sc)"
  have run': "(if mux then mux_remove_remote_forwardings i sc1 else Some sc1) \<bind> (\<lambda>sc2.
      case channel_close_fds (c, net sc2) of (c1, w1) \<Rightarrow>
        abandon_confirms cb i (status_confirms c)
          (put_slot i (Some (c1\<lparr>remote_name := [], path := None, listening_addr := None\<rparr>)) (sc2\<lparr>net := w1\<rparr>)) \<bind> (\<lambda>sc4.
        (case filter_cleanup c of None \<Rightarrow> Some sc4 | Some f \<Rightarrow> cb f 0 i sc4) \<bind> (\<lambda>sc5. Some (put_slot i None sc5)))) = Some sc'"
    using run c unfolding channel_free_def Let_def mux_def sc1_def by simp
  obtain sc2 where sc2: "(if mux then mux_remove_remote_forwardings i sc1 else Some sc1) = Some sc2"
    using run' by (auto simp del: split_paired_All split: bind_split_asm)
  obtain c1 w1 where cw: "channel_close_fds (c, net sc2) = (c1, w1)" by force
  define sc3 where "sc3 = put_slot i (Some (c1\<lparr>remote_name := [], path := None, listening_addr := None\<rparr>)) (sc2\<lparr>net := w1\<rparr>)"
  obtain sc4 sc5 where sc4: "abandon_confirms cb i (status_confirms c) sc3 = Some sc4"
      and sc5: "(case filter_cleanup c of None \<Rightarrow> Some sc4 | Some f \<Rightarrow> cb f 0 i sc4) = Some sc5" "sc' = put_slot i None sc5"
    using run' unfolding sc2 by (auto simp: cw sc3_def split: bind_split_asm)
  have e2: "channels sc2 = channels sc1" "fdlog (net sc2) = fdlog (net sc)"
      "permitted_user (local_perms sc2) = (if mux then map (\<lambda>p. if downstream p = Some i then fwd_perm_clear p else p)
         (permitted_user (local_perms sc)) else permitted_user (local_perms sc))"
    using sc2 mux_remove_loop_map [of i]
    by (auto simp: sc1_def mux_remove_remote_forwardings_def split: if_splits bind_split_asm)
  have e5: "channels sc5 = channels sc3" "local_perms sc5 = local_perms sc3" "fdlog (net sc5) = fdlog (net sc3)"
    using sc5(1) abandon_confirms_frame [OF cb sc4] cb unfolding cleanup_cb_def by (auto split: option.splits)
  have len: "length (channels sc1) = length (channels sc)" by (simp add: sc1_def)
  have i: "i < length (channels sc)" using c by (rule slot_Some_lt)
  show "slot sc' i = None" using i len by (simp add: sc5(2) slot_put e2 e5 sc3_def)
  show "length (channels sc') = length (channels sc)" by (simp add: sc5(2) e5 sc3_def e2 len)
  have s1: "slot sc1 j = (if mux then map_option (detach_proxy i) (slot sc j) else slot sc j)" for j
    by (simp add: sc1_def slot_map)
  have ch: "slot s j = slot t j" if "channels s = channels t" for s t j using that by (simp add: slot_def)
  have "slot sc' j = slot sc1 j" if "j \<noteq> i" for j
    using that ch [OF e5(1)] ch [OF e2(1)] by (simp add: sc5(2) slot_put sc3_def)
  then show "slot sc' j = (if ctyp c = SSH_CHANNEL_MUX_CLIENT then map_option (detach_proxy i) (slot sc j) else slot sc j)"
    if "j \<noteq> i" for j using that s1 [of j] by (simp add: mux_def)
  show "permitted_user (local_perms sc') = (if ctyp c = SSH_CHANNEL_MUX_CLIENT
           then map (\<lambda>p. if downstream p = Some i then fwd_perm_clear p else p) (permitted_user (local_perms sc))
           else permitted_user (local_perms sc))"
    by (simp add: sc5(2) e5 sc3_def e2 mux_def)
  have "fdlog (snd (channel_close_fds (c, w))) = fdlog (snd (channel_close_fds (c, w')))" if "fdlog w = fdlog w'" for w w'
    using that by (simp add: channel_close_fds_def close_fd_def Let_def)
  from this [OF e2(2)] show "fdlog (net sc') = fdlog (snd (channel_close_fds (c, net sc)))"
    by (simp add: sc5(2) e5 sc3_def cw)
qed

section \<open>References to multiplexing clients\<close>

definition mux_client_at :: "ssh_channels \<Rightarrow> nat \<Rightarrow> bool" where
  "mux_client_at sc d \<longleftrightarrow> (case slot sc d of None \<Rightarrow> False | Some dc \<Rightarrow> ctyp dc = SSH_CHANNEL_MUX_CLIENT)"

text \<open>Every proxied channel and every forwarding permission that names a client names one that is there.\<close>

definition mux_refs_ok :: "ssh_channels \<Rightarrow> bool" where
  "mux_refs_ok sc \<longleftrightarrow>
     (\<forall>i c d. slot sc i = Some c \<longrightarrow> ctyp c = SSH_CHANNEL_MUX_PROXY \<longrightarrow> mux_ctx c = Some d \<longrightarrow> mux_client_at sc d) \<and>
     (\<forall>p \<in> set (permitted_user (local_perms sc)). \<forall>d. downstream p = Some d \<longrightarrow> mux_client_at sc d)"

lemma mux_refsD:
  "mux_refs_ok sc \<Longrightarrow> slot sc i = Some c \<Longrightarrow> ctyp c = SSH_CHANNEL_MUX_PROXY \<Longrightarrow> mux_ctx c = Some d \<Longrightarrow> mux_client_at sc d"
  "mux_refs_ok sc \<Longrightarrow> p \<in> set (permitted_user (local_perms sc)) \<Longrightarrow> downstream p = Some d \<Longrightarrow> mux_client_at sc d"
  unfolding mux_refs_ok_def by blast+

text \<open>Two states with the same types and references in every slot.\<close>

definition same_refs :: "ssh_channels \<Rightarrow> ssh_channels \<Rightarrow> bool" where
  "same_refs sc sc' \<longleftrightarrow> (\<forall>i. map_option (\<lambda>c. (ctyp c, mux_ctx c)) (slot sc' i) = map_option (\<lambda>c. (ctyp c, mux_ctx c)) (slot sc i)) \<and>
     map downstream (permitted_user (local_perms sc')) = map downstream (permitted_user (local_perms sc))"

lemma same_refs_client: "same_refs sc sc' \<Longrightarrow> mux_client_at sc' d = mux_client_at sc d"
  unfolding same_refs_def mux_client_at_def
  by (drule conjunct1, drule spec [of _ d]) (auto split: option.splits)

lemma same_refs_ok:
  assumes "mux_refs_ok sc" and same: "same_refs sc sc'" shows "mux_refs_ok sc'"
  unfolding mux_refs_ok_def
proof (intro conjI allI ballI impI)
  fix i c d assume "slot sc' i = Some c" "ctyp c = SSH_CHANNEL_MUX_PROXY" "mux_ctx c = Some d"
  then obtain c0 where "slot sc i = Some c0" "ctyp c0 = SSH_CHANNEL_MUX_PROXY" "mux_ctx c0 = Some d"
    using spec [OF conjunct1 [OF same [unfolded same_refs_def]], of i] by (cases "slot sc i") auto
  then show "mux_client_at sc' d" using mux_refsD(1) [OF assms(1)] same_refs_client [OF same] by blast
next
  fix p d assume p: "p \<in> set (permitted_user (local_perms sc'))" "downstream p = Some d"
  from p(1) have "downstream p \<in> set (map downstream (permitted_user (local_perms sc')))" by simp
  then have "Some d \<in> set (map downstream (permitted_user (local_perms sc)))"
    unfolding conjunct2 [OF same [unfolded same_refs_def]] p(2) .
  then obtain q where "q \<in> set (permitted_user (local_perms sc))" "downstream q = Some d" by auto
  then show "mux_client_at sc' d" using mux_refsD(2) [OF assms(1)] same_refs_client [OF same] by blast
qed

lemma same_refs_refl [simp]: "same_refs sc sc"
  by (simp add: same_refs_def)

lemma same_refs_trans: "same_refs a b \<Longrightarrow> same_refs b c \<Longrightarrow> same_refs a c"
  by (simp add: same_refs_def)

lemma same_refs_update [intro]:
  "(\<And>c. slot sc i = Some c \<Longrightarrow> ctyp (f c) = ctyp c \<and> mux_ctx (f c) = mux_ctx c) \<Longrightarrow> same_refs sc (update_slot i f sc)"
  unfolding same_refs_def by (cases "slot sc i") (auto simp: slot_update)

lemma same_refs_send_raw [simp]: "same_refs sc (snd (send_raw t bs sc))"
  by (simp add: same_refs_def send_raw_def split: option.splits)

lemma detach_proxy_ref:
  assumes "ctyp (detach_proxy i c) = SSH_CHANNEL_MUX_PROXY"
  shows "detach_proxy i c = c" and "mux_ctx c \<noteq> Some i" and "ctyp c = SSH_CHANNEL_MUX_PROXY"
  using assms by (auto simp: detach_proxy_def split: if_splits)

lemma channel_free_refs:
  assumes cb: "cleanup_cb cb" and ok: "mux_refs_ok sc" and run: "channel_free cb i sc = Some sc'"
  shows "mux_refs_ok sc'"
proof -
  obtain c where c: "slot sc i = Some c" using run by (auto simp: channel_free_def split: option.splits)
  note free = channel_free_correct [OF cb run c]
  have client: "mux_client_at sc' d" if "mux_client_at sc d" "d \<noteq> i" for d
    using that free(2) [of d] by (auto simp: mux_client_at_def detach_proxy_def split: option.splits if_splits)
  have neq: "d \<noteq> i" if "mux_client_at sc d" "ctyp c \<noteq> SSH_CHANNEL_MUX_CLIENT" for d
    using that c by (auto simp: mux_client_at_def)
  show ?thesis unfolding mux_refs_ok_def
  proof (intro conjI allI ballI impI)
    fix j c' d assume j: "slot sc' j = Some c'" "ctyp c' = SSH_CHANNEL_MUX_PROXY" "mux_ctx c' = Some d"
    then have "j \<noteq> i" using free(1) by auto
    then have "slot sc j = Some c' \<and> (ctyp c = SSH_CHANNEL_MUX_CLIENT \<longrightarrow> d \<noteq> i)"
    proof (cases "ctyp c = SSH_CHANNEL_MUX_CLIENT")
      case True
      then obtain c0 where "slot sc j = Some c0" "c' = detach_proxy i c0" 
        using free(2) [OF \<open>j \<noteq> i\<close>] j(1) by (cases "slot sc j") auto
      then show ?thesis using detach_proxy_ref [of i c0] j by auto
    qed (use free(2) [OF \<open>j \<noteq> i\<close>] j(1) in simp)
    then have c0: "slot sc j = Some c'" "ctyp c = SSH_CHANNEL_MUX_CLIENT \<Longrightarrow> d \<noteq> i" by blast+
    have "mux_client_at sc d" using mux_refsD(1) [OF ok c0(1)] j by simp
    then show "mux_client_at sc' d" using client neq c0(2) by blast
  next
    fix p d assume p: "p \<in> set (permitted_user (local_perms sc'))" "downstream p = Some d"
    then have "p \<in> set (permitted_user (local_perms sc))" "ctyp c = SSH_CHANNEL_MUX_CLIENT \<Longrightarrow> d \<noteq> i"
      using free(3) by (auto simp: fwd_perm_clear_def split: if_splits)
    then show "mux_client_at sc' d" using client neq mux_refsD(2) [OF ok _ p(2)] by blast
  qed
qed

lemma channel_new_refs:
  assumes ok: "mux_refs_ok sc" and run: "channel_new A ct t r w e win mp eu rn sc = Some (i, sc')"
  shows "mux_refs_ok sc'" and "mux_client_at sc d \<Longrightarrow> mux_client_at sc' d"
proof -
  note new = channel_new_slot [OF run]
  have client: "mux_client_at sc' d" if "mux_client_at sc d" for d
    using that new(1) new(2) [of d] by (cases "d = i") (auto simp: mux_client_at_def)
  then show "mux_client_at sc d \<Longrightarrow> mux_client_at sc' d" .
  show "mux_refs_ok sc'" unfolding mux_refs_ok_def new(5)
  proof (intro conjI allI ballI impI)
    fix j c' d assume j: "slot sc' j = Some c'" "ctyp c' = SSH_CHANNEL_MUX_PROXY" "mux_ctx c' = Some d"
    then have "j \<noteq> i" using new(3) by auto
    then have "slot sc j = Some c'" using new(2) [of j] j(1) by simp
    then show "mux_client_at sc' d" using client mux_refsD(1) [OF ok _ j(2,3)] by blast
  qed (use client mux_refsD(2) [OF ok] in blast)
qed

lemma refs_update:
  assumes ok: "mux_refs_ok sc" and keep: "\<And>c. slot sc i = Some c \<Longrightarrow> ctyp (f c) = ctyp c"
    and ref: "\<And>c d. slot sc i = Some c \<Longrightarrow> mux_ctx (f c) = Some d \<Longrightarrow> mux_ctx c = Some d \<or> mux_client_at sc d"
  shows "mux_refs_ok (update_slot i f sc)" and "mux_client_at (update_slot i f sc) d = mux_client_at sc d"
proof -
  have client: "mux_client_at (update_slot i f sc) d = mux_client_at sc d" for d
    using keep by (cases "slot sc i") (auto simp: mux_client_at_def slot_update split: option.splits)
  then show "mux_client_at (update_slot i f sc) d = mux_client_at sc d" .
  show "mux_refs_ok (update_slot i f sc)" unfolding mux_refs_ok_def client update_slot_other
  proof (intro conjI allI ballI impI)
    fix j c' d assume j: "slot (update_slot i f sc) j = Some c'" "ctyp c' = SSH_CHANNEL_MUX_PROXY" "mux_ctx c' = Some d"
    show "mux_client_at sc d"
    proof (cases "j = i")
      case True
      then obtain c where c: "slot sc i = Some c" "c' = f c" using j(1) by (auto simp: slot_update)
      then show ?thesis using ref [OF c(1)] keep [OF c(1)] j mux_refsD(1) [OF ok c(1)] by auto
    next
      case False
      then have "slot sc j = Some c'" using j(1) by (simp add: slot_update)
      then show ?thesis by (rule mux_refsD(1) [OF ok _ j(2,3)])
    qed
  qed (rule mux_refsD(2) [OF ok])
qed

lemma put_slot_update: "slot sc d = Some dc \<Longrightarrow> put_slot d (Some (f dc)) sc = update_slot d f sc"
  by (simp add: update_slot_def)

lemma mux_proxy_new_refs:
  assumes ok: "mux_refs_ok sc" and d: "mux_client_at sc d" and run: "mux_proxy_new A rn d did sc = Some (i, sc')"
  shows "mux_refs_ok sc'"
proof -
  obtain sc1 where sc1: "channel_new A ''mux proxy'' SSH_CHANNEL_MUX_PROXY (-1) (-1) (-1) 0 0 CHAN_EXTENDED_IGNORE rn sc = Some (i, sc1)"
      "sc' = update_slot i (\<lambda>c. c\<lparr>mux_ctx := Some d, mux_downstream_id := did\<rparr>) sc1"
    using run by (auto simp: mux_proxy_new_def split: bind_split_asm)
  show ?thesis unfolding sc1(2)
    by (rule refs_update(1) [OF channel_new_refs(1) [OF ok sc1(1)]])
      (use channel_new_refs(2) [OF ok sc1(1) d] in auto)
qed

lemma downstream_open_refs:
  assumes cb: "cleanup_cb cb" and ok: "mux_refs_ok sc" and d: "mux_client_at sc d"
    and run: "downstream_open A cb d bs sc = Some (r, sc')"
  shows "mux_refs_ok sc'"
proof -
  consider "sc' = sc" | rn did i sc1 where "mux_proxy_new A rn d did sc = Some (i, sc1)"
      "channel_free cb i sc1 = Some sc' \<or> (\<exists>t x. sc' = snd (send_raw t x sc1))"
    using run unfolding downstream_open_def
    by (auto split: option.split_asm bind_split_asm prod.split_asm) (metis snd_conv)+
  then show ?thesis
  proof cases
    case 2
    note ok1 = mux_proxy_new_refs [OF ok d 2(1)]
    show ?thesis using 2(2) channel_free_refs [OF cb ok1] same_refs_ok [OF ok1 same_refs_send_raw] by auto
  qed (use ok in simp)
qed

lemma downstream_confirm_refs:
  assumes cb: "cleanup_cb cb" and ok: "mux_refs_ok sc" and d: "mux_client_at sc d"
    and run: "downstream_confirm A cb d bs sc = Some (r, sc')"
  shows "mux_refs_ok sc'"
proof -
  consider "sc' = sc" | rn did i rid sc1 where "mux_proxy_new A rn d did sc = Some (i, sc1)"
      "channel_free cb i (update_slot i (\<lambda>c. c\<lparr>remote_id := rid, have_remote_id := True\<rparr>) sc1) = Some sc' \<or>
       (\<exists>t x. sc' = snd (send_raw t x (update_slot i (\<lambda>c. c\<lparr>remote_id := rid, have_remote_id := True\<rparr>) sc1)))"
    using run unfolding downstream_confirm_def Let_def
    by (auto split: option.split_asm bind_split_asm prod.split_asm) (metis snd_conv)+
  then show ?thesis
  proof cases
    case (2 rn did i rid sc1)
    have ok1: "mux_refs_ok (update_slot i (\<lambda>c. c\<lparr>remote_id := rid, have_remote_id := True\<rparr>) sc1)"
      by (rule same_refs_ok [OF mux_proxy_new_refs [OF ok d 2(1)]]) auto
    show ?thesis using 2(2) channel_free_refs [OF cb ok1] same_refs_ok [OF ok1 same_refs_send_raw] by auto
  qed (use ok in simp)
qed

lemma downstream_forward_refs:
  assumes ok: "mux_refs_ok sc" and d: "mux_client_at sc d" and run: "downstream_forward A d bs sc = Some (r, sc')"
  shows "mux_refs_ok sc'"
proof -
  consider "sc' = sc" | p n sc1 t x where "downstream p = Some d"
      "permission_set_add FORWARD_USER FORWARD_LOCAL p sc = Some (n, sc1)" "sc' = snd (send_raw t x sc1)"
    using run unfolding downstream_forward_def
    by (auto split: option.split_asm bind_split_asm prod.split_asm) (metis permission.select_convs(6) snd_conv)+
  then show ?thesis
  proof cases
    case (2 p n sc1 t x)
    have sc1: "channels sc1 = channels sc" "permitted_user (local_perms sc1) = permitted_user (local_perms sc) @ [p]"
      using 2(2) by (auto simp: permission_set_add_def permission_set_put_array_def permission_set_put_def
          permission_set_get_array_def permission_set_get_def Let_def split: if_splits)
    have s: "slot sc1 j = slot sc j" for j using sc1(1) by (simp add: slot_def)
    have client: "mux_client_at sc1 e = mux_client_at sc e" for e by (simp add: mux_client_at_def s)
    have "mux_refs_ok sc1" unfolding mux_refs_ok_def client s sc1(2)
      using ok d 2(1) unfolding mux_refs_ok_def by auto
    from same_refs_ok [OF this same_refs_send_raw] show ?thesis unfolding 2(3) .
  qed (use ok in simp)
qed

lemma downstream_close_refs:
  assumes cb: "cleanup_cb cb" and ok: "mux_refs_ok sc" and run: "downstream_close cb bs sc = Some sc'"
  shows "mux_refs_ok sc'"
proof -
  have "mux_refs_ok (update_slot i (set_flag CHAN_CLOSE_SENT) sc)" for i
    by (rule same_refs_ok [OF ok]) (auto simp: set_flag_def)
  then show ?thesis using run ok channel_free_refs [OF cb ok] unfolding downstream_close_def
    by (auto split: if_split_asm option.split_asm)
qed

lemma proxy_downstream_refs:
  assumes cb: "cleanup_cb cb" and ok: "mux_refs_ok sc" and d: "mux_client_at sc d"
    and run: "channel_proxy_downstream A cb d sc = Some (r, sc')"
  shows "mux_refs_ok sc'"
proof -
  have up: "mux_refs_ok (update_slot d (\<lambda>c. c\<lparr>cinput := b\<rparr>) sc)"
      "mux_client_at (update_slot d (\<lambda>c. c\<lparr>cinput := b\<rparr>) sc) d" for b
    using refs_update [OF ok, of d "\<lambda>c. c\<lparr>cinput := b\<rparr>"] d by auto
  note parts = downstream_open_refs [OF cb up] downstream_confirm_refs [OF cb up] downstream_forward_refs [OF up]
  have raw: "mux_refs_ok sc'" if "send_raw t x s1 = (r, sc')" "mux_refs_ok s1" for t x s1
    using same_refs_ok [OF that(2) same_refs_send_raw [of s1 t x]] that(1) by (metis snd_conv)
  have close: "mux_refs_ok sc'" if cl: "(do { sc2 \<leftarrow> downstream_close cb x (update_slot d (\<lambda>c. c\<lparr>cinput := b\<rparr>) sc); Some (send_raw t x sc2) }) = Some (r, sc')"
    for t x b
  proof -
    obtain sc2 where "downstream_close cb x (update_slot d (\<lambda>c. c\<lparr>cinput := b\<rparr>) sc) = Some sc2" "send_raw t x sc2 = (r, sc')"
      using cl by (auto split: bind_split_asm)
    then show ?thesis using raw downstream_close_refs [OF cb up(1)] by blast
  qed
  show ?thesis using run ok up(1) parts raw [OF _ up(1)] close unfolding channel_proxy_downstream_def Let_def
    by (auto split: option.split_asm prod.split_asm if_split_asm)
qed

lemma proxy_upstream_refs:
  assumes cb: "cleanup_cb cb" and ok: "mux_refs_ok sc" and run: "channel_proxy_upstream A cb i t p sc = Some (r, sc')"
  shows "mux_refs_ok sc'"
proof -
  consider "sc' = sc" | d dc b where "slot sc d = Some dc" and
      "\<exists>rid. sc' = update_slot i (\<lambda>c. c\<lparr>remote_id := rid, have_remote_id := True\<rparr>) (put_slot d (Some (dc\<lparr>coutput := b\<rparr>)) sc) \<or>
       channel_free cb i (put_slot d (Some (dc\<lparr>coutput := b\<rparr>)) sc) = Some sc' \<or>
       sc' = update_slot i (set_flag CHAN_CLOSE_RCVD) (put_slot d (Some (dc\<lparr>coutput := b\<rparr>)) sc) \<or>
       sc' = put_slot d (Some (dc\<lparr>coutput := b\<rparr>)) sc"
    using run unfolding channel_proxy_upstream_def Let_def
    by (fastforce split: option.split_asm if_split_asm bind_split_asm)
  then show ?thesis
  proof cases
    case (2 d dc b)
    have ok1: "mux_refs_ok (put_slot d (Some (dc\<lparr>coutput := b\<rparr>)) sc)"
      unfolding put_slot_update [OF 2(1), of "\<lambda>c. c\<lparr>coutput := b\<rparr>"] by (rule same_refs_ok [OF ok]) auto
    have "mux_refs_ok (update_slot i (\<lambda>c. c\<lparr>remote_id := rid, have_remote_id := True\<rparr>) (put_slot d (Some (dc\<lparr>coutput := b\<rparr>)) sc))" for rid
      by (rule same_refs_ok [OF ok1]) auto
    moreover have "mux_refs_ok (update_slot i (set_flag CHAN_CLOSE_RCVD) (put_slot d (Some (dc\<lparr>coutput := b\<rparr>)) sc))"
      by (rule same_refs_ok [OF ok1]) (auto simp: set_flag_def)
    ultimately show ?thesis using 2(2) channel_free_refs [OF cb ok1] ok1 by blast
  qed (use ok in simp)
qed

text \<open>What happens to the table while multiplexing clients come and go; \<open>MuxOther\<close> stands for everything that
  leaves the types and references of the channels alone.\<close>

inductive mux_step :: "callback \<Rightarrow> allocator \<Rightarrow> ssh_channels \<Rightarrow> ssh_channels \<Rightarrow> bool" for cb A where
  MuxNew: "channel_new A ct t r w e win mp eu rn sc = Some (i, sc') \<Longrightarrow> mux_step cb A sc sc'"
| MuxFree: "channel_free cb i sc = Some sc' \<Longrightarrow> mux_step cb A sc sc'"
| MuxDown: "mux_client_at sc d \<Longrightarrow> channel_proxy_downstream A cb d sc = Some (ok, sc') \<Longrightarrow> mux_step cb A sc sc'"
| MuxUp: "channel_proxy_upstream A cb i t p sc = Some (done, sc') \<Longrightarrow> mux_step cb A sc sc'"
| MuxOther: "same_refs sc sc' \<Longrightarrow> mux_step cb A sc sc'"

lemma mux_steps_refs:
  assumes cb: "cleanup_cb cb" and "(mux_step cb A)\<^sup>*\<^sup>* sc sc'" and "mux_refs_ok sc"
  shows "mux_refs_ok sc'"
  using assms(2)
proof (induction rule: rtranclp_induct)
  case (step sc1 sc2)
  from step.hyps(2) step.IH show ?case
    by cases (blast intro: channel_new_refs(1) channel_free_refs [OF cb] proxy_downstream_refs [OF cb]
        proxy_upstream_refs [OF cb] same_refs_ok)+
qed (use assms(3) in simp)

lemma init_refs: "mux_refs_ok (channel_init_channels w)"
  by (auto simp: mux_refs_ok_def channel_init_channels_def slot_def)

lemma proxy_upstream_live:
  assumes "slot sc i = Some c" and "ctyp c = SSH_CHANNEL_MUX_PROXY" and "mux_ctx c = Some d" and "mux_client_at sc d"
    and "proxied_type t" and "t \<noteq> SSH2_MSG_CHANNEL_CLOSE"
  shows "\<exists>sc'. channel_proxy_upstream A cb i t p sc = Some (True, sc')"
  using assms by (auto simp: channel_proxy_upstream_def mux_client_at_def Let_def split: option.splits)

section \<open>Translation of channel numbers\<close>

definition buf_room :: "sshbuf \<Rightarrow> nat \<Rightarrow> bool" where
  "buf_room b n \<longleftrightarrow> sshbuf_wf b \<and> writable b \<and> length (contents b) + n \<le> max_size b"

lemma put_room:
  assumes "\<forall>k. malloc_ok A k" and "buf_room b (length v + n)"
  shows "\<exists>b'. sshbuf_put A b v = (Inr (), b') \<and> buf_room b' n \<and> contents b' = contents b @ v"
proof -
  have r: "sshbuf_wf b" "writable b" "length (contents b) + length v \<le> max_size b"
    using assms(2) by (auto simp: buf_room_def)
  obtain b' where b': "sshbuf_put A b v = (Inr (), b')" by (rule sshbuf_put_room [OF r(1,2) assms(1) r(3)])
  have "or_fatal (sshbuf_put A b v) = Some b'" by (simp add: or_fatal_def b')
  from or_fatal_put [OF r(1) this] same_header_writable [of b b'] assms(2) b' show ?thesis
    by (auto simp: buf_room_def same_header_def)
qed

lemma new_room:
  assumes "\<forall>k. malloc_ok A k"
  shows "\<exists>b. sshbuf_new A True = Some b \<and> buf_room b SSHBUF_SIZE_MAX \<and> contents b = []"
proof -
  obtain b where b: "sshbuf_new A True = Some b" "max_size b = SSHBUF_SIZE_MAX"
    using assms by (auto simp: sshbuf_new_def calloc_def)
  then show ?thesis using sshbuf_new_wf [OF b(1)] by (auto simp: buf_room_def)
qed

lemma room_less: "buf_room b n \<Longrightarrow> m \<le> n \<Longrightarrow> buf_room b m"
  by (simp add: buf_room_def)

lemma put_small_room:
  assumes A: "\<forall>k. malloc_ok A k"
  shows "buf_room b (Suc n) \<Longrightarrow> \<exists>b'. or_fatal (sshbuf_put_u8 A b v) = Some b' \<and> buf_room b' n \<and> contents b' = contents b @ [v]"
    and "buf_room b (4 + n) \<Longrightarrow> \<exists>b'. or_fatal (sshbuf_put_u32 A b x) = Some b' \<and> buf_room b' n \<and> contents b' = contents b @ POKE_U32 x"
    and "buf_room b (length y + n) \<Longrightarrow> \<exists>b'. or_fatal (sshbuf_put A b y) = Some b' \<and> buf_room b' n \<and> contents b' = contents b @ y"
  using put_room [OF A, of b "[v]" n] put_room [OF A, of b "POKE_U32 x" n] put_room [OF A, of b y n]
  by (auto simp: or_fatal_def sshbuf_put_ints)

lemma mux_packet_ok:
  assumes A: "\<forall>k. malloc_ok A k" and "length rest + 6 \<le> SSHBUF_SIZE_MAX"
  shows "\<exists>b. mux_packet A t did rest = Some b \<and> sshbuf_wf b \<and> contents b = 0 # t # POKE_U32 did @ rest"
proof -
  obtain b where b: "sshbuf_new A True = Some b" "buf_room b SSHBUF_SIZE_MAX" "contents b = []"
    using new_room [OF A] by blast
  have "buf_room b (Suc (Suc (4 + (length rest + 0))))" by (rule room_less [OF b(2)]) (use assms(2) in simp)
  from put_small_room(1) [OF A this, of 0] obtain b1 where b1: "or_fatal (sshbuf_put_u8 A b 0) = Some b1"
      "buf_room b1 (Suc (4 + (length rest + 0)))" "contents b1 = [0]" using b(3) by auto
  from put_small_room(1) [OF A b1(2), of t] obtain b2 where b2: "or_fatal (sshbuf_put_u8 A b1 t) = Some b2"
      "buf_room b2 (4 + (length rest + 0))" "contents b2 = [0, t]" using b1(3) by auto
  from put_small_room(2) [OF A b2(2), of did] obtain b3 where b3: "or_fatal (sshbuf_put_u32 A b2 did) = Some b3"
      "buf_room b3 (length rest + 0)" "contents b3 = [0, t] @ POKE_U32 did" using b2(3) by auto
  from put_small_room(3) [OF A b3(2)] obtain b4 where b4: "or_fatal (sshbuf_put A b3 rest) = Some b4"
      "buf_room b4 0" "contents b4 = [0, t] @ POKE_U32 did @ rest" using b3(3) by auto
  show ?thesis using b(1) b1(1) b2(1) b3(1) b4 by (auto simp: mux_packet_def buf_room_def)
qed

lemma proxy_deliver_ok:
  assumes A: "\<forall>k. malloc_ok A k" and fits: "string_fits (0 # t # POKE_U32 did @ rest)"
    and out: "buf_room out (length rest + 10)"
  shows "contents (proxy_deliver A t did rest out) = contents out @ wire_string (0 # t # POKE_U32 did @ rest)"
proof -
  have len: "length rest + 6 \<le> SSHBUF_SIZE_MAX" using fits by (simp add: string_fits_def)
  obtain b where b: "mux_packet A t did rest = Some b" "sshbuf_wf b" "contents b = 0 # t # POKE_U32 did @ rest"
    using mux_packet_ok [OF A len] by blast
  have "sshbuf_read b (off b) (sshbuf_len b) = 0 # t # POKE_U32 did @ rest"
    using buf_bytes_contents [OF b(2)] b(3) by (simp add: buf_bytes_def)
  then have "sshbuf_put_stringb A out (Some b) = sshbuf_put A out (wire_string (0 # t # POKE_U32 did @ rest))"
    using sshbuf_put_string_put [OF _ fits] out by (simp add: sshbuf_put_stringb_def buf_room_def)
  moreover have "buf_room out (length (wire_string (0 # t # POKE_U32 did @ rest)) + 0)"
    by (rule room_less [OF out]) (simp add: wire_string_def)
  ultimately show ?thesis using put_room [OF A, of out "wire_string (0 # t # POKE_U32 did @ rest)" 0] b(1)
    by (auto simp: proxy_deliver_def)
qed

lemma channel_new_total:
  assumes "\<forall>k. malloc_ok A k" and "length (channels sc) \<le> CHANNELS_MAX_CHANNELS"
  shows "\<exists>i sc'. channel_new A ct t r w e win mp eu rn sc = Some (i, sc')"
  using new_room [OF assms(1)] assms(2)
  by (cases "free_slot (channels sc)") (auto simp: channel_new_def Let_def)

lemma mux_proxy_new_slot:
  assumes "mux_proxy_new A rn d did sc = Some (i, sc')"
  shows "slot sc i = None" and "\<And>j. j \<noteq> i \<Longrightarrow> slot sc' j = slot sc j" and "net sc' = net sc"
    and "\<exists>c. slot sc' i = Some c \<and> ctyp c = SSH_CHANNEL_MUX_PROXY \<and> mux_ctx c = Some d \<and> mux_downstream_id c = did"
proof -
  obtain sc1 where sc1: "channel_new A ''mux proxy'' SSH_CHANNEL_MUX_PROXY (-1) (-1) (-1) 0 0 CHAN_EXTENDED_IGNORE rn sc = Some (i, sc1)"
      "sc' = update_slot i (\<lambda>c. c\<lparr>mux_ctx := Some d, mux_downstream_id := did\<rparr>) sc1"
    using assms by (auto simp: mux_proxy_new_def split: bind_split_asm)
  note new = channel_new_slot [OF sc1(1)]
  show "slot sc i = None" by (rule new(1))
  show "slot sc' j = slot sc j" if "j \<noteq> i" for j using new(2) [OF that] that by (simp add: sc1(2) slot_update)
  show "net sc' = net sc" using new(6) by (simp add: sc1(2))
  show "\<exists>c. slot sc' i = Some c \<and> ctyp c = SSH_CHANNEL_MUX_PROXY \<and> mux_ctx c = Some d \<and> mux_downstream_id c = did"
    using new(3) by (auto simp: sc1(2) slot_update)
qed

lemma mux_proxy_new_total:
  assumes "\<forall>k. malloc_ok A k" and "length (channels sc) \<le> CHANNELS_MAX_CHANNELS"
  shows "\<exists>i sc'. mux_proxy_new A rn d did sc = Some (i, sc')"
proof -
  obtain i sc' where "channel_new A ''mux proxy'' SSH_CHANNEL_MUX_PROXY (-1) (-1) (-1) 0 0 CHAN_EXTENDED_IGNORE rn sc = Some (i, sc')"
    using channel_new_total [OF assms] by blast
  then show ?thesis by (simp add: mux_proxy_new_def)
qed

lemma downstream_open_ok:
  assumes A: "\<forall>k. malloc_ok A k" and ct: "string_fits ct" "cstring_ok ct"
    and len: "length (wire_string ct) + 4 + length rest \<le> SSHBUF_SIZE_MAX"
    and new: "mux_proxy_new A (cstr ct) d did sc = Some (i, sc1)"
  shows "downstream_open A cb d (wire_string ct @ POKE_U32 did @ rest) sc =
    Some (send_raw SSH2_MSG_CHANNEL_OPEN (wire_string ct @ POKE_U32 (of_nat i) @ rest) sc1)"
proof -
  define bs where "bs = wire_string ct @ POKE_U32 did @ rest"
  have "length bs \<le> SSHBUF_SIZE_MAX" using len by (simp add: bs_def)
  then obtain orig where orig: "sshbuf_from True (Some bs) (length bs) = Some orig" by (auto simp: sshbuf_from_def)
  have o: "sshbuf_wf orig" "contents orig = bs" using sshbuf_from_wf [OF orig] by auto
  obtain o1 where o1: "sshpkt_get_cstring A orig = Some (ct, o1)" "sshbuf_wf o1" "contents o1 = POKE_U32 did @ rest"
    using sshpkt_get_cstring_ok [OF o(1) ct(1) _ ct(2)] A o(2) bs_def by blast
  obtain o2 where o2: "sshpkt_get_u32 o1 = Some (did, o2)" "sshbuf_wf o2" "contents o2 = rest"
    using sshpkt_get_u32_ok [OF o1(2,3)] by blast
  obtain m where m: "sshbuf_new A True = Some m" "buf_room m SSHBUF_SIZE_MAX" "contents m = []"
    using new_room [OF A] by blast
  have "buf_room m (length (wire_string ct) + (4 + (length rest + 0)))" by (rule room_less [OF m(2)]) (use len in simp)
  from put_small_room(3) [OF A this] obtain m1 where m1: "or_fatal (sshbuf_put A m (wire_string ct)) = Some m1"
      "buf_room m1 (4 + (length rest + 0))" "contents m1 = wire_string ct" using m(3) by auto
  have c: "sshbuf_put_cstring A m (Some ct) = sshbuf_put A m (wire_string ct)"
    using sshbuf_put_string_put [OF _ ct(1)] m(2) by (simp add: sshbuf_put_cstring_def buf_room_def)
  from put_small_room(2) [OF A m1(2)] obtain m2 where m2: "or_fatal (sshbuf_put_u32 A m1 (of_nat i)) = Some m2"
      "buf_room m2 (length rest + 0)" "contents m2 = wire_string ct @ POKE_U32 (of_nat i)" using m1(3) by fastforce
  have p: "sshbuf_putb A m2 (Some o2) = sshbuf_put A m2 rest"
    using buf_bytes_contents [OF o2(2)] o2(3) by (simp add: sshbuf_putb_def buf_bytes_def)
  from put_small_room(3) [OF A m2(2)] obtain m3 where m3: "or_fatal (sshbuf_put A m2 rest) = Some m3"
      "buf_room m3 0" "contents m3 = wire_string ct @ POKE_U32 (of_nat i) @ rest" using m2(3) by auto
  have "buf_bytes m3 = wire_string ct @ POKE_U32 (of_nat i) @ rest" using m3(2,3) by (simp add: buf_room_def)
  then show ?thesis unfolding bs_def [symmetric]
    by (simp add: downstream_open_def orig m(1) o1(1) o2(1) new c m1(1) m2(1) p m3(1))
qed

text \<open>A request to open a channel, as a multiplexing client sends it: padding length, type, body.\<close>

lemma proxy_downstream_open:
  assumes A: "\<forall>k. malloc_ok A k" and dc: "slot sc d = Some dc" and wf: "sshbuf_wf (cinput dc)"
    and inp: "contents (cinput dc) = wire_string (0 # SSH2_MSG_CHANNEL_OPEN # wire_string ct @ POKE_U32 did @ rest) @ later"
    and fits: "string_fits (0 # SSH2_MSG_CHANNEL_OPEN # wire_string ct @ POKE_U32 did @ rest)"
    and ct: "string_fits ct" "cstring_ok ct"
    and room: "length (channels sc) \<le> CHANNELS_MAX_CHANNELS" and pkt: "pkt_ok (net sc)"
  shows "\<exists>i c sc'. channel_proxy_downstream A cb d sc = Some (True, sc') \<and> slot sc i = None \<and> slot sc' i = Some c \<and>
    ctyp c = SSH_CHANNEL_MUX_PROXY \<and> mux_ctx c = Some d \<and> mux_downstream_id c = did \<and>
    sent (net sc') = sent (net sc) @ [MsgRaw SSH2_MSG_CHANNEL_OPEN (wire_string ct @ POKE_U32 (of_nat i) @ rest)] \<and>
    (\<exists>b. slot sc' d = Some (dc\<lparr>cinput := b\<rparr>) \<and> contents b = later)"
proof -
  define m where "m = 0 # SSH2_MSG_CHANNEL_OPEN # wire_string ct @ POKE_U32 did @ rest"
  obtain b where b: "sshpkt_get_string_direct (cinput dc) = Some (m, b)" "contents b = later"
    using sshpkt_get_string_ok [OF wf fits inp] m_def by blast
  define sc1 where "sc1 = update_slot d (\<lambda>c. c\<lparr>cinput := b\<rparr>) sc"
  have s1: "slot sc1 d = Some (dc\<lparr>cinput := b\<rparr>)" "net sc1 = net sc" "length (channels sc1) = length (channels sc)"
    using dc by (simp_all add: sc1_def slot_update)
  have "length (channels sc1) \<le> CHANNELS_MAX_CHANNELS" using s1(3) room by simp
  then obtain i sc2 where new: "mux_proxy_new A (cstr ct) d did sc1 = Some (i, sc2)"
    using mux_proxy_new_total [OF A] by blast
  note slots = mux_proxy_new_slot [OF new]
  have "length (wire_string ct) + 4 + length rest \<le> SSHBUF_SIZE_MAX" using fits by (simp add: string_fits_def)
  from downstream_open_ok [OF A ct this new, of cb]
  have run: "channel_proxy_downstream A cb d sc =
      Some (send_raw SSH2_MSG_CHANNEL_OPEN (wire_string ct @ POKE_U32 (of_nat i) @ rest) sc2)"
    by (simp add: channel_proxy_downstream_def dc b(1) m_def sc1_def Let_def)
  have di: "d \<noteq> i" using slots(1) s1(1) by auto
  have "slot sc i = None" using slots(1) di by (simp add: sc1_def slot_update)
  moreover have "slot sc2 d = Some (dc\<lparr>cinput := b\<rparr>)" using slots(2) [of d] di s1(1) by simp
  ultimately show ?thesis using run slots(3,4) s1(2) pkt b(2) by (auto simp: send_raw_def send_packet_def)
qed

lemma proxy_upstream_deliver:
  assumes A: "\<forall>k. malloc_ok A k" and c: "slot sc i = Some c" "ctyp c = SSH_CHANNEL_MUX_PROXY" "mux_ctx c = Some d"
    and dc: "slot sc d = Some dc" "d \<noteq> i"
    and t: "proxied_type t" "t \<noteq> SSH2_MSG_CHANNEL_CLOSE" and p: "sshbuf_wf p"
    and fits: "string_fits (0 # t # POKE_U32 (mux_downstream_id c) @ contents p)"
    and out: "buf_room (coutput dc) (length (contents p) + 10)"
  shows "\<exists>sc' dc'. channel_proxy_upstream A cb i t p sc = Some (True, sc') \<and> slot sc' d = Some dc' \<and>
    contents (coutput dc') = contents (coutput dc) @ wire_string (0 # t # POKE_U32 (mux_downstream_id c) @ contents p)"
proof -
  have "slot (put_slot d x sc) d = x" for x using slot_Some_lt [OF dc(1)] by (simp add: slot_put)
  then show ?thesis using c dc t p proxy_deliver_ok [OF A fits out]
    by (auto simp: channel_proxy_upstream_def Let_def slot_update)
qed

text \<open>A multiplexing client whose input holds one request to open a session as its channel 9.\<close>

definition ex_open :: "byte list" where
  "ex_open = wire_string (0 # SSH2_MSG_CHANNEL_OPEN # wire_string [115] @ POKE_U32 9 @ [1, 2])"

definition ex_mux_client :: channel where
  "ex_mux_client = (ex_chan [])\<lparr>ctyp := SSH_CHANNEL_MUX_CLIENT, flags := CHAN_LOCAL, cinput := ex_buf ex_open\<rparr>"

definition ex_mux :: ssh_channels where
  "ex_mux = (channel_init_channels ex_ssh)\<lparr>channels := Some ex_mux_client # replicate 9 None\<rparr>"

definition ex_cb :: callback where
  "ex_cb f x i sc = Some sc"

lemma ex_cb_ok: "cleanup_cb ex_cb"
  by (simp add: cleanup_cb_def ex_cb_def)

lemma ex_open_simps: "length ex_open = 17" "string_fits [115]" "cstring_ok [115]"
  "string_fits (0 # SSH2_MSG_CHANNEL_OPEN # wire_string [115] @ POKE_U32 9 @ [1, 2])"
  by (simp_all add: ex_open_def wire_string_def string_fits_def cstring_ok_def sshbuf_consts)

lemma ex_mux_slots [simp]: "slot ex_mux 0 = Some ex_mux_client" "slot ex_mux (Suc i) = None"
  "cinput ex_mux_client = ex_buf ex_open" "coutput ex_mux_client = ex_buf []" "mux_client_at ex_mux 0"
  by (simp_all add: slot_def ex_mux_def ex_mux_client_def ex_chan_def mux_client_at_def nth_Cons' split: if_splits)

lemma ex_mux_reach: "(mux_step ex_cb ex_alloc)\<^sup>*\<^sup>* (channel_init_channels ex_ssh) ex_mux"
proof -
  have "length (channels (channel_init_channels ex_ssh)) \<le> CHANNELS_MAX_CHANNELS"
    by (simp add: channel_init_channels_def CHANNELS_MAX_CHANNELS_def)
  then obtain i sc where new: "channel_new ex_alloc ''mux'' SSH_CHANNEL_MUX_CLIENT 5 5 (-1) 0 0 CHAN_EXTENDED_IGNORE ''m''
      (channel_init_channels ex_ssh) = Some (i, sc)"
    using channel_new_total [of ex_alloc] by fastforce
  have i: "i = 0" using new by (auto simp: channel_new_def channel_init_channels_def Let_def numeral_eq_Suc split: bind_split_asm)
  note n = channel_new_slot [OF new, unfolded i]
  have "slot (channel_init_channels ex_ssh) j = None" for j by (simp add: slot_def channel_init_channels_def)
  then have "map_option (\<lambda>c. (ctyp c, mux_ctx c)) (slot ex_mux j) = map_option (\<lambda>c. (ctyp c, mux_ctx c)) (slot sc j)" for j
    using n(2) [of j] n(3) by (cases j) (auto simp: ex_mux_client_def ex_chan_def)
  then have "same_refs sc ex_mux" using n(5) by (simp add: same_refs_def ex_mux_def)
  then show ?thesis by (meson MuxNew [OF new] MuxOther rtranclp.intros)
qed

lemma ex_mux_open:
  "\<exists>i c sc'. channel_proxy_downstream ex_alloc ex_cb 0 ex_mux = Some (True, sc') \<and> slot ex_mux i = None \<and> slot sc' i = Some c \<and>
    ctyp c = SSH_CHANNEL_MUX_PROXY \<and> mux_ctx c = Some 0 \<and> mux_downstream_id c = 9"
proof -
  have "length (channels ex_mux) \<le> CHANNELS_MAX_CHANNELS" "pkt_ok (net ex_mux)"
    by (simp_all add: ex_mux_def channel_init_channels_def ex_ssh_def CHANNELS_MAX_CHANNELS_def)
  moreover have "sshbuf_wf (ex_buf ex_open)" by (rule ex_buf_wf) (simp add: ex_open_simps)
  moreover have "contents (ex_buf ex_open) = wire_string (0 # SSH2_MSG_CHANNEL_OPEN # wire_string [115] @ POKE_U32 9 @ [1, 2]) @ []"
    by (simp add: ex_open_def)
  ultimately show ?thesis
    using proxy_downstream_open [OF _ ex_mux_slots(1) _ _ ex_open_simps(4,2,3), of ex_alloc "[]" ex_cb] ex_alloc_ok
    unfolding ex_mux_slots(3) by blast
qed

lemma close_fd_log: "fdlog (close_fd fd w) = fdlog w @ map CloseFd (if fd = -1 then [] else [fd])"
  by (simp add: close_fd_def)

lemma channel_close_fds_log:
  "\<exists>fds. fdlog (snd (channel_close_fds (c, w))) = fdlog w @ map CloseFd fds \<and> distinct fds \<and>
     set fds = {sock c, rfd c, wfd c, efd c} - {-1}"
proof -
  define one where "one P fd = (if P \<and> fd \<noteq> -1 then [fd] else [])" for P and fd :: int
  define fds where "fds = one True (sock c) @ one (rfd c \<noteq> sock c) (rfd c) @
    one (wfd c \<noteq> sock c \<and> wfd c \<noteq> rfd c) (wfd c) @ one (efd c \<noteq> sock c \<and> efd c \<noteq> rfd c \<and> efd c \<noteq> wfd c) (efd c)"
  have "fdlog (snd (channel_close_fds (c, w))) = fdlog w @ map CloseFd fds"
    by (simp add: channel_close_fds_def fds_def one_def close_fd_log Let_def)
  moreover have "distinct fds" "set fds = {sock c, rfd c, wfd c, efd c} - {-1}"
    by (auto simp: fds_def one_def)
  ultimately show ?thesis by blast
qed

section \<open>Properties\<close>

text \<open>C12. Channel numbers of multiplexing clients. When a client asks for a channel under its own number
  \<open>did\<close>, the request that goes to the server is the client's, byte for byte, except that the number is the index of a
  slot that was free; and every later message of the server for that slot reaches the same client, unchanged except
  that the number is \<open>did\<close> again.\<close>

theorem mux_id_round_trip:
  assumes "\<forall>k. malloc_ok A k" and "slot sc d = Some dc" and "sshbuf_wf (cinput dc)"
    and "contents (cinput dc) = wire_string (0 # SSH2_MSG_CHANNEL_OPEN # wire_string ct @ POKE_U32 did @ rest) @ later"
    and "string_fits (0 # SSH2_MSG_CHANNEL_OPEN # wire_string ct @ POKE_U32 did @ rest)"
    and "string_fits ct" "cstring_ok ct" and "length (channels sc) \<le> CHANNELS_MAX_CHANNELS" and "pkt_ok (net sc)"
  shows "\<exists>i sc'. channel_proxy_downstream A cb d sc = Some (True, sc') \<and> slot sc i = None \<and>
    sent (net sc') = sent (net sc) @ [MsgRaw SSH2_MSG_CHANNEL_OPEN (wire_string ct @ POKE_U32 (of_nat i) @ rest)] \<and>
    (\<forall>t p. proxied_type t \<and> t \<noteq> SSH2_MSG_CHANNEL_CLOSE \<and> sshbuf_wf p \<and>
       string_fits (0 # t # POKE_U32 did @ contents p) \<and> buf_room (coutput dc) (length (contents p) + 10) \<longrightarrow>
       (\<exists>sc'' dc'. channel_proxy_upstream A cb i t p sc' = Some (True, sc'') \<and> slot sc'' d = Some dc' \<and>
          contents (coutput dc') = contents (coutput dc) @ wire_string (0 # t # POKE_U32 did @ contents p)))"
proof -
  obtain i c sc' b where r: "channel_proxy_downstream A cb d sc = Some (True, sc')" "slot sc i = None" "slot sc' i = Some c"
      "ctyp c = SSH_CHANNEL_MUX_PROXY" "mux_ctx c = Some d" "mux_downstream_id c = did"
      "sent (net sc') = sent (net sc) @ [MsgRaw SSH2_MSG_CHANNEL_OPEN (wire_string ct @ POKE_U32 (of_nat i) @ rest)]"
      "slot sc' d = Some (dc\<lparr>cinput := b\<rparr>)"
    using proxy_downstream_open [OF assms, of cb] by blast
  have di: "d \<noteq> i" using r(2) assms(2) by auto
  have "\<exists>sc'' dc'. channel_proxy_upstream A cb i t p sc' = Some (True, sc'') \<and> slot sc'' d = Some dc' \<and>
      contents (coutput dc') = contents (coutput dc) @ wire_string (0 # t # POKE_U32 did @ contents p)"
    if "proxied_type t \<and> t \<noteq> SSH2_MSG_CHANNEL_CLOSE \<and> sshbuf_wf p \<and>
       string_fits (0 # t # POKE_U32 did @ contents p) \<and> buf_room (coutput dc) (length (contents p) + 10)" for t p
    using proxy_upstream_deliver [OF assms(1) r(3,4,5,8) di, of t p cb] that r(6) by auto
  then show ?thesis using r by blast
qed

theorem mux_id_round_trip_witness:
  "\<exists>i sc' sc'' dc'. channel_proxy_downstream ex_alloc ex_cb 0 ex_mux = Some (True, sc') \<and>
     sent (net sc') = [MsgRaw SSH2_MSG_CHANNEL_OPEN (wire_string [115] @ POKE_U32 (of_nat i) @ [1, 2])] \<and>
     channel_proxy_upstream ex_alloc ex_cb i SSH2_MSG_CHANNEL_DATA (ex_buf [7]) sc' = Some (True, sc'') \<and>
     slot sc'' 0 = Some dc' \<and> contents (coutput dc') = wire_string (0 # SSH2_MSG_CHANNEL_DATA # POKE_U32 9 @ [7])"
proof -
  have wf: "sshbuf_wf (cinput ex_mux_client)" "sshbuf_wf (ex_buf [7])" "sshbuf_wf (ex_buf [])"
    using ex_buf_wf [of ex_open] ex_buf_wf [of "[7]"] ex_buf_wf [of "[]"] by (simp_all add: ex_open_simps)
  have inp: "contents (cinput ex_mux_client) =
      wire_string (0 # SSH2_MSG_CHANNEL_OPEN # wire_string [115] @ POKE_U32 9 @ [1, 2]) @ []" by (simp add: ex_open_def)
  have st: "length (channels ex_mux) \<le> CHANNELS_MAX_CHANNELS" "pkt_ok (net ex_mux)" "sent (net ex_mux) = []"
    by (simp_all add: ex_mux_def channel_init_channels_def ex_ssh_def CHANNELS_MAX_CHANNELS_def)
  have msg: "proxied_type SSH2_MSG_CHANNEL_DATA \<and> SSH2_MSG_CHANNEL_DATA \<noteq> SSH2_MSG_CHANNEL_CLOSE \<and> sshbuf_wf (ex_buf [7]) \<and>
      string_fits (0 # SSH2_MSG_CHANNEL_DATA # POKE_U32 9 @ contents (ex_buf [7])) \<and>
      buf_room (coutput ex_mux_client) (length (contents (ex_buf [7])) + 10)"
    using wf by (simp add: proxied_type_def ssh2_msgs string_fits_def sshbuf_consts buf_room_def)
  have al: "\<forall>k. malloc_ok ex_alloc k" by simp
  obtain i sc' where r: "channel_proxy_downstream ex_alloc ex_cb 0 ex_mux = Some (True, sc')"
      "sent (net sc') = sent (net ex_mux) @ [MsgRaw SSH2_MSG_CHANNEL_OPEN (wire_string [115] @ POKE_U32 (of_nat i) @ [1, 2])]"
      "\<exists>sc'' dc'. channel_proxy_upstream ex_alloc ex_cb i SSH2_MSG_CHANNEL_DATA (ex_buf [7]) sc' = Some (True, sc'') \<and>
          slot sc'' 0 = Some dc' \<and> contents (coutput dc') = contents (coutput ex_mux_client) @
            wire_string (0 # SSH2_MSG_CHANNEL_DATA # POKE_U32 9 @ contents (ex_buf [7]))"
    using mux_id_round_trip [OF al ex_mux_slots(1) wf(1) inp ex_open_simps(4,2,3) st(1,2), of ex_cb] msg by blast
  then show ?thesis using st(3) unfolding ex_mux_slots(4) contents_ex_buf by auto
qed

text \<open>C4. No dangling client. While clients come and go through \<^verbatim>\<open>channel_new\<close>, \<^verbatim>\<open>channel_free\<close> and the proxying of
  messages in both directions, every proxied channel and every forwarding permission that names a client names a
  channel that is still allocated and still a multiplexing client, so a message of the server for a proxied channel is
  always delivered to a live client.\<close>

theorem mux_no_dangling:
  assumes "cleanup_cb cb" and "(mux_step cb A)\<^sup>*\<^sup>* (channel_init_channels w) sc" and "slot sc i = Some c"
    and "ctyp c = SSH_CHANNEL_MUX_PROXY" and "mux_ctx c = Some d"
  shows "(\<exists>dc. slot sc d = Some dc \<and> ctyp dc = SSH_CHANNEL_MUX_CLIENT) \<and>
    (\<forall>p \<in> set (permitted_user (local_perms sc)). \<forall>e. downstream p = Some e \<longrightarrow> slot sc e \<noteq> None) \<and>
    (\<forall>t p. proxied_type t \<and> t \<noteq> SSH2_MSG_CHANNEL_CLOSE \<longrightarrow>
       (\<exists>sc'. channel_proxy_upstream A cb i t p sc = Some (True, sc')))"
proof -
  note ok = mux_steps_refs [OF assms(1,2) init_refs]
  note d = mux_refsD(1) [OF ok assms(3-5)]
  then have "\<exists>dc. slot sc d = Some dc \<and> ctyp dc = SSH_CHANNEL_MUX_CLIENT"
    by (auto simp: mux_client_at_def split: option.splits)
  moreover have "slot sc e \<noteq> None" if "p \<in> set (permitted_user (local_perms sc))" "downstream p = Some e" for p e
    using mux_refsD(2) [OF ok that] by (auto simp: mux_client_at_def split: option.splits)
  ultimately show ?thesis using proxy_upstream_live [OF assms(3-5) d] by blast
qed

theorem mux_no_dangling_witness:
  "\<exists>i c sc. (mux_step ex_cb ex_alloc)\<^sup>*\<^sup>* (channel_init_channels ex_ssh) sc \<and> slot sc i = Some c \<and> mux_ctx c = Some 0 \<and>
     (\<exists>dc. slot sc 0 = Some dc \<and> ctyp dc = SSH_CHANNEL_MUX_CLIENT)"
proof -
  obtain i c sc where r: "channel_proxy_downstream ex_alloc ex_cb 0 ex_mux = Some (True, sc)" "slot sc i = Some c"
      "ctyp c = SSH_CHANNEL_MUX_PROXY" "mux_ctx c = Some 0"
    using ex_mux_open by blast
  have step: "(mux_step ex_cb ex_alloc)\<^sup>*\<^sup>* (channel_init_channels ex_ssh) sc"
    by (rule rtranclp.rtrancl_into_rtrancl [OF ex_mux_reach MuxDown [OF ex_mux_slots(5) r(1)]])
  show ?thesis using mux_no_dangling [OF ex_cb_ok step r(2-4)] step r(2,4) by blast
qed

text \<open>C30. Releasing a channel: \<^verbatim>\<open>channel_free\<close> empties exactly its own slot, every other channel stays allocated, and
  each of the channel's descriptors is closed exactly once, also when some of them are the same.\<close>

theorem channel_free_releases:
  assumes "cleanup_cb cb" and "channel_free cb i sc = Some sc'" and "slot sc i = Some c"
  shows "slot sc' i = None \<and> (\<forall>j. j \<noteq> i \<longrightarrow> (slot sc' j = None \<longleftrightarrow> slot sc j = None)) \<and>
    (\<exists>fds. fdlog (net sc') = fdlog (net sc) @ map CloseFd fds \<and> distinct fds \<and>
       set fds = {sock c, rfd c, wfd c, efd c} - {-1})"
proof -
  note free = channel_free_correct [OF assms]
  have "slot sc' j = None \<longleftrightarrow> slot sc j = None" if "j \<noteq> i" for j using free(2) [OF that] by simp
  then show ?thesis using free(1) channel_close_fds_log [of c "net sc"] by (simp add: free(5))
qed

definition ex_table :: "channel list \<Rightarrow> ssh_channels" where
  "ex_table cs = (channel_init_channels ex_ssh)\<lparr>channels := map Some cs\<rparr>"

lemmas ex_table_eval = ex_table_def slot_def put_slot_def update_slot_def channel_init_channels_def ex_chan_def ex_ssh_def

theorem channel_free_releases_witness:
  "\<exists>sc'. channel_free ex_cb 0 (ex_table [ex_chan []]) = Some sc' \<and> slot sc' 0 = None \<and>
     (\<exists>fds. fdlog (net sc') = map CloseFd fds \<and> distinct fds \<and> set fds = {5})"
proof -
  obtain sc' where run: "channel_free ex_cb 0 (ex_table [ex_chan []]) = Some sc'"
    by (simp add: channel_free_def channel_close_fds_def Let_def ex_table_eval split: prod.splits)
  have c: "slot (ex_table [ex_chan []]) 0 = Some (ex_chan [])" by (simp add: slot_def ex_table_def)
  have "{5, 5, 5, -1} - {-1} = {5 :: int}" by auto
  then show ?thesis using channel_free_releases [OF ex_cb_ok run c] run
    by (simp add: ex_table_def channel_init_channels_def ex_ssh_def) (simp add: ex_chan_def)
qed



end
