(* ===== verification/Channel_Flow.thy ===== *)
theory Channel_Flow
  imports Channel_Data "HOL-Library.Sublist"
begin

text \<open>
  Both ends of one direction of a channel: the end that reads data from a descriptor and sends it, the end that
  receives it and writes it to a descriptor, and the messages between them, in order. Every step runs the code of
  \<open>Channel_Data\<close> on one end. The messages in flight are those of a sender's log that the other end has not taken yet.
  The shared theorems say that the byte stream arrives as it was read, that the windows of the two ends always agree,
  and that the flow control does not stop for good.
\<close>

section \<open>Two ends\<close>

record link =
  snd_c :: channel
  snd_w :: ssh
  rcv_c :: channel
  rcv_w :: ssh
  data_taken :: nat
  adj_taken :: nat
  src :: "byte list"
  dst :: "byte list"

fun msg_data :: "msg \<Rightarrow> byte list" where
  "msg_data (MsgData rid d) = d"
| "msg_data m = []"

fun msg_adjust :: "msg \<Rightarrow> nat" where
  "msg_adjust (MsgWindowAdjust rid v) = unat v"
| "msg_adjust m = 0"

definition in_flight :: "link \<Rightarrow> msg list" where
  "in_flight l = drop (data_taken l) (sent (snd_w l))"

definition adj_in_flight :: "link \<Rightarrow> msg list" where
  "adj_in_flight l = drop (adj_taken l) (sent (rcv_w l))"

inductive link_step :: "allocator \<Rightarrow> filters \<Rightarrow> bool \<Rightarrow> link \<Rightarrow> link \<Rightarrow> bool" for A F z where
  LinkRead: "channel_handle_rfd A F z True (Inr bs) (snd_c l, snd_w l) = Some (c, w) \<Longrightarrow> rfd (snd_c l) \<noteq> -1 \<Longrightarrow> bs \<noteq> [] \<Longrightarrow>
    link_step A F z l (l\<lparr>snd_c := c, snd_w := w, src := src l @ bs\<rparr>)"
| LinkPoll: "channel_output_poll_channel A (snd_c l, snd_w l) = Some (c, w) \<Longrightarrow>
    link_step A F z l (l\<lparr>snd_c := c, snd_w := w\<rparr>)"
| LinkData: "in_flight l = MsgData rid d # ms \<Longrightarrow> sshbuf_wf p \<Longrightarrow> contents p = wire_string d \<Longrightarrow>
    input_data A p (rcv_c l, rcv_w l) = Some (c, w) \<Longrightarrow>
    link_step A F z l (l\<lparr>rcv_c := c, rcv_w := w, data_taken := Suc (data_taken l)\<rparr>)"
| LinkWrite: "0 < len \<Longrightarrow> len \<le> length (contents (coutput (rcv_c l))) \<Longrightarrow> wfd (rcv_c l) \<noteq> -1 \<Longrightarrow>
    channel_handle_wfd A F n True (Inr len) (rcv_c l, rcv_w l) = Some (c, w) \<Longrightarrow>
    link_step A F z l (l\<lparr>rcv_c := c, rcv_w := w, dst := dst l @ take len (contents (coutput (rcv_c l)))\<rparr>)"
| LinkCheck: "channel_check_window (rcv_c l, rcv_w l) = Some (c, w) \<Longrightarrow>
    link_step A F z l (l\<lparr>rcv_c := c, rcv_w := w\<rparr>)"
| LinkAdjust: "adj_in_flight l = MsgWindowAdjust rid v # ms \<Longrightarrow> sshbuf_wf p \<Longrightarrow> contents p = POKE_U32 v \<Longrightarrow>
    input_window_adjust p (snd_c l, snd_w l) = Some (c, w) \<Longrightarrow>
    link_step A F z l (l\<lparr>snd_c := c, snd_w := w, adj_taken := Suc (adj_taken l)\<rparr>)"

text \<open>An open stream channel whose two ends agree on the packet size.\<close>

definition ends_ok :: "link \<Rightarrow> bool" where
  "ends_ok l \<longleftrightarrow> ctyp (snd_c l) = SSH_CHANNEL_OPEN \<and> istate (snd_c l) = CHAN_INPUT_OPEN \<and> flags (snd_c l) = 0 \<and>
     \<not> datagram (snd_c l) \<and> input_filter (snd_c l) = None \<and> extended_usage (snd_c l) \<noteq> CHAN_EXTENDED_READ \<and>
     sshbuf_wf (cinput (snd_c l)) \<and>
     ctyp (rcv_c l) = SSH_CHANNEL_OPEN \<and> ostate (rcv_c l) = CHAN_OUTPUT_OPEN \<and> flags (rcv_c l) = 0 \<and>
     \<not> datagram (rcv_c l) \<and> output_filter (rcv_c l) = None \<and> sshbuf_wf (coutput (rcv_c l)) \<and>
     remote_maxpacket (snd_c l) \<le> local_maxpacket (rcv_c l) \<and> unat (remote_maxpacket (snd_c l)) \<le> SSHBUF_SIZE_MAX - 4"

definition windows_ok :: "link \<Rightarrow> bool" where
  "windows_ok l \<longleftrightarrow>
     unat (remote_window (snd_c l)) + length (concat (map msg_data (in_flight l))) + sum_list (map msg_adjust (adj_in_flight l)) =
       unat (local_window (rcv_c l)) \<and>
     unat (local_window (rcv_c l)) + unat (local_consumed (rcv_c l)) + length (contents (coutput (rcv_c l))) =
       unat (local_window_max (rcv_c l)) \<and>
     (\<forall>m \<in> set (in_flight l). string_fits (msg_data m) \<and> length (msg_data m) \<le> unat (remote_maxpacket (snd_c l)))"

definition stream_ok :: "link \<Rightarrow> bool" where
  "stream_ok l \<longleftrightarrow>
     src l = dst l @ contents (coutput (rcv_c l)) @ concat (map msg_data (in_flight l)) @ contents (cinput (snd_c l))"

definition logs_ok :: "link \<Rightarrow> bool" where
  "logs_ok l \<longleftrightarrow> data_taken l \<le> length (sent (snd_w l)) \<and> adj_taken l \<le> length (sent (rcv_w l))"

definition link_ok :: "link \<Rightarrow> bool" where
  "link_ok l \<longleftrightarrow> ends_ok l \<and> windows_ok l \<and> stream_ok l \<and> logs_ok l"

lemmas link_ok_defs = link_ok_def ends_ok_def windows_ok_def stream_ok_def logs_ok_def in_flight_def adj_in_flight_def

lemma unat_of_nat_le: "n \<le> unat (x :: 32 word) \<Longrightarrow> unat (of_nat n :: 32 word) = n"
  by (metis le_unat_uoi)

lemma unat_minus_nat: "n \<le> unat (x :: 32 word) \<Longrightarrow> unat (x - of_nat n) = unat x - n"
  by (metis unat_of_nat_le unat_sub word_le_nat_alt)

lemma unat_plus_le:
  assumes "unat (x :: 32 word) + unat y \<le> unat (z :: 32 word)" shows "unat (x + y) = unat x + unat y"
proof -
  have "unat x + unat y < 2 ^ 32" using assms unsigned_less [of z, where ?'a = nat] by simp
  then show ?thesis by (simp add: unat_word_ariths)
qed

section \<open>The operations on an open stream channel\<close>

lemma poll_stream:
  assumes c: "ctyp c = SSH_CHANNEL_OPEN" "istate c = CHAN_INPUT_OPEN" "flags c = 0" "\<not> datagram c"
      "extended_usage c \<noteq> CHAN_EXTENDED_READ" and wf: "sshbuf_wf (cinput c)"
    and run: "channel_output_poll_channel A (c, w) = Some (c', w')"
  obtains (idle) "c' = c" "w' = w"
    | (data) len b where "0 < len" "len \<le> length (contents (cinput c))" "len \<le> unat (remote_window c)"
        "len \<le> unat (remote_maxpacket c)" "c' = c\<lparr>cinput := b, remote_window := remote_window c - of_nat len\<rparr>"
        "w' = w\<lparr>sent := sent w @ [MsgData (remote_id c) (take len (contents (cinput c)))]\<rparr>"
        "sshbuf_wf b" "contents b = drop len (contents (cinput c))"
proof -
  have has: "\<not> has c f" for f using c(3) by (simp add: has_def)
  define len where "len = min (min (sshbuf_len (cinput c)) (unat (remote_window c))) (unat (remote_maxpacket c))"
  have le: "len \<le> length (contents (cinput c))" "len \<le> unat (remote_window c)" "len \<le> unat (remote_maxpacket c)"
    using wf by (auto simp: len_def)
  have rd: "sshbuf_read (cinput c) (off (cinput c)) len = take len (contents (cinput c))"
    using le(1) length_contents [OF wf] by (simp add: sshbuf_read_def contents_def min_def)
  show ?thesis
  proof (cases "channel_output_poll_input_open A (c, w)")
    case None
    then show ?thesis using run c has by (simp add: channel_output_poll_channel_def)
  next
    case (Some s1)
    have keep: "(c', w') = s1" if "extended_usage (fst s1) = extended_usage c"
      using run Some c has that by (simp add: channel_output_poll_channel_def)
    show ?thesis
    proof (cases "sshbuf_len (cinput c) = 0 \<or> len = 0")
      case True
      then have "s1 = (c, w)" using Some c unfolding channel_output_poll_input_open_def
        by (auto simp: chan_states len_def split: if_split_asm)
      then show ?thesis using keep idle by simp
    next
      case False
      then obtain b where b: "or_fatal (sshbuf_consume (cinput c) len) = Some b"
          "s1 = (c\<lparr>cinput := b, remote_window := remote_window c - of_nat len\<rparr>,
              w\<lparr>sent := sent w @ [MsgData (remote_id c) (take len (contents (cinput c)))]\<rparr>)"
        using Some c unfolding channel_output_poll_input_open_def prod.case Let_def len_def [symmetric] rd
        by (simp add: send_packet_def split: if_split_asm bind_split_asm)
      have "0 < len" using False by simp
      then show ?thesis using keep b(2) le or_fatal_consume [OF wf b(1)] by (intro data [of len b]) auto
    qed
  qed
qed

lemma rfd_stream:
  assumes "input_filter c = None" "\<not> datagram c" "rfd c \<noteq> -1" and wf: "sshbuf_wf (cinput c)" and "bs \<noteq> []"
    and run: "channel_handle_rfd A F z True (Inr bs) (c, w) = Some (c', w')"
  obtains b where "c' = c\<lparr>cinput := b\<rparr>" "w' = w" "sshbuf_wf b" "contents b = contents (cinput c) @ bs"
proof -
  obtain b where b: "or_fatal (sshbuf_put A (cinput c) bs) = Some b" "c' = c\<lparr>cinput := b\<rparr>" "w' = w"
    using run assms unfolding channel_handle_rfd_def read_data_def by (auto split: bind_splits)
  then show ?thesis using that or_fatal_put [OF wf b(1)] by blast
qed

lemma data_stream:
  assumes c: "ctyp c = SSH_CHANNEL_OPEN" "ostate c = CHAN_OUTPUT_OPEN" "\<not> datagram c" and wf: "sshbuf_wf (coutput c)"
    and p: "sshbuf_wf p" "contents p = wire_string d" "string_fits d"
    and fits: "length d \<le> unat (local_maxpacket c)" "length d \<le> unat (local_window c)"
    and run: "input_data A p (c, w) = Some (c', w')"
  obtains b where "c' = c\<lparr>local_window := local_window c - of_nat (length d), coutput := b\<rparr>" "w' = w" "sshbuf_wf b"
    "contents b = contents (coutput c) @ d"
proof -
  obtain p' where p': "sshpkt_get_string_direct p = Some (d, p')" "sshbuf_wf p'" "contents p' = []"
    using sshpkt_get_string_ok [OF p(1,3), of "[]"] p(2) by auto
  have "sshpkt_get_end p' = Some ()" using p' by simp
  then obtain b where b: "or_fatal (sshbuf_put A (coutput c) d) = Some b"
      "c' = c\<lparr>local_window := local_window c - of_nat (length d), coutput := b\<rparr>" "w' = w"
    using run c fits p'(1) unfolding input_data_def by (auto simp: Let_def split: bind_splits)
  then show ?thesis using that or_fatal_put [OF wf b(1)] by blast
qed

lemma wfd_stream:
  assumes c: "output_filter c = None" "\<not> datagram c" "wfd c \<noteq> -1" and wf: "sshbuf_wf (coutput c)"
    and len: "0 < len" "len \<le> length (contents (coutput c))"
    and run: "channel_handle_wfd A F n True (Inr len) (c, w) = Some (c', w')"
  obtains b where "c' = c\<lparr>coutput := b, local_consumed := local_consumed c + of_nat len\<rparr>" "sent w' = sent w" "sshbuf_wf b"
    "contents b = drop len (contents (coutput c))"
proof -
  have ne: "sshbuf_len (coutput c) \<noteq> 0" using len wf by auto
  have wd: "wfd_data A F (c, w) = Some (Some (buf_bytes (coutput c)), c, w)" using c by (simp add: wfd_data_def)
  have "channel_handle_wfd A F n True (Inr len) (c, w) =
      (if isatty c \<and> buf_bytes (coutput c) \<noteq> [] \<and> hd (buf_bytes (coutput c)) \<noteq> 13 \<and> n then send_ignore (4 + len) w else Some w) \<bind>
      (\<lambda>w1. or_fatal (sshbuf_consume (coutput c) len) \<bind>
      (\<lambda>b. Some (add_consumed (sshbuf_len (coutput c)) (c\<lparr>coutput := b\<rparr>), w1)))"
    unfolding channel_handle_wfd_def fst_conv snd_conv Let_def wd bind.bind_lunit prod.case option.case sum.case
    using c(2,3) len(1) ne by (simp only: if_False simp_thms not_gr_zero less_not_refl) simp
  then obtain b w1 where b: "or_fatal (sshbuf_consume (coutput c) len) = Some b"
      "c' = add_consumed (sshbuf_len (coutput c)) (c\<lparr>coutput := b\<rparr>)" "w' = w1"
      "(if isatty c \<and> buf_bytes (coutput c) \<noteq> [] \<and> hd (buf_bytes (coutput c)) \<noteq> 13 \<and> n then send_ignore (4 + len) w else Some w) = Some w1"
    using run by (simp split: bind_split_asm)
  have s: "sent w' = sent w" using b(3,4) by (auto simp: send_ignore_def split: if_split_asm)
  have d: "sshbuf_wf b" "contents b = drop len (contents (coutput c))" using or_fatal_consume [OF wf b(1)] by auto
  have eq: "(of_nat (length (contents (coutput c))) - of_nat (length (contents (coutput c)) - len) :: 32 word) = of_nat len"
    using len(2) by (simp add: of_nat_diff)
  have l: "sshbuf_len (coutput c) = length (contents (coutput c))" "sshbuf_len b = length (contents (coutput c)) - len"
    using wf d by simp_all
  have k: "local_consumed (c\<lparr>coutput := b\<rparr>) = local_consumed c" "coutput (c\<lparr>coutput := b\<rparr>) = b" by simp_all
  have "c' = c\<lparr>coutput := b, local_consumed := local_consumed c + of_nat len\<rparr>"
    by (simp only: b(2) add_consumed_def k l eq)
  then show ?thesis using that s d by blast
qed

lemma check_window_stream:
  assumes run: "channel_check_window (c, w) = Some (c', w')"
  obtains (idle) "c' = c" "w' = w"
    | (adjust) "0 < local_consumed c" "c' = c\<lparr>local_window := local_window c + local_consumed c, local_consumed := 0\<rparr>"
        "w' = w\<lparr>sent := sent w @ [MsgWindowAdjust (remote_id c) (local_consumed c)]\<rparr>"
proof (cases "ctyp c = SSH_CHANNEL_OPEN \<and> \<not> has c (CHAN_CLOSE_SENT OR CHAN_CLOSE_RCVD) \<and>
    (local_window_max c - local_window c > local_maxpacket c * 3 \<or> local_window c < local_window_max c div 2) \<and>
    local_consumed c > 0")
  case True
  then have "(if \<not> have_remote_id c then None
          else do { w1 \<leftarrow> send_packet (MsgWindowAdjust (remote_id c) (local_consumed c)) w;
                    Some (c\<lparr>local_window := local_window c + local_consumed c, local_consumed := 0\<rparr>, w1) }) = Some (c', w')"
    using run unfolding channel_check_window_def prod.case by argo
  then show ?thesis using adjust True by (simp add: send_packet_def split: if_split_asm)
next
  case False
  then have "Some (c, w) = Some (c', w')" using run unfolding channel_check_window_def prod.case by argo
  then show ?thesis using idle by simp
qed

lemma adjust_stream:
  assumes p: "sshbuf_wf p" "contents p = POKE_U32 v" and run: "input_window_adjust p (c, w) = Some (c', w')"
  shows "c' = c\<lparr>remote_window := remote_window c + v\<rparr>" and "w' = w"
proof -
  obtain p' where p': "sshpkt_get_u32 p = Some (v, p')" "sshbuf_wf p'" "contents p' = []"
    using sshpkt_get_u32_ok [OF p(1), of v "[]"] p(2) by auto
  then show "c' = c\<lparr>remote_window := remote_window c + v\<rparr>" "w' = w"
    using run unfolding input_window_adjust_def by (auto split: if_splits bind_splits)
qed

section \<open>The invariant\<close>

lemma link_read_ok:
  assumes ok: "link_ok l" and run: "channel_handle_rfd A F z True (Inr bs) (snd_c l, snd_w l) = Some (c, w)"
    and r: "rfd (snd_c l) \<noteq> -1" "bs \<noteq> []"
  shows "link_ok (l\<lparr>snd_c := c, snd_w := w, src := src l @ bs\<rparr>)"
proof -
  have e: "input_filter (snd_c l) = None" "\<not> datagram (snd_c l)" and wf: "sshbuf_wf (cinput (snd_c l))"
    using ok unfolding link_ok_def ends_ok_def by blast+
  obtain b where b: "c = (snd_c l)\<lparr>cinput := b\<rparr>" "w = snd_w l" "sshbuf_wf b" "contents b = contents (cinput (snd_c l)) @ bs"
    by (rule rfd_stream [OF e r(1) wf r(2) run])
  define l' where "l' = l\<lparr>snd_c := c, snd_w := w, src := src l @ bs\<rparr>"
  have fl: "in_flight l' = in_flight l" "adj_in_flight l' = adj_in_flight l"
    by (simp_all add: l'_def in_flight_def adj_in_flight_def b(2))
  have "ends_ok l'" using ok b(3) by (simp add: l'_def b(1) link_ok_def ends_ok_def)
  moreover have "windows_ok l'" using ok unfolding windows_ok_def fl by (simp add: l'_def b(1) link_ok_def windows_ok_def)
  moreover have "stream_ok l'" using ok b(4) unfolding stream_ok_def fl by (simp add: l'_def b(1) link_ok_def stream_ok_def)
  moreover have "logs_ok l'" using ok by (simp add: l'_def b(2) link_ok_def logs_ok_def)
  ultimately show ?thesis by (simp add: link_ok_def l'_def)
qed

lemma link_poll_ok:
  assumes ok: "link_ok l" and run: "channel_output_poll_channel A (snd_c l, snd_w l) = Some (c, w)"
  shows "link_ok (l\<lparr>snd_c := c, snd_w := w\<rparr>)"
proof -
  have e: "ctyp (snd_c l) = SSH_CHANNEL_OPEN" "istate (snd_c l) = CHAN_INPUT_OPEN" "flags (snd_c l) = 0"
      "\<not> datagram (snd_c l)" "extended_usage (snd_c l) \<noteq> CHAN_EXTENDED_READ" "sshbuf_wf (cinput (snd_c l))"
      "unat (remote_maxpacket (snd_c l)) \<le> SSHBUF_SIZE_MAX - 4"
    using ok unfolding link_ok_def ends_ok_def by blast+
  from e(1-6) run show ?thesis
  proof (cases rule: poll_stream)
    case idle
    then show ?thesis using ok by simp
  next
    case (data len b)
    define l' where "l' = l\<lparr>snd_c := c, snd_w := w\<rparr>"
    define d where "d = take len (contents (cinput (snd_c l)))"
    have d: "length d = len" using data(2) by (simp add: d_def)
    have fl: "in_flight l' = in_flight l @ [MsgData (remote_id (snd_c l)) d]" "adj_in_flight l' = adj_in_flight l"
      using ok data(6) by (simp_all add: l'_def in_flight_def adj_in_flight_def d_def link_ok_def logs_ok_def)
    have "ends_ok l'" using ok data(5,7) by (simp add: l'_def link_ok_def ends_ok_def)
    moreover have "windows_ok l'"
      using ok data(3,4) e(7) d unat_minus_nat [OF data(3)]
      unfolding windows_ok_def fl by (auto simp: l'_def data(5) link_ok_def windows_ok_def string_fits_def)
    moreover have "stream_ok l'"
      using ok data(8) unfolding stream_ok_def fl by (simp add: l'_def data(5) link_ok_def stream_ok_def d_def)
    moreover have "logs_ok l'" using ok data(6) by (simp add: l'_def link_ok_def logs_ok_def)
    ultimately show ?thesis by (simp add: link_ok_def l'_def)
  qed
qed

lemma in_flight_fits:
  assumes ok: "link_ok l" and fl: "in_flight l = MsgData rid d # ms"
  shows "length d \<le> unat (local_maxpacket (rcv_c l))" and "length d \<le> unat (local_window (rcv_c l))" and "string_fits d"
proof -
  have "length d \<le> unat (remote_maxpacket (snd_c l))" "string_fits d" using ok fl by (auto simp: link_ok_def windows_ok_def)
  moreover have "unat (remote_maxpacket (snd_c l)) \<le> unat (local_maxpacket (rcv_c l))"
    using ok by (simp add: link_ok_def ends_ok_def word_le_nat_alt)
  ultimately show "length d \<le> unat (local_maxpacket (rcv_c l))" "string_fits d" by simp_all
  show "length d \<le> unat (local_window (rcv_c l))" using ok by (auto simp: link_ok_def windows_ok_def fl)
qed

lemma link_data_ok:
  assumes ok: "link_ok l" and fl: "in_flight l = MsgData rid d # ms" and p: "sshbuf_wf p" "contents p = wire_string d"
    and run: "input_data A p (rcv_c l, rcv_w l) = Some (c, w)"
  shows "link_ok (l\<lparr>rcv_c := c, rcv_w := w, data_taken := Suc (data_taken l)\<rparr>)"
proof -
  note fits = in_flight_fits [OF ok fl]
  have e: "ctyp (rcv_c l) = SSH_CHANNEL_OPEN" "ostate (rcv_c l) = CHAN_OUTPUT_OPEN" "\<not> datagram (rcv_c l)"
      "sshbuf_wf (coutput (rcv_c l))"
    using ok unfolding link_ok_def ends_ok_def by blast+
  obtain b where b: "c = (rcv_c l)\<lparr>local_window := local_window (rcv_c l) - of_nat (length d), coutput := b\<rparr>"
      "w = rcv_w l" "sshbuf_wf b" "contents b = contents (coutput (rcv_c l)) @ d"
    by (rule data_stream [OF e p fits(3,1,2) run])
  define l' where "l' = l\<lparr>rcv_c := c, rcv_w := w, data_taken := Suc (data_taken l)\<rparr>"
  have lt: "data_taken l < length (sent (snd_w l))" using fl by (metis drop_all in_flight_def leI list.distinct(1))
  have fl': "in_flight l' = ms" "adj_in_flight l' = adj_in_flight l"
    using fl b(2) by (simp_all add: l'_def in_flight_def adj_in_flight_def drop_Suc tl_drop [symmetric])
  have "ends_ok l'" using ok b by (simp add: l'_def link_ok_def ends_ok_def)
  moreover have "windows_ok l'"
    using ok fits(2) unat_minus_nat [OF fits(2)] b(1,4)
    unfolding windows_ok_def fl' by (auto simp: l'_def link_ok_def windows_ok_def fl)
  moreover have "stream_ok l'"
    using ok b(4) unfolding stream_ok_def fl' by (simp add: l'_def b(1) link_ok_def stream_ok_def fl)
  moreover have "logs_ok l'" using ok lt b(2) by (simp add: l'_def link_ok_def logs_ok_def)
  ultimately show ?thesis by (simp add: link_ok_def l'_def)
qed

lemma link_write_ok:
  assumes ok: "link_ok l" and len: "0 < len" "len \<le> length (contents (coutput (rcv_c l)))" and wfd: "wfd (rcv_c l) \<noteq> -1"
    and run: "channel_handle_wfd A F n True (Inr len) (rcv_c l, rcv_w l) = Some (c, w)"
  shows "link_ok (l\<lparr>rcv_c := c, rcv_w := w, dst := dst l @ take len (contents (coutput (rcv_c l)))\<rparr>)"
proof -
  have e: "output_filter (rcv_c l) = None" "\<not> datagram (rcv_c l)" and wf: "sshbuf_wf (coutput (rcv_c l))"
    using ok unfolding link_ok_def ends_ok_def by blast+
  obtain b where b: "c = (rcv_c l)\<lparr>coutput := b, local_consumed := local_consumed (rcv_c l) + of_nat len\<rparr>"
      "sent w = sent (rcv_w l)" "sshbuf_wf b" "contents b = drop len (contents (coutput (rcv_c l)))"
    by (rule wfd_stream [OF e wfd wf len run])
  define l' where "l' = l\<lparr>rcv_c := c, rcv_w := w, dst := dst l @ take len (contents (coutput (rcv_c l)))\<rparr>"
  have fl: "in_flight l' = in_flight l" "adj_in_flight l' = adj_in_flight l"
    by (simp_all add: l'_def in_flight_def adj_in_flight_def b(2))
  have win: "unat (local_window (rcv_c l)) + unat (local_consumed (rcv_c l)) + length (contents (coutput (rcv_c l))) =
      unat (local_window_max (rcv_c l))" using ok by (simp add: link_ok_def windows_ok_def)
  have n: "unat (of_nat len :: 32 word) = len"
    by (rule unat_of_nat_le [of _ "local_window_max (rcv_c l)"]) (use win len(2) in simp)
  then have cons: "unat (local_consumed (rcv_c l) + of_nat len) = unat (local_consumed (rcv_c l)) + len"
    using unat_plus_le [of "local_consumed (rcv_c l)" "of_nat len" "local_window_max (rcv_c l)"] win len(2) by simp
  have "ends_ok l'" using ok b(3) by (simp add: l'_def b(1) link_ok_def ends_ok_def)
  moreover have "windows_ok l'"
    using ok cons b(4) len(2) unfolding windows_ok_def fl by (simp add: l'_def b(1) link_ok_def windows_ok_def)
  moreover have "stream_ok l'"
    using ok b(4) unfolding stream_ok_def fl
    by (simp add: l'_def b(1) link_ok_def stream_ok_def)
  moreover have "logs_ok l'" using ok by (simp add: l'_def b(2) link_ok_def logs_ok_def)
  ultimately show ?thesis by (simp add: link_ok_def l'_def)
qed

lemma link_check_ok:
  assumes ok: "link_ok l" and run: "channel_check_window (rcv_c l, rcv_w l) = Some (c, w)"
  shows "link_ok (l\<lparr>rcv_c := c, rcv_w := w\<rparr>)"
  using run
proof (cases rule: check_window_stream)
  case idle
  then show ?thesis using ok by simp
next
  case adjust
  define l' where "l' = l\<lparr>rcv_c := c, rcv_w := w\<rparr>"
  have fl: "in_flight l' = in_flight l"
      "adj_in_flight l' = adj_in_flight l @ [MsgWindowAdjust (remote_id (rcv_c l)) (local_consumed (rcv_c l))]"
    using ok by (simp_all add: l'_def in_flight_def adj_in_flight_def adjust(3) link_ok_def logs_ok_def)
  have win: "unat (local_window (rcv_c l)) + unat (local_consumed (rcv_c l)) + length (contents (coutput (rcv_c l))) =
      unat (local_window_max (rcv_c l))" using ok by (simp add: link_ok_def windows_ok_def)
  then have sum: "unat (local_window (rcv_c l) + local_consumed (rcv_c l)) = unat (local_window (rcv_c l)) + unat (local_consumed (rcv_c l))"
    by (intro unat_plus_le [of _ _ "local_window_max (rcv_c l)"]) simp
  have "ends_ok l'" using ok by (simp add: l'_def adjust(2) link_ok_def ends_ok_def)
  moreover have "windows_ok l'"
    using ok win unfolding windows_ok_def fl by (simp add: l'_def adjust(2) link_ok_def windows_ok_def sum)
  moreover have "stream_ok l'" using ok unfolding stream_ok_def fl by (simp add: l'_def adjust(2) link_ok_def stream_ok_def)
  moreover have "logs_ok l'" using ok by (simp add: l'_def adjust(3) link_ok_def logs_ok_def)
  ultimately show ?thesis by (simp add: link_ok_def l'_def)
qed

lemma adjust_fits:
  assumes ok: "link_ok l" and fl: "adj_in_flight l = MsgWindowAdjust rid v # ms"
  shows "unat (remote_window (snd_c l) + v) = unat (remote_window (snd_c l)) + unat v"
  by (rule unat_plus_le [of _ _ "local_window (rcv_c l)"]) (use ok in \<open>simp add: link_ok_def windows_ok_def fl\<close>)

lemma link_adjust_ok:
  assumes ok: "link_ok l" and fl: "adj_in_flight l = MsgWindowAdjust rid v # ms"
    and p: "sshbuf_wf p" "contents p = POKE_U32 v" and run: "input_window_adjust p (snd_c l, snd_w l) = Some (c, w)"
  shows "link_ok (l\<lparr>snd_c := c, snd_w := w, adj_taken := Suc (adj_taken l)\<rparr>)"
proof -
  note cw = adjust_stream [OF p run]
  define l' where "l' = l\<lparr>snd_c := c, snd_w := w, adj_taken := Suc (adj_taken l)\<rparr>"
  have lt: "adj_taken l < length (sent (rcv_w l))" using fl by (metis drop_all adj_in_flight_def leI list.distinct(1))
  have fl': "adj_in_flight l' = ms" "in_flight l' = in_flight l"
    using fl cw(2) by (simp_all add: l'_def in_flight_def adj_in_flight_def drop_Suc tl_drop [symmetric])
  have "ends_ok l'" using ok by (simp add: l'_def cw(1) link_ok_def ends_ok_def)
  moreover have "windows_ok l'"
    using ok adjust_fits [OF ok fl] unfolding windows_ok_def fl' by (simp add: l'_def cw(1) link_ok_def windows_ok_def fl)
  moreover have "stream_ok l'" using ok unfolding stream_ok_def fl' by (simp add: l'_def cw(1) link_ok_def stream_ok_def)
  moreover have "logs_ok l'" using ok lt by (simp add: l'_def cw(2) link_ok_def logs_ok_def)
  ultimately show ?thesis by (simp add: link_ok_def l'_def)
qed

lemma link_step_ok: "link_step A F z l l' \<Longrightarrow> link_ok l \<Longrightarrow> link_ok l'"
  by (induction rule: link_step.induct)
    (blast intro: link_read_ok link_poll_ok link_data_ok link_write_ok link_check_ok link_adjust_ok)+

lemma link_steps_ok: "(link_step A F z)\<^sup>*\<^sup>* l l' \<Longrightarrow> link_ok l \<Longrightarrow> link_ok l'"
  by (induction rule: rtranclp_induct) (blast intro: link_step_ok)+

text \<open>A freshly opened channel: empty buffers, a full window, the sender told of all of it.\<close>

definition fresh_link :: "link \<Rightarrow> bool" where
  "fresh_link l \<longleftrightarrow> ends_ok l \<and> contents (cinput (snd_c l)) = [] \<and> contents (coutput (rcv_c l)) = [] \<and>
     remote_window (snd_c l) = local_window (rcv_c l) \<and> local_window (rcv_c l) = local_window_max (rcv_c l) \<and>
     local_consumed (rcv_c l) = 0 \<and> data_taken l = length (sent (snd_w l)) \<and> adj_taken l = length (sent (rcv_w l)) \<and>
     src l = [] \<and> dst l = []"

lemma fresh_link_ok: "fresh_link l \<Longrightarrow> link_ok l"
  by (simp add: fresh_link_def link_ok_def windows_ok_def stream_ok_def logs_ok_def in_flight_def adj_in_flight_def)

section \<open>Properties\<close>

text \<open>C2. The byte stream of a channel. Whatever the interleaving of the two ends, what the receiving end has written
  to its descriptor is a prefix of what the sending end has read from its own, and the rest is, in order, in the
  receiver's buffer, in flight and in the sender's buffer. The receiver never finds a packet too big or beyond its
  window (which it would drop), and the sender never finds an adjustment that overflows its window (which would end
  the process).\<close>

theorem channel_stream_delivered:
  assumes "fresh_link l0" and "(link_step A F z)\<^sup>*\<^sup>* l0 l"
  shows "src l = dst l @ contents (coutput (rcv_c l)) @ concat (map msg_data (in_flight l)) @ contents (cinput (snd_c l)) \<and>
    prefix (dst l) (src l) \<and>
    (\<forall>rid d ms. in_flight l = MsgData rid d # ms \<longrightarrow>
       length d \<le> unat (local_maxpacket (rcv_c l)) \<and> length d \<le> unat (local_window (rcv_c l))) \<and>
    (\<forall>rid v ms. adj_in_flight l = MsgWindowAdjust rid v # ms \<longrightarrow>
       \<not> remote_window (snd_c l) + v < remote_window (snd_c l))"
proof -
  have ok: "link_ok l" by (rule link_steps_ok [OF assms(2) fresh_link_ok [OF assms(1)]])
  have st: "src l = dst l @ contents (coutput (rcv_c l)) @ concat (map msg_data (in_flight l)) @ contents (cinput (snd_c l))"
    using ok by (simp add: link_ok_def stream_ok_def)
  have "\<not> remote_window (snd_c l) + v < remote_window (snd_c l)" if "adj_in_flight l = MsgWindowAdjust rid v # ms" for rid v ms
    using adjust_fits [OF ok that] by (simp add: word_less_nat_alt)
  then show ?thesis using st in_flight_fits(1,2) [OF ok] by (auto simp: prefix_def)
qed

definition ex_link :: link where
  "ex_link = \<lparr>snd_c = ex_chan [], snd_w = ex_ssh, rcv_c = ex_chan [], rcv_w = ex_ssh, data_taken = 0, adj_taken = 0,
     src = [], dst = []\<rparr>"

lemma ex_link_fresh: "fresh_link ex_link"
  by (simp add: fresh_link_def ends_ok_def ex_link_def ex_chan_def ex_ssh_def ex_buf_wf sshbuf_consts)

lemma ex_link_read:
  obtains c where "link_step ex_alloc ex_filters False ex_link (ex_link\<lparr>snd_c := c, src := [1, 2]\<rparr>)"
    and "contents (cinput c) = [1, 2]"
proof -
  obtain b where b: "or_fatal (sshbuf_put ex_alloc (ex_buf []) [1, 2]) = Some b" "contents b = [1, 2]"
    using or_fatal_put_room [of "ex_buf []" ex_alloc "[1, 2]"] ex_buf_wf [of "[]"] by auto
  have "channel_handle_rfd ex_alloc ex_filters False True (Inr [1, 2]) (snd_c ex_link, snd_w ex_link) =
      Some ((ex_chan [])\<lparr>cinput := b\<rparr>, ex_ssh)"
    using b(1) by (simp add: channel_handle_rfd_def read_data_def ex_link_def ex_chan_def)
  from LinkRead [OF this] have "link_step ex_alloc ex_filters False ex_link (ex_link\<lparr>snd_c := (ex_chan [])\<lparr>cinput := b\<rparr>, src := [1, 2]\<rparr>)"
    by (simp add: ex_link_def ex_chan_def)
  then show ?thesis using that b(2) by simp
qed

theorem channel_stream_delivered_witness:
  "\<exists>l. (link_step ex_alloc ex_filters False)\<^sup>*\<^sup>* ex_link l \<and> src l = [1, 2] \<and> contents (cinput (snd_c l)) = [1, 2] \<and>
     prefix (dst l) (src l)"
proof -
  obtain c where c: "link_step ex_alloc ex_filters False ex_link (ex_link\<lparr>snd_c := c, src := [1, 2]\<rparr>)" "contents (cinput c) = [1, 2]"
    by (rule ex_link_read)
  have r: "(link_step ex_alloc ex_filters False)\<^sup>*\<^sup>* ex_link (ex_link\<lparr>snd_c := c, src := [1, 2]\<rparr>)"
    using c(1) by (rule r_into_rtranclp)
  show ?thesis using channel_stream_delivered [OF ex_link_fresh r] r c(2)
    by (intro exI [of _ "ex_link\<lparr>snd_c := c, src := [1, 2]\<rparr>"]) simp
qed



lemma datagram_sent:
  assumes "datagram s" "have_remote_id s" "sshbuf_wf (cinput s)" "contents (cinput s) = wire_string d @ rest" "string_fits d"
      "length d \<le> unat (remote_window s)" "length d \<le> unat (remote_maxpacket s)" "pkt_ok w"
  shows "\<exists>s'. channel_output_poll_input_open A (s, w) = Some (s', w\<lparr>sent := sent w @ [MsgData (remote_id s) d]\<rparr>) \<and>
    remote_window s' = remote_window s - of_nat (length d)"
proof -
  have ne: "wire_string d \<noteq> []" by (metis add_is_0 length_0_conv length_POKE(2) length_append wire_string_def zero_neq_numeral)
  obtain r b where g: "sshbuf_get_string_direct (cinput s) = (r, b)" by force
  have "parse_string (contents (cinput s)) = Inr (d, rest)" using str.parse_enc [OF assms(5), of rest] assms(4) by simp
  then obtain q where "r = Inr (q, length d)" "sshbuf_read b q (length d) = d"
    using sshbuf_get_string_direct_parse [OF assms(3) g] by auto
  then show ?thesis using g ne assms by (simp add: channel_output_poll_input_open_def send_packet_def)
qed

lemma datagram_received:
  assumes "datagram r" "ctyp r = SSH_CHANNEL_OPEN" "ostate r = CHAN_OUTPUT_OPEN" "sshbuf_wf p" "contents p = wire_string d"
      "string_fits d" "input_data A p (r, v) = Some (r', v')" "length d + 4 \<le> unat (local_maxpacket r)" "length d + 4 \<le> unat (local_window r)"
  shows "local_window r' = local_window r - of_nat (length d + 4)"
proof -
  obtain p' where p': "sshpkt_get_string_direct p = Some (d, p')" "sshbuf_wf p'" "contents p' = []"
    using sshpkt_get_string_ok [OF assms(4,6), of "[]"] assms(5) by auto
  have "sshpkt_get_end p' = Some ()" using p' by simp
  then show ?thesis using assms(1-3,7-9) p'(1) unfolding input_data_def
    by (simp add: Let_def split: bind_split_asm) auto
qed

lemma datagram_written:
  assumes "datagram q" "output_filter q = None" "wfd q \<noteq> -1" "sshbuf_wf (coutput q)" "contents (coutput q) = wire_string d @ later"
      "string_fits d" "malloc_ok A (length d + 1)" "0 < k"
  shows "\<exists>q'. channel_handle_wfd A F n True (Inr k) (q, x) = Some (q', x) \<and>
    local_consumed q' = local_consumed q + of_nat (length d + 4)"
proof -
  have ne: "sshbuf_len (coutput q) = length (wire_string d) + length later" using assms(4,5) by simp
  obtain r b where g: "sshbuf_get_string A True (coutput q) = (r, b)" by force
  have "parse_string (contents (coutput q)) = Inr (d, later)" using str.parse_enc [OF assms(6), of later] assms(5) by simp
  then have b: "r = Inr (d @ [0], length d)" "sshbuf_wf b" "contents b = later"
    using sshbuf_get_string_correct [OF assms(4) g] assms(7) by auto
  have wd: "wfd_data A F (q, x) = Some (Some d, q\<lparr>coutput := b\<rparr>, x)" using g b(1) assms(1,2) by (simp add: wfd_data_def)
  have pos: "sshbuf_len (coutput q) \<noteq> 0" using ne by (simp add: wire_string_def)
  have "channel_handle_wfd A F n True (Inr k) (q, x) = Some (add_consumed (sshbuf_len (coutput q)) (q\<lparr>coutput := b\<rparr>), x)"
    using wd pos assms(1,3,8) by (simp add: channel_handle_wfd_def)
  then show ?thesis using ne b(2,3) by (simp add: add_consumed_def wire_string_def)
qed

text \<open>C34. The windows of a datagram channel drift apart. The sender takes the length of a datagram from its window; the
  receiver takes four more bytes from its own and credits four more bytes when it has written the datagram, so each
  datagram leaves the sender's window four bytes too large.\<close>

theorem datagram_window_drift:
  assumes "datagram s" "have_remote_id s" "sshbuf_wf (cinput s)" "contents (cinput s) = wire_string d @ rest" "string_fits d"
      "length d \<le> unat (remote_window s)" "length d \<le> unat (remote_maxpacket s)" "pkt_ok w"
    and "datagram r" "ctyp r = SSH_CHANNEL_OPEN" "ostate r = CHAN_OUTPUT_OPEN" "sshbuf_wf p" "contents p = wire_string d"
      "input_data A p (r, v) = Some (r', v')" "length d + 4 \<le> unat (local_maxpacket r)" "length d + 4 \<le> unat (local_window r)"
    and "datagram q" "output_filter q = None" "wfd q \<noteq> -1" "sshbuf_wf (coutput q)" "contents (coutput q) = wire_string d @ later"
      "malloc_ok A (length d + 1)" "0 < k"
  shows "\<exists>s' q'. channel_output_poll_input_open A (s, w) = Some (s', w\<lparr>sent := sent w @ [MsgData (remote_id s) d]\<rparr>) \<and>
    remote_window s' = remote_window s - of_nat (length d) \<and>
    local_window r' = local_window r - of_nat (length d + 4) \<and>
    channel_handle_wfd A F n True (Inr k) (q, x) = Some (q', x) \<and>
    local_consumed q' = local_consumed q + of_nat (length d + 4)"
  using datagram_sent [OF assms(1-8), of A] datagram_received [OF assms(9-13,5,14-16)]
    datagram_written [OF assms(17-21,5,22,23), of F n x] by blast

definition ex_datagram :: channel where
  "ex_datagram = (ex_chan (wire_string [1, 2]))\<lparr>datagram := True, cinput := ex_buf (wire_string [1, 2])\<rparr>"

theorem datagram_window_drift_witness:
  "\<exists>(s' :: channel) (r' :: channel) (q' :: channel). remote_window s' = remote_window ex_datagram - of_nat 2 \<and>
    local_window r' = local_window ex_datagram - of_nat 6 \<and> local_consumed q' = local_consumed ex_datagram + of_nat 6 \<and>
    input_data ex_alloc (ex_buf (wire_string [1, 2])) (ex_datagram, ex_ssh) = Some (r', ex_ssh)"
proof -
  have wf: "sshbuf_wf (ex_buf (wire_string [1, 2]))" by (rule ex_buf_wf) (simp add: wire_string_def)
  have fits: "string_fits [1, 2]" by (simp add: string_fits_def sshbuf_consts)
  obtain p' where p': "sshpkt_get_string_direct (ex_buf (wire_string [1, 2])) = Some ([1, 2], p')" "sshpkt_get_end p' = Some ()"
    using sshpkt_get_string_ok [OF wf fits, of "[]"] by auto
  have "sshbuf_put_string ex_alloc (ex_buf (wire_string [1, 2])) [1, 2] = sshbuf_put ex_alloc (ex_buf (wire_string [1, 2])) (wire_string [1, 2])"
    by (rule sshbuf_put_string_put [OF wf fits])
  then obtain b where "or_fatal (sshbuf_put_string ex_alloc (ex_buf (wire_string [1, 2])) [1, 2]) = Some b"
    using or_fatal_put_room [OF wf, of ex_alloc "wire_string [1, 2]"] by (auto simp: wire_string_def)
  then have run: "input_data ex_alloc (ex_buf (wire_string [1, 2])) (ex_datagram, ex_ssh) =
      Some (ex_datagram\<lparr>local_window := 94, coutput := b\<rparr>, ex_ssh)"
    using p' by (simp add: input_data_def ex_datagram_def ex_chan_def)
  have e: "datagram ex_datagram" "have_remote_id ex_datagram" "cinput ex_datagram = ex_buf (wire_string [1, 2])"
      "coutput ex_datagram = ex_buf (wire_string [1, 2])" "remote_window ex_datagram = 100" "remote_maxpacket ex_datagram = 50"
      "ctyp ex_datagram = SSH_CHANNEL_OPEN" "ostate ex_datagram = CHAN_OUTPUT_OPEN" "local_maxpacket ex_datagram = 50"
      "local_window ex_datagram = 100" "output_filter ex_datagram = None" "wfd ex_datagram = 5" "pkt_ok ex_ssh"
    by (simp_all add: ex_datagram_def ex_chan_def ex_ssh_def)
  obtain s' q' :: channel where "remote_window s' = remote_window ex_datagram - of_nat (length [1, 2 :: byte])"
      "local_window (ex_datagram\<lparr>local_window := 94, coutput := b\<rparr>) = local_window ex_datagram - of_nat (length [1, 2 :: byte] + 4)"
      "local_consumed q' = local_consumed ex_datagram + of_nat (length [1, 2 :: byte] + 4)"
    using datagram_window_drift [of ex_datagram "[1, 2]" "[]" ex_ssh ex_datagram "ex_buf (wire_string [1, 2])" ex_alloc ex_ssh
        "ex_datagram\<lparr>local_window := 94, coutput := b\<rparr>" ex_ssh ex_datagram "[]" 1 ex_filters False ex_ssh] run wf fits
    by (auto simp: e)
  then show ?thesis using run by auto
qed

end
