(* ===== verification/Fwd_Perm.thy ===== *)
theory Fwd_Perm
  imports Channels Match
begin

text \<open>
  Who may forward what: the permission lists of \<^verbatim>\<open>channels.c\<close>, the checks of requested forwardings against them, and
  the requests and cancellations that change them.
\<close>

section \<open>Requests\<close>

record Forward =
  fwd_listen_host :: "string option"
  fwd_listen_port :: int
  fwd_listen_path :: "string option"
  connect_host :: "string option"
  connect_port :: int
  connect_path :: "string option"
  allocated_port :: int

text \<open>A port handed to a parameter of type \<^verbatim>\<open>u_short\<close>.\<close>

definition u_short :: "int \<Rightarrow> int" where "u_short n = n mod 65536"

lemma u_short_range [simp]: "0 \<le> u_short n" "u_short n < 65536" "u_short (u_short n) = u_short n"
  by (simp_all add: u_short_def)

definition FWD_PERMIT_ANY_PORT :: int where "FWD_PERMIT_ANY_PORT = 0"
definition FWD_PERMIT_ANY_HOST :: string where "FWD_PERMIT_ANY_HOST = ''*''"
definition PORT_STREAMLOCAL :: int where "PORT_STREAMLOCAL = -2"

definition forward_equals :: "Forward \<Rightarrow> Forward \<Rightarrow> bool" where
  "forward_equals a b \<longleftrightarrow> fwd_listen_host a = fwd_listen_host b \<and> fwd_listen_port a = fwd_listen_port b \<and>
     fwd_listen_path a = fwd_listen_path b \<and> connect_host a = connect_host b \<and> connect_port a = connect_port b \<and>
     connect_path a = connect_path b"

section \<open>Matching a request against a permission\<close>

definition open_match :: "permission \<Rightarrow> string \<Rightarrow> int \<Rightarrow> bool" where
  "open_match p requestedhost requestedport = (case host_to_connect p of None \<Rightarrow> False
     | Some h \<Rightarrow>
         if port_to_connect p \<noteq> FWD_PERMIT_ANY_PORT \<and> port_to_connect p \<noteq> requestedport then False
         else if h \<noteq> FWD_PERMIT_ANY_HOST \<and> h \<noteq> requestedhost then False
         else True)"

definition open_listen_match_tcpip :: "permission \<Rightarrow> string option \<Rightarrow> int \<Rightarrow> bool \<Rightarrow> bool" where
  "open_listen_match_tcpip p requestedhost requestedport translate =
    (if host_to_connect p = None then False
     else if listen_port p \<noteq> u_short requestedport then False
     else if \<not> translate \<and> listen_host p = None \<and> requestedhost = None then True
     else (case ((if translate then Some (channel_rfwd_bind_host (listen_host p)) else listen_host p), requestedhost) of
         (Some a, Some r) \<Rightarrow> a = r | _ \<Rightarrow> False))"

definition open_listen_match_streamlocal :: "permission \<Rightarrow> string \<Rightarrow> bool" where
  "open_listen_match_streamlocal p requestedpath =
    (if host_to_connect p = None then False
     else if listen_port p \<noteq> PORT_STREAMLOCAL then False
     else listen_path p = Some requestedpath)"

definition remote_open_match :: "permission \<Rightarrow> Forward \<Rightarrow> bool" where
  "remote_open_match p fwd =
    (if fwd_listen_path fwd \<noteq> None then True
     else (case (fwd_listen_host fwd, listen_host p) of
         (Some lhost, Some pat) \<Rightarrow>
           if listen_port p \<noteq> FWD_PERMIT_ANY_PORT \<and> listen_port p \<noteq> fwd_listen_port fwd then False
           else match_pattern (lowercase lhost) pat
       | _ \<Rightarrow> False))"

text \<open>The test that \<^verbatim>\<open>check_rfwd_permission\<close>, \<^verbatim>\<open>channel_connect_to_port\<close> and \<^verbatim>\<open>channel_connect_to_path\<close> share:
  some permission of the user, and of the administrator if there are any.\<close>

definition permit_with :: "(permission \<Rightarrow> bool) \<Rightarrow> permission_set \<Rightarrow> bool" where
  "permit_with matches pset =
    (let permit = all_permitted pset \<or> list_ex matches (permitted_user pset);
         permit_adm = (if permitted_admin pset \<noteq> [] then list_ex matches (permitted_admin pset) else True)
     in permit \<and> permit_adm)"

definition check_rfwd_permission :: "Forward \<Rightarrow> ssh_channels \<Rightarrow> bool" where
  "check_rfwd_permission fwd sc = permit_with (\<lambda>p. remote_open_match p fwd) (remote_perms sc)"

definition connect_to_port_permitted :: "string \<Rightarrow> int \<Rightarrow> ssh_channels \<Rightarrow> bool" where
  "connect_to_port_permitted host port sc = permit_with (\<lambda>p. open_match p host (u_short port)) (local_perms sc)"

definition connect_to_path_permitted :: "string \<Rightarrow> ssh_channels \<Rightarrow> bool" where
  "connect_to_path_permitted pth sc = permit_with (\<lambda>p. open_match p pth PORT_STREAMLOCAL) (local_perms sc)"

text \<open>What the client does with a connection the server forwards: give it to a multiplexing client, wait for the
  request of a dynamic forwarding, connect to the configured target, or refuse.\<close>

datatype fwd_target = ToDownstream nat | ToDynamic | ConnectTo string int | Refused

definition channel_connect_by_listen_address :: "string \<Rightarrow> int \<Rightarrow> ssh_channels \<Rightarrow> fwd_target" where
  "channel_connect_by_listen_address lhost lport sc =
    (case find (\<lambda>p. open_listen_match_tcpip p (Some lhost) lport True) (permitted_user (local_perms sc)) of
       None \<Rightarrow> Refused
     | Some p \<Rightarrow>
         (case downstream p of Some d \<Rightarrow> ToDownstream d
          | None \<Rightarrow> if port_to_connect p = 0 then ToDynamic
                    else ConnectTo (case host_to_connect p of None \<Rightarrow> [] | Some h \<Rightarrow> h) (port_to_connect p)))"

definition channel_connect_by_listen_path :: "string \<Rightarrow> ssh_channels \<Rightarrow> fwd_target" where
  "channel_connect_by_listen_path pth sc =
    (case find (\<lambda>p. open_listen_match_streamlocal p pth) (permitted_user (local_perms sc)) of
       None \<Rightarrow> Refused
     | Some p \<Rightarrow> ConnectTo (case host_to_connect p of None \<Rightarrow> [] | Some h \<Rightarrow> h) (port_to_connect p))"

section \<open>Changing the permissions\<close>

definition channel_permit_all :: "fwd_where \<Rightarrow> ssh_channels \<Rightarrow> ssh_channels" where
  "channel_permit_all dir sc =
    (let ps = permission_set_get dir sc in
     if permitted_user ps = [] then permission_set_put dir (ps\<lparr>all_permitted := True\<rparr>) sc else sc)"

definition channel_add_permission :: "fwd_who \<Rightarrow> fwd_where \<Rightarrow> string \<Rightarrow> int \<Rightarrow> ssh_channels \<Rightarrow> ssh_channels option" where
  "channel_add_permission who dir host port sc =
    do { (n, sc1) \<leftarrow> permission_set_add who dir
           (if dir = FORWARD_LOCAL
            then \<lparr>host_to_connect = Some host, port_to_connect = port, listen_host = None, listen_path = None,
                  listen_port = 0, downstream = None\<rparr>
            else \<lparr>host_to_connect = None, port_to_connect = 0, listen_host = Some host, listen_path = None,
                  listen_port = port, downstream = None\<rparr>) sc;
         Some (permission_set_put dir ((permission_set_get dir sc1)\<lparr>all_permitted := False\<rparr>) sc1) }"

definition channel_clear_permission :: "fwd_who \<Rightarrow> fwd_where \<Rightarrow> ssh_channels \<Rightarrow> ssh_channels" where
  "channel_clear_permission who dir sc = permission_set_put_array who dir [] sc"

definition no_permission :: permission where
  "no_permission = \<lparr>host_to_connect = None, port_to_connect = 0, listen_host = None, listen_path = None,
     listen_port = 0, downstream = None\<rparr>"

definition channel_disable_admin :: "fwd_where \<Rightarrow> ssh_channels \<Rightarrow> ssh_channels option" where
  "channel_disable_admin dir sc =
    map_option snd (permission_set_add FORWARD_ADM dir no_permission (channel_clear_permission FORWARD_ADM dir sc))"

text \<open>\<open>bug_rport\<close> is the compatibility bit \<^verbatim>\<open>SSH_BUG_DYNAMIC_RPORT\<close>.\<close>

definition channel_update_permission :: "bool \<Rightarrow> int \<Rightarrow> int \<Rightarrow> ssh_channels \<Rightarrow> ssh_channels" where
  "channel_update_permission bug_rport idx newport sc =
    (let ps = permission_set_get_array FORWARD_USER FORWARD_LOCAL sc in
     if idx < 0 \<or> nat idx \<ge> length ps then sc
     else permission_set_put_array FORWARD_USER FORWARD_LOCAL
       (ps[nat idx := (if newport \<le> 0 then fwd_perm_clear (ps ! nat idx)
                       else (ps ! nat idx)\<lparr>listen_port := (if bug_rport then 0 else newport)\<rparr>)]) sc)"

definition channel_request_remote_forwarding :: "Forward \<Rightarrow> ssh_channels \<Rightarrow> (nat \<times> ssh_channels) option" where
  "channel_request_remote_forwarding fwd sc =
    do { w \<leftarrow> send_packet (case fwd_listen_path fwd of
             Some pth \<Rightarrow> MsgGlobal ''streamlocal-forward@openssh.com'' True pth None
           | None \<Rightarrow> MsgGlobal ''tcpip-forward'' True (channel_rfwd_bind_host (fwd_listen_host fwd)) (Some (fwd_listen_port fwd)))
           (net sc);
         (host, port) \<leftarrow> (case connect_path fwd of Some pth \<Rightarrow> Some (pth, PORT_STREAMLOCAL)
                             | None \<Rightarrow> (case connect_host fwd of None \<Rightarrow> None | Some h \<Rightarrow> Some (h, connect_port fwd)));
         let (lhost, lpath, lport) = (case fwd_listen_path fwd of Some pth \<Rightarrow> (None, Some pth, PORT_STREAMLOCAL)
                             | None \<Rightarrow> (fwd_listen_host fwd, None, fwd_listen_port fwd));
         permission_set_add FORWARD_USER FORWARD_LOCAL
           \<lparr>host_to_connect = Some host, port_to_connect = port, listen_host = lhost, listen_path = lpath,
            listen_port = lport, downstream = None\<rparr> (sc\<lparr>net := w\<rparr>) }"

text \<open>Send the cancellation and forget the first permission that matches.\<close>

fun clear_first :: "(permission \<Rightarrow> bool) \<Rightarrow> permission list \<Rightarrow> permission list option" where
  "clear_first f [] = None"
| "clear_first f (p # ps) = (if f p then Some (fwd_perm_clear p # ps)
     else (case clear_first f ps of None \<Rightarrow> None | Some qs \<Rightarrow> Some (p # qs)))"

definition cancel_with :: "(permission \<Rightarrow> bool) \<Rightarrow> msg \<Rightarrow> ssh_channels \<Rightarrow> (bool \<times> ssh_channels) option" where
  "cancel_with f m sc = (case clear_first f (permitted_user (local_perms sc)) of
     None \<Rightarrow> Some (False, sc)
   | Some qs \<Rightarrow> do { w \<leftarrow> send_packet m (net sc);
                    Some (True, permission_set_put_array FORWARD_USER FORWARD_LOCAL qs (sc\<lparr>net := w\<rparr>)) })"

definition channel_request_rforward_cancel_tcpip :: "string option \<Rightarrow> int \<Rightarrow> ssh_channels \<Rightarrow> (bool \<times> ssh_channels) option" where
  "channel_request_rforward_cancel_tcpip host port sc =
    cancel_with (\<lambda>p. open_listen_match_tcpip p host port False)
      (MsgGlobal ''cancel-tcpip-forward'' False (channel_rfwd_bind_host host) (Some (u_short port))) sc"

definition channel_request_rforward_cancel_streamlocal :: "string \<Rightarrow> ssh_channels \<Rightarrow> (bool \<times> ssh_channels) option" where
  "channel_request_rforward_cancel_streamlocal pth sc =
    cancel_with (\<lambda>p. open_listen_match_streamlocal p pth)
      (MsgGlobal ''cancel-streamlocal-forward@openssh.com'' False pth None) sc"

definition channel_request_rforward_cancel :: "Forward \<Rightarrow> ssh_channels \<Rightarrow> (bool \<times> ssh_channels) option" where
  "channel_request_rforward_cancel fwd sc = (case fwd_listen_path fwd of
     Some pth \<Rightarrow> channel_request_rforward_cancel_streamlocal pth sc
   | None \<Rightarrow> channel_request_rforward_cancel_tcpip (fwd_listen_host fwd)
       (if fwd_listen_port fwd \<noteq> 0 then fwd_listen_port fwd else allocated_port fwd) sc)"

section \<open>Listeners\<close>

text \<open>Free every channel that matches and say whether there was one.\<close>

primrec cancel_listeners ::
    "callback \<Rightarrow> (channel \<Rightarrow> bool) \<Rightarrow> nat list \<Rightarrow> bool \<Rightarrow> ssh_channels \<Rightarrow> (bool \<times> ssh_channels) option" where
  "cancel_listeners cb f [] found sc = Some (found, sc)"
| "cancel_listeners cb f (i # is) found sc = (case slot sc i of None \<Rightarrow> cancel_listeners cb f is found sc
     | Some c \<Rightarrow> if f c then do { sc1 \<leftarrow> channel_free cb i sc; cancel_listeners cb f is True sc1 }
                 else cancel_listeners cb f is found sc)"

definition channel_cancel_rport_listener_tcpip ::
    "callback \<Rightarrow> string option \<Rightarrow> int \<Rightarrow> ssh_channels \<Rightarrow> (bool \<times> ssh_channels) option" where
  "channel_cancel_rport_listener_tcpip cb host port sc = (case host of
     None \<Rightarrow> if list_ex (\<lambda>i. case slot sc i of None \<Rightarrow> False | Some c \<Rightarrow> ctyp c = SSH_CHANNEL_RPORT_LISTENER) (all_slots sc)
             then None else Some (False, sc)
   | Some h \<Rightarrow> cancel_listeners cb (\<lambda>c. ctyp c = SSH_CHANNEL_RPORT_LISTENER \<and> path c = Some h \<and> listening_port c = u_short port)
       (all_slots sc) False sc)"

definition channel_cancel_rport_listener_streamlocal ::
    "callback \<Rightarrow> string \<Rightarrow> ssh_channels \<Rightarrow> (bool \<times> ssh_channels) option" where
  "channel_cancel_rport_listener_streamlocal cb pth sc =
    cancel_listeners cb (\<lambda>c. ctyp c = SSH_CHANNEL_RUNIX_LISTENER \<and> path c = Some pth) (all_slots sc) False sc"

definition CHANNEL_CANCEL_PORT_STATIC :: int where "CHANNEL_CANCEL_PORT_STATIC = -1"

record ForwardOptions =
  gateway_ports :: int

text \<open>The address a listener binds to, and whether it is the wildcard. \<open>old_addr\<close> is the compatibility bit
  \<^verbatim>\<open>SSH_OLD_FORWARD_ADDR\<close>; the debug message to the peer is left out.\<close>

definition channel_fwd_bind_addr ::
    "bool \<Rightarrow> string option \<Rightarrow> bool \<Rightarrow> ForwardOptions \<Rightarrow> string option \<times> bool" where
  "channel_fwd_bind_addr old_addr listen_addr is_client opts = (case listen_addr of
     None \<Rightarrow> (None, gateway_ports opts \<noteq> 0)
   | Some a \<Rightarrow>
       if gateway_ports opts \<noteq> 0 \<or> is_client then
         if (old_addr \<and> a = ''0.0.0.0'' \<and> \<not> is_client) \<or> a = [] \<or> a = ''*'' \<or> (\<not> is_client \<and> gateway_ports opts = 1)
         then (None, True)
         else if a \<noteq> ''localhost'' \<or> a = ''127.0.0.1'' \<or> a = ''::1'' then (Some a, False)
         else (None, False)
       else if a = ''127.0.0.1'' \<or> a = ''::1'' then (Some a, False)
       else (None, False))"

definition channel_cancel_lport_listener_tcpip ::
    "callback \<Rightarrow> bool \<Rightarrow> string option \<Rightarrow> int \<Rightarrow> int \<Rightarrow> ForwardOptions \<Rightarrow> ssh_channels \<Rightarrow> (bool \<times> ssh_channels) option" where
  "channel_cancel_lport_listener_tcpip cb old_addr lhost lport cport opts sc =
    (let addr = fst (channel_fwd_bind_addr old_addr lhost True opts) in
     cancel_listeners cb (\<lambda>c. ctyp c = SSH_CHANNEL_PORT_LISTENER \<and> listening_port c = u_short lport \<and>
         (if cport = CHANNEL_CANCEL_PORT_STATIC then host_port c \<noteq> 0 else host_port c = cport) \<and>
         listening_addr c = addr)
       (all_slots sc) False sc)"

definition channel_cancel_lport_listener_streamlocal ::
    "callback \<Rightarrow> string option \<Rightarrow> ssh_channels \<Rightarrow> (bool \<times> ssh_channels) option" where
  "channel_cancel_lport_listener_streamlocal cb pth sc = (case pth of None \<Rightarrow> Some (False, sc)
     | Some s \<Rightarrow> cancel_listeners cb (\<lambda>c. ctyp c = SSH_CHANNEL_UNIX_LISTENER \<and> listening_addr c = Some s)
         (all_slots sc) False sc)"

definition channel_cancel_rport_listener :: "callback \<Rightarrow> Forward \<Rightarrow> ssh_channels \<Rightarrow> (bool \<times> ssh_channels) option" where
  "channel_cancel_rport_listener cb fwd sc = (case fwd_listen_path fwd of
     Some pth \<Rightarrow> channel_cancel_rport_listener_streamlocal cb pth sc
   | None \<Rightarrow> channel_cancel_rport_listener_tcpip cb (fwd_listen_host fwd) (fwd_listen_port fwd) sc)"

definition channel_cancel_lport_listener ::
    "callback \<Rightarrow> bool \<Rightarrow> Forward \<Rightarrow> int \<Rightarrow> ForwardOptions \<Rightarrow> ssh_channels \<Rightarrow> (bool \<times> ssh_channels) option" where
  "channel_cancel_lport_listener cb old_addr fwd cport opts sc = (case fwd_listen_path fwd of
     Some pth \<Rightarrow> channel_cancel_lport_listener_streamlocal cb (Some pth) sc
   | None \<Rightarrow> channel_cancel_lport_listener_tcpip cb old_addr (fwd_listen_host fwd) (fwd_listen_port fwd) cport opts sc)"

text \<open>What the system says about one address that \<^verbatim>\<open>getaddrinfo\<close> returned: its family is an internet one,
  \<^verbatim>\<open>getnameinfo\<close> succeeds, the descriptor of the socket or $-1$, \<^verbatim>\<open>bind\<close> and \<^verbatim>\<open>listen\<close> succeed, and
  the port the socket then has.\<close>

record addr_try =
  inet_family :: bool
  nameinfo_ok :: bool
  socket_fd :: int
  bind_ok :: bool
  listen_ok :: bool
  local_port :: int

definition NI_MAXHOST :: nat where "NI_MAXHOST = 1025"
definition CHAN_TCP_PACKET_DEFAULT :: "32 word" where "CHAN_TCP_PACKET_DEFAULT = 32 * 1024"
definition CHAN_TCP_WINDOW_DEFAULT :: "32 word" where "CHAN_TCP_WINDOW_DEFAULT = 64 * CHAN_TCP_PACKET_DEFAULT"

text \<open>One round of the loop over the addresses; \<open>aport\<close> is \<^verbatim>\<open>*allocated_listen_port\<close>, \<open>None\<close> for a null
  pointer, and \<open>bug_rport\<close> the compatibility bit \<^verbatim>\<open>SSH_BUG_DYNAMIC_RPORT\<close>.\<close>

definition listen_on ::
    "allocator \<Rightarrow> bool \<Rightarrow> chan_type \<Rightarrow> Forward \<Rightarrow> string \<Rightarrow> string option \<Rightarrow> addr_try \<Rightarrow> bool \<times> int option \<times> ssh_channels \<Rightarrow>
     (bool \<times> int option \<times> ssh_channels) option" where
  "listen_on A bug_rport type fwd host addr a st = (case st of (success, aport, sc) \<Rightarrow>
     if \<not> inet_family a then Some st
     else if \<not> nameinfo_ok a then Some st
     else if socket_fd a = -1 then Some st
     else if \<not> bind_ok a then Some (success, aport, sc\<lparr>net := close_fd (socket_fd a) (net sc)\<rparr>)
     else if \<not> listen_ok a then Some (success, aport, sc\<lparr>net := close_fd (socket_fd a) (net sc)\<rparr>)
     else
       let aport1 = (if type = SSH_CHANNEL_RPORT_LISTENER \<and> fwd_listen_port fwd = 0 \<and> aport = Some 0
                     then Some (local_port a) else aport)
       in do { (i, sc1) \<leftarrow> channel_new A ''port listener'' type (socket_fd a) (socket_fd a) (-1)
                 CHAN_TCP_WINDOW_DEFAULT CHAN_TCP_PACKET_DEFAULT CHAN_EXTENDED_IGNORE ''port listener'' sc;
               c \<leftarrow> slot sc1 i;
               Some (True, aport1, put_slot i (Some (c\<lparr>path := Some host, host_port := connect_port fwd, listening_addr := addr,
                 listening_port := (case aport1 of
                     Some n \<Rightarrow> if fwd_listen_port fwd = 0 \<and> \<not> bug_rport then n else fwd_listen_port fwd
                   | None \<Rightarrow> fwd_listen_port fwd)\<rparr>)) sc1) })"

fun listen_loop ::
    "allocator \<Rightarrow> bool \<Rightarrow> chan_type \<Rightarrow> Forward \<Rightarrow> string \<Rightarrow> string option \<Rightarrow> addr_try list \<Rightarrow> bool \<times> int option \<times> ssh_channels \<Rightarrow>
     (bool \<times> int option \<times> ssh_channels) option" where
  "listen_loop A bug type fwd host addr [] st = Some st"
| "listen_loop A bug type fwd host addr (a # as) st =
    do { st1 \<leftarrow> listen_on A bug type fwd host addr a st; listen_loop A bug type fwd host addr as st1 }"

text \<open>\<open>gai\<close> is the result of \<^verbatim>\<open>getaddrinfo\<close> on an address, \<open>None\<close> for an error; an error for the null address
  ends the connection.\<close>

definition channel_setup_fwd_listener_tcpip ::
    "allocator \<Rightarrow> bool \<Rightarrow> bool \<Rightarrow> (string option \<Rightarrow> bool \<Rightarrow> addr_try list option) \<Rightarrow> chan_type \<Rightarrow> Forward \<Rightarrow> int option \<Rightarrow>
     ForwardOptions \<Rightarrow> ssh_channels \<Rightarrow> (bool \<times> int option \<times> ssh_channels) option" where
  "channel_setup_fwd_listener_tcpip A old_addr bug_rport gai type fwd aport opts sc =
    (let is_client = (type = SSH_CHANNEL_PORT_LISTENER);
         host = (case connect_path fwd of
             Some pth \<Rightarrow> if is_client then Some (pth, True)
                         else map_option (\<lambda>h. (h, False)) (if type = SSH_CHANNEL_RPORT_LISTENER then fwd_listen_host fwd else connect_host fwd)
           | None \<Rightarrow> map_option (\<lambda>h. (h, False)) (if type = SSH_CHANNEL_RPORT_LISTENER then fwd_listen_host fwd else connect_host fwd))
     in case host of None \<Rightarrow> Some (False, aport, sc)
      | Some (h, is_path) \<Rightarrow>
          if \<not> is_path \<and> length h \<ge> NI_MAXHOST then Some (False, aport, sc)
          else let (addr, wildcard) = channel_fwd_bind_addr old_addr (fwd_listen_host fwd) is_client opts in
            case gai addr wildcard of
              None \<Rightarrow> if addr = None then None else Some (False, aport, sc)
            | Some as \<Rightarrow> listen_loop A bug_rport type fwd h addr as (False, map_option (\<lambda>n. 0) aport, sc))"

text \<open>\<open>sun_path_size\<close> is the room of \<^verbatim>\<open>sockaddr_un.sun_path\<close> and \<open>sockfd\<close> what \<^verbatim>\<open>unix_listener\<close> returns.\<close>

definition channel_setup_fwd_listener_streamlocal ::
    "allocator \<Rightarrow> nat \<Rightarrow> int \<Rightarrow> chan_type \<Rightarrow> Forward \<Rightarrow> ssh_channels \<Rightarrow> (bool \<times> ssh_channels) option" where
  "channel_setup_fwd_listener_streamlocal A sun_path_size sockfd type fwd sc =
    (let target = (if type = SSH_CHANNEL_UNIX_LISTENER then
            (case connect_path fwd of
               Some pth \<Rightarrow> if length pth > sun_path_size then None else Some (Some pth, PORT_STREAMLOCAL)
             | None \<Rightarrow> (case connect_host fwd of None \<Rightarrow> None
                 | Some h \<Rightarrow> if length h \<ge> NI_MAXHOST then None else Some (Some h, connect_port fwd)))
          else if type = SSH_CHANNEL_RUNIX_LISTENER then Some (fwd_listen_path fwd, PORT_STREAMLOCAL)
          else None)
     in case (target, fwd_listen_path fwd) of
          (Some (Some pth, port), Some lpath) \<Rightarrow>
            if length lpath > sun_path_size then Some (False, sc)
            else if sockfd < 0 then Some (False, sc)
            else do { (i, sc1) \<leftarrow> channel_new A ''unix listener'' type sockfd sockfd (-1)
                        CHAN_TCP_WINDOW_DEFAULT CHAN_TCP_PACKET_DEFAULT CHAN_EXTENDED_IGNORE ''unix listener'' sc;
                      c \<leftarrow> slot sc1 i;
                      Some (True, put_slot i (Some (c\<lparr>path := Some pth, host_port := port,
                        listening_port := PORT_STREAMLOCAL, listening_addr := Some lpath\<rparr>)) sc1) }
        | _ \<Rightarrow> Some (False, sc))"

definition channel_setup_local_fwd_listener ::
    "allocator \<Rightarrow> bool \<Rightarrow> bool \<Rightarrow> (string option \<Rightarrow> bool \<Rightarrow> addr_try list option) \<Rightarrow> nat \<Rightarrow> int \<Rightarrow> Forward \<Rightarrow>
     ForwardOptions \<Rightarrow> ssh_channels \<Rightarrow> (bool \<times> ssh_channels) option" where
  "channel_setup_local_fwd_listener A old_addr bug_rport gai sun_path_size sockfd fwd opts sc =
    (if fwd_listen_path fwd \<noteq> None then channel_setup_fwd_listener_streamlocal A sun_path_size sockfd SSH_CHANNEL_UNIX_LISTENER fwd sc
     else map_option (\<lambda>(ok, aport, sc1). (ok, sc1))
       (channel_setup_fwd_listener_tcpip A old_addr bug_rport gai SSH_CHANNEL_PORT_LISTENER fwd None opts sc))"

definition channel_setup_remote_fwd_listener ::
    "allocator \<Rightarrow> bool \<Rightarrow> bool \<Rightarrow> (string option \<Rightarrow> bool \<Rightarrow> addr_try list option) \<Rightarrow> nat \<Rightarrow> int \<Rightarrow> Forward \<Rightarrow> int option \<Rightarrow>
     ForwardOptions \<Rightarrow> ssh_channels \<Rightarrow> (bool \<times> int option \<times> ssh_channels) option" where
  "channel_setup_remote_fwd_listener A old_addr bug_rport gai sun_path_size sockfd fwd aport opts sc =
    (if \<not> check_rfwd_permission fwd sc then Some (False, aport, sc)
     else if fwd_listen_path fwd \<noteq> None then
       map_option (\<lambda>(ok, sc1). (ok, aport, sc1))
         (channel_setup_fwd_listener_streamlocal A sun_path_size sockfd SSH_CHANNEL_RUNIX_LISTENER fwd sc)
     else channel_setup_fwd_listener_tcpip A old_addr bug_rport gai SSH_CHANNEL_RPORT_LISTENER fwd aport opts sc)"

section \<open>Permissions under the user's operations\<close>

lemmas perm_defs = permission_set_get_def permission_set_put_def permission_set_get_array_def permission_set_put_array_def

lemma perm_add_admin:
  "permission_set_add FORWARD_USER dir p sc = Some (n, sc') \<Longrightarrow>
   permitted_admin (permission_set_get d sc') = permitted_admin (permission_set_get d sc)"
  by (auto simp: permission_set_add_def perm_defs Let_def split: if_splits fwd_where.splits)

text \<open>Everything that the user's side of the connection may do with the permissions.\<close>

inductive user_step :: "ssh_channels \<Rightarrow> ssh_channels \<Rightarrow> bool" where
  UserAdd: "channel_add_permission FORWARD_USER dir host port sc = Some sc' \<Longrightarrow> user_step sc sc'"
| UserPermitAll: "user_step sc (channel_permit_all dir sc)"
| UserClear: "user_step sc (channel_clear_permission FORWARD_USER dir sc)"
| UserUpdate: "user_step sc (channel_update_permission b idx newport sc)"
| UserRequest: "channel_request_remote_forwarding fwd sc = Some (n, sc') \<Longrightarrow> user_step sc sc'"
| UserCancel: "channel_request_rforward_cancel fwd sc = Some (r, sc') \<Longrightarrow> user_step sc sc'"

lemma cancel_with_admin:
  "cancel_with f m sc = Some (r, sc') \<Longrightarrow>
   permitted_admin (permission_set_get d sc') = permitted_admin (permission_set_get d sc)"
  by (auto simp: cancel_with_def perm_defs split: option.splits bind_split_asm fwd_where.splits)

lemma user_step_admin:
  "user_step sc sc' \<Longrightarrow> permitted_admin (permission_set_get d sc') = permitted_admin (permission_set_get d sc)"
proof (induction rule: user_step.induct)
  case (UserAdd dir host port sc sc')
  then show ?case using perm_add_admin [where d = d]
    by (auto simp: channel_add_permission_def split: bind_split_asm) (auto simp: perm_defs split: fwd_where.splits)
next
  case (UserRequest fwd sc n sc')
  then obtain w p where "permission_set_add FORWARD_USER FORWARD_LOCAL p (sc\<lparr>net := w\<rparr>) = Some (n, sc')"
    by (auto simp: channel_request_remote_forwarding_def split: bind_split_asm prod.split_asm)
  from perm_add_admin [OF this, of d] show ?case by (simp add: permission_set_get_def split: fwd_where.splits)
next
  case (UserCancel fwd sc r sc')
  then show ?case using cancel_with_admin [where d = d]
    by (auto simp: channel_request_rforward_cancel_def channel_request_rforward_cancel_streamlocal_def
        channel_request_rforward_cancel_tcpip_def split: option.splits)
qed (auto simp: channel_permit_all_def channel_clear_permission_def channel_update_permission_def perm_defs Let_def
    split: fwd_where.splits)

lemma user_steps_admin:
  "user_step\<^sup>*\<^sup>* sc sc' \<Longrightarrow> permitted_admin (permission_set_get d sc') = permitted_admin (permission_set_get d sc)"
  by (induction rule: rtranclp_induct) (simp_all add: user_step_admin)

lemma disable_admin_entry:
  "channel_disable_admin dir sc = Some sc' \<Longrightarrow> permitted_admin (permission_set_get dir sc') = [no_permission]"
  by (auto simp: channel_disable_admin_def channel_clear_permission_def permission_set_add_def perm_defs INT_MAX_def Let_def
      split: fwd_where.splits)

lemma disable_admin_total: "\<exists>sc'. channel_disable_admin dir sc = Some sc'"
  by (simp add: channel_disable_admin_def channel_clear_permission_def permission_set_add_def perm_defs INT_MAX_def Let_def
      split: fwd_where.splits)


section \<open>What the listeners leave in the channel table\<close>

text \<open>Nothing but new channels with the property \<open>P\<close> has been added.\<close>

definition adds :: "(channel \<Rightarrow> bool) \<Rightarrow> ssh_channels \<Rightarrow> ssh_channels \<Rightarrow> bool" where
  "adds P sc sc' \<longleftrightarrow> (\<forall>j. slot sc' j = slot sc j \<or> slot sc j = None \<and> (\<exists>c. slot sc' j = Some c \<and> P c))"

lemma adds_refl [simp, intro]: "adds P sc sc" "adds P sc (sc\<lparr>net := w\<rparr>)"
  by (simp_all add: adds_def slot_def)

lemma adds_trans: "adds P sc sc1 \<Longrightarrow> adds P sc1 sc2 \<Longrightarrow> adds P sc sc2"
  unfolding adds_def by (metis option.distinct(1))

lemma adds_channel_new:
  assumes run: "channel_new A ct t r w e win mp eu rn sc = Some (i, sc1)" and c: "slot sc1 i = Some c" and P: "P (f c)"
  shows "adds P sc (put_slot i (Some (f c)) sc1)" and "slot (put_slot i (Some (f c)) sc1) i = Some (f c)"
proof -
  note new = channel_new_slot [OF run]
  have i: "i < length (channels sc1)" using c by (rule slot_Some_lt)
  show "slot (put_slot i (Some (f c)) sc1) i = Some (f c)" using i by (simp add: slot_put)
  show "adds P sc (put_slot i (Some (f c)) sc1)"
    unfolding adds_def using i new(1,2) P by (simp add: slot_put)
qed

text \<open>Listeners for one forwarding, as \<^verbatim>\<open>listen_on\<close> leaves them when the port is fixed.\<close>

definition listens_for :: "chan_type \<Rightarrow> Forward \<Rightarrow> string \<Rightarrow> string option \<Rightarrow> channel \<Rightarrow> bool" where
  "listens_for type fwd host addr c \<longleftrightarrow> ctyp c = type \<and> path c = Some host \<and> host_port c = connect_port fwd \<and>
     listening_addr c = addr \<and> listening_port c = fwd_listen_port fwd"

definition has_channel :: "(channel \<Rightarrow> bool) \<Rightarrow> ssh_channels \<Rightarrow> bool" where
  "has_channel P sc \<longleftrightarrow> (\<exists>j c. slot sc j = Some c \<and> P c)"

lemma adds_has: "adds Q sc sc1 \<Longrightarrow> has_channel P sc \<Longrightarrow> has_channel P sc1"
  unfolding adds_def has_channel_def by (metis option.distinct(1))

lemma listen_on_adds:
  assumes run: "listen_on A bug type fwd host addr a (ok, ap, sc) = Some (ok1, ap1, sc1)"
    and port: "fwd_listen_port fwd \<noteq> 0 \<or> ap = None"
  shows "adds (listens_for type fwd host addr) sc sc1" and "ok1 \<Longrightarrow> ok \<or> has_channel (listens_for type fwd host addr) sc1"
    and "fwd_listen_port fwd \<noteq> 0 \<or> ap1 = None"
proof -
  have p: "(if type = SSH_CHANNEL_RPORT_LISTENER \<and> fwd_listen_port fwd = 0 \<and> ap = Some 0 then Some (local_port a) else ap) = ap"
    using port by auto
  consider "sc1 = sc \<or> (\<exists>w. sc1 = sc\<lparr>net := w\<rparr>)" "ok1 = ok" "ap1 = ap"
    | i c sc2 where "channel_new A ''port listener'' type (socket_fd a) (socket_fd a) (-1) CHAN_TCP_WINDOW_DEFAULT
          CHAN_TCP_PACKET_DEFAULT CHAN_EXTENDED_IGNORE ''port listener'' sc = Some (i, sc2)" "slot sc2 i = Some c" "ap1 = ap"
      "sc1 = put_slot i (Some (c\<lparr>path := Some host, host_port := connect_port fwd, listening_addr := addr,
                 listening_port := fwd_listen_port fwd\<rparr>)) sc2"
    using run port unfolding listen_on_def Let_def p prod.case
    by (auto split: if_splits bind_split_asm option.splits)
  then have "adds (listens_for type fwd host addr) sc sc1 \<and> (ok1 \<longrightarrow> ok \<or> has_channel (listens_for type fwd host addr) sc1) \<and> ap1 = ap"
  proof cases
    case 1
    then show ?thesis by auto
  next
    case 2
    have t: "ctyp c = type" using channel_new_slot(3) [OF 2(1)] 2(2) by auto
    let ?f = "\<lambda>c :: channel. c\<lparr>path := Some host, host_port := connect_port fwd, listening_addr := addr,
                 listening_port := fwd_listen_port fwd\<rparr>"
    have P: "listens_for type fwd host addr (?f c)" by (simp add: listens_for_def t)
    note new = adds_channel_new [where f = ?f and P = "listens_for type fwd host addr", OF 2(1,2) P]
    from new(2) P have "has_channel (listens_for type fwd host addr) sc1"
      unfolding has_channel_def 2(4) by blast
    then show ?thesis using new(1) 2(3,4) by blast
  qed
  then show "adds (listens_for type fwd host addr) sc sc1" "ok1 \<Longrightarrow> ok \<or> has_channel (listens_for type fwd host addr) sc1"
    "fwd_listen_port fwd \<noteq> 0 \<or> ap1 = None" using port by blast+
qed

lemma listen_loop_adds:
  assumes "listen_loop A bug type fwd host addr as (ok, ap, sc) = Some (ok1, ap1, sc1)"
    and "fwd_listen_port fwd \<noteq> 0 \<or> ap = None"
  shows "adds (listens_for type fwd host addr) sc sc1 \<and> (ok1 \<longrightarrow> ok \<or> has_channel (listens_for type fwd host addr) sc1)"
  using assms
proof (induction as arbitrary: ok ap sc)
  case (Cons a as)
  obtain ok2 ap2 sc2 where on: "listen_on A bug type fwd host addr a (ok, ap, sc) = Some (ok2, ap2, sc2)"
    and loop: "listen_loop A bug type fwd host addr as (ok2, ap2, sc2) = Some (ok1, ap1, sc1)"
    using Cons.prems(1) by (auto split: bind_split_asm)
  note first = listen_on_adds [OF on Cons.prems(2)]
  note rest = Cons.IH [OF loop first(3)]
  show ?case using first rest adds_trans adds_has by blast
qed auto

text \<open>Cancelling frees exactly the channels that match.\<close>

lemma cancel_listeners_slots:
  assumes cb: "cleanup_cb cb" and f: "\<And>c. f c \<Longrightarrow> ctyp c \<noteq> SSH_CHANNEL_MUX_CLIENT"
  shows "cancel_listeners cb f is found sc = Some (r, sc') \<Longrightarrow> distinct is \<Longrightarrow>
    (\<forall>j. slot sc' j = (if j \<in> set is \<and> (\<exists>c. slot sc j = Some c \<and> f c) then None else slot sc j)) \<and>
    (r \<longleftrightarrow> found \<or> (\<exists>j \<in> set is. \<exists>c. slot sc j = Some c \<and> f c))"
proof (induction "is" arbitrary: found sc)
  case (Cons i "is")
  show ?case
  proof (cases "\<exists>c. slot sc i = Some c \<and> f c")
    case True
    then obtain c sc1 where c: "slot sc i = Some c" "f c" and free: "channel_free cb i sc = Some sc1"
      and rest: "cancel_listeners cb f is True sc1 = Some (r, sc')"
      using Cons.prems(1) by (auto split: bind_split_asm)
    have slots: "slot sc1 j = (if j = i then None else slot sc j)" for j
      using channel_free_correct(1,2) [OF cb free c(1)] f [OF c(2)] by simp
    have i: "i \<notin> set is" "distinct is" using Cons.prems(2) by auto
    note IH = Cons.IH [OF rest i(2)]
    have "slot sc' j = (if j \<in> set (i # is) \<and> (\<exists>c. slot sc j = Some c \<and> f c) then None else slot sc j)" for j
      using IH [THEN conjunct1, rule_format, of j] i c slots [of j] by (cases "j = i") auto
    then show ?thesis using IH [THEN conjunct2] c by auto
  next
    case False
    then have rest: "cancel_listeners cb f is found sc = Some (r, sc')"
      using Cons.prems(1) by (auto split: option.splits)
    note IH = Cons.IH [OF rest] Cons.prems(2)
    show ?thesis using IH False by auto
  qed
qed auto

text \<open>A callback that always returns.\<close>

definition total_cb :: "callback \<Rightarrow> bool" where
  "total_cb cb \<longleftrightarrow> (\<forall>f x i sc. cb f x i sc \<noteq> None)"

lemma total_cb_opt:
  assumes "total_cb cb"
  shows "\<exists>sc'. (case f of None \<Rightarrow> Some sc | Some g \<Rightarrow> cb g 0 i sc) = Some sc'"
  using assms unfolding total_cb_def by (cases f) (simp, metis not_None_eq option.simps(5))

lemma abandon_confirms_total:
  assumes "total_cb cb"
  shows "\<exists>sc'. abandon_confirms cb i cs sc = Some sc'"
proof (induction cs arbitrary: sc)
  case (Cons x xs)
  obtain sc1 where "(case snd x of None \<Rightarrow> Some sc | Some f \<Rightarrow> cb f 0 i sc) = Some sc1" using total_cb_opt [OF assms] by blast
  then show ?case using Cons.IH [of sc1] by simp
qed simp

lemma channel_free_total:
  assumes "total_cb cb" "slot sc i = Some c" "ctyp c \<noteq> SSH_CHANNEL_MUX_CLIENT"
  shows "\<exists>sc'. channel_free cb i sc = Some sc'"
proof -
  obtain c1 w1 where close: "channel_close_fds (c, net sc) = (c1, w1)" by (rule prod.exhaust)
  obtain sc4 where a: "abandon_confirms cb i (status_confirms c)
      (put_slot i (Some (c1\<lparr>remote_name := [], path := None, listening_addr := None\<rparr>)) (sc\<lparr>net := w1\<rparr>)) = Some sc4"
    using abandon_confirms_total [OF assms(1)] by blast
  obtain sc5 where "(case filter_cleanup c of None \<Rightarrow> Some sc4 | Some f \<Rightarrow> cb f 0 i sc4) = Some sc5"
    using total_cb_opt [OF assms(1)] by blast
  then show ?thesis using assms(2,3) by (simp add: channel_free_def close a)
qed

lemma cancel_listeners_total:
  assumes cb: "cleanup_cb cb" "total_cb cb" and f: "\<And>c. f c \<Longrightarrow> ctyp c \<noteq> SSH_CHANNEL_MUX_CLIENT"
  shows "distinct is \<Longrightarrow> \<exists>r sc'. cancel_listeners cb f is found sc = Some (r, sc')"
proof (induction "is" arbitrary: found sc)
  case (Cons i "is")
  then have IH: "\<exists>r sc'. cancel_listeners cb f is found sc = Some (r, sc')" for found sc by simp
  show ?case
  proof (cases "slot sc i")
    case (Some c)
    show ?thesis
    proof (cases "f c")
      case True
      then obtain sc1 where "channel_free cb i sc = Some sc1" using channel_free_total [OF cb(2) Some f] by blast
      then show ?thesis using IH by (simp add: Some True)
    qed (simp add: Some IH)
  qed (simp add: IH)
qed simp

lemma cancel_added:
  assumes cb: "cleanup_cb cb" "total_cb cb" and f: "\<And>c. f c \<Longrightarrow> ctyp c \<noteq> SSH_CHANNEL_MUX_CLIENT"
    and add: "adds P sc sc1" "has_channel P sc1" and P: "\<And>c. P c \<Longrightarrow> f c"
  shows "\<exists>sc2. cancel_listeners cb f (all_slots sc1) False sc1 = Some (True, sc2) \<and>
    (\<forall>j. slot sc2 j = (case slot sc j of None \<Rightarrow> None | Some c \<Rightarrow> if f c then None else Some c))"
proof -
  have d: "distinct (all_slots sc1)" by (simp add: all_slots_def)
  obtain r sc2 where run: "cancel_listeners cb f (all_slots sc1) False sc1 = Some (r, sc2)"
    using cancel_listeners_total [OF cb f d] by blast
  have s: "(\<forall>j. slot sc2 j = (if \<exists>c. slot sc1 j = Some c \<and> f c then None else slot sc1 j)) \<and>
      (r \<longleftrightarrow> (\<exists>j. \<exists>c. slot sc1 j = Some c \<and> f c))"
  proof -
    have lt: "j \<in> set (all_slots sc1)" if "slot sc1 j = Some c" for j c
      using slot_Some_lt [OF that] by (simp add: all_slots_def)
    from cancel_listeners_slots [OF cb(1) f run d] lt show ?thesis by metis
  qed
  have "slot sc2 j = (case slot sc j of None \<Rightarrow> None | Some c \<Rightarrow> if f c then None else Some c)" for j
    using s add(1) [unfolded adds_def, rule_format, of j] P by (cases "slot sc j") auto
  moreover have r using s add(2) P unfolding has_channel_def by blast
  ultimately show ?thesis using run by simp
qed


section \<open>Properties\<close>

lemma no_permission_match:
  "\<not> open_match no_permission h n" "fwd_listen_path fwd = None \<Longrightarrow> \<not> remote_open_match no_permission fwd"
  by (simp_all add: open_match_def remote_open_match_def no_permission_def split: option.splits)


definition ex_fwd :: Forward where
  "ex_fwd = \<lparr>fwd_listen_host = None, fwd_listen_port = 8080, fwd_listen_path = None, connect_host = Some ''localhost'',
     connect_port = 80, connect_path = None, allocated_port = 0\<rparr>"

lemma ex_disable: "channel_disable_admin FORWARD_LOCAL ex_mux =
    Some (ex_mux\<lparr>local_perms := \<lparr>permitted_user = [], permitted_admin = [no_permission], all_permitted = False\<rparr>\<rparr>)"
  by (simp add: channel_disable_admin_def channel_clear_permission_def permission_set_add_def perm_defs INT_MAX_def Let_def
      ex_mux_def channel_init_channels_def)


text \<open>C36. A remote forwarding of a socket path is not subject to the administrator's list: when the user may forward
  anything, disabling remote forwarding leaves it permitted.\<close>

theorem disable_admin_streamlocal:
  assumes "channel_disable_admin FORWARD_REMOTE sc = Some sc1" and "all_permitted (remote_perms sc)"
    and "fwd_listen_path fwd = Some pth"
  shows "check_rfwd_permission fwd sc1"
proof -
  have "permitted_admin (remote_perms sc1) = [no_permission]" "all_permitted (remote_perms sc1)"
    using disable_admin_entry [OF assms(1)] assms
    by (auto simp: perm_defs channel_disable_admin_def channel_clear_permission_def permission_set_add_def Let_def split: if_splits)
  then show ?thesis using assms(3) by (simp add: check_rfwd_permission_def permit_with_def remote_open_match_def)
qed

theorem disable_admin_streamlocal_witness:
  "\<exists>sc1. channel_disable_admin FORWARD_REMOTE (channel_permit_all FORWARD_REMOTE ex_mux) = Some sc1 \<and>
     check_rfwd_permission (ex_fwd\<lparr>fwd_listen_path := Some ''/tmp/s''\<rparr>) sc1"
proof -
  obtain sc1 where dis: "channel_disable_admin FORWARD_REMOTE (channel_permit_all FORWARD_REMOTE ex_mux) = Some sc1"
    using disable_admin_total by blast
  have "all_permitted (remote_perms (channel_permit_all FORWARD_REMOTE ex_mux))"
    by (simp add: channel_permit_all_def perm_defs ex_mux_def channel_init_channels_def)
  from disable_admin_streamlocal [OF dis this] have "check_rfwd_permission (ex_fwd\<lparr>fwd_listen_path := Some ''/tmp/s''\<rparr>) sc1" by simp
  then show ?thesis using dis by blast
qed

lemma find_append_last: "find P xs = None \<Longrightarrow> P y \<Longrightarrow> find P (xs @ [y]) = Some y"
  by (induction xs) (auto split: if_splits)

lemma clear_first_last: "\<forall>x \<in> set xs. \<not> f x \<Longrightarrow> f y \<Longrightarrow> clear_first f (xs @ [y]) = Some (xs @ [fwd_perm_clear y])"
  by (induction xs) auto

text \<open>C37. A remote TCP forwarding lives from its request to its cancellation: once requested for a port that no other
  forwarding uses, a connection the server reports for the address sent to it goes to the configured host and port; the
  cancellation finds it, and after it such a connection is refused.\<close>

theorem remote_forward_lifecycle:
  assumes req: "channel_request_remote_forwarding fwd sc = Some (n, sc1)"
    and tcp: "fwd_listen_path fwd = None" "connect_path fwd = None" "connect_host fwd = Some h" "connect_port fwd \<noteq> 0"
    and port: "0 < fwd_listen_port fwd" "fwd_listen_port fwd < 65536"
    and fresh: "\<forall>p \<in> set (permitted_user (local_perms sc)). listen_port p \<noteq> fwd_listen_port fwd"
  shows "channel_connect_by_listen_address (channel_rfwd_bind_host (fwd_listen_host fwd)) (fwd_listen_port fwd) sc1 =
      ConnectTo h (connect_port fwd) \<and>
    (\<exists>sc2. channel_request_rforward_cancel fwd sc1 = Some (True, sc2) \<and>
       channel_connect_by_listen_address (channel_rfwd_bind_host (fwd_listen_host fwd)) (fwd_listen_port fwd) sc2 = Refused)"
proof -
  let ?lh = "channel_rfwd_bind_host (fwd_listen_host fwd)" and ?lp = "fwd_listen_port fwd"
  define p where "p = \<lparr>host_to_connect = Some h, port_to_connect = connect_port fwd, listen_host = fwd_listen_host fwd,
    listen_path = None, listen_port = ?lp, downstream = None\<rparr>"
  let ?us = "permitted_user (local_perms sc)"
  have u: "u_short ?lp = ?lp" using port by (simp add: u_short_def)
  obtain w where w: "send_packet (MsgGlobal ''tcpip-forward'' True ?lh (Some ?lp)) (net sc) = Some w"
    and add: "permission_set_add FORWARD_USER FORWARD_LOCAL p (sc\<lparr>net := w\<rparr>) = Some (n, sc1)"
    using req by (auto simp: channel_request_remote_forwarding_def tcp p_def split: bind_split_asm)
  have us: "permitted_user (local_perms sc1) = ?us @ [p]" and pk: "pkt_ok (net sc1)"
    using add w by (auto simp: permission_set_add_def perm_defs Let_def send_packet_def split: if_splits)
  have no: "\<not> open_listen_match_tcpip q x ?lp t" if "q \<in> set ?us" for q x t
    using fresh that by (simp add: open_listen_match_tcpip_def u)
  have yes: "open_listen_match_tcpip p (Some ?lh) ?lp True" "open_listen_match_tcpip p (fwd_listen_host fwd) ?lp False"
    by (auto simp: open_listen_match_tcpip_def p_def u split: option.splits)
  have cleared: "\<not> open_listen_match_tcpip (fwd_perm_clear p) x ?lp t" for x t
    by (simp add: open_listen_match_tcpip_def fwd_perm_clear_def)
  have none: "find (\<lambda>q. open_listen_match_tcpip q (Some ?lh) ?lp True) ?us = None"
    using no by (simp add: find_None_iff)
  have "channel_connect_by_listen_address ?lh ?lp sc1 = ConnectTo h (connect_port fwd)"
    unfolding channel_connect_by_listen_address_def us find_append_last [OF none yes(1)] by (simp add: p_def tcp)
  moreover have "clear_first (\<lambda>q. open_listen_match_tcpip q (fwd_listen_host fwd) ?lp False) (?us @ [p]) = Some (?us @ [fwd_perm_clear p])"
    using no yes(2) by (intro clear_first_last) blast+
  then obtain sc2 where sc2: "channel_request_rforward_cancel fwd sc1 = Some (True, sc2)"
    "permitted_user (local_perms sc2) = ?us @ [fwd_perm_clear p]"
    using pk port by (simp add: channel_request_rforward_cancel_def tcp channel_request_rforward_cancel_tcpip_def cancel_with_def us
        send_packet_def perm_defs)
  moreover have "find (\<lambda>q. open_listen_match_tcpip q (Some ?lh) ?lp True) (?us @ [fwd_perm_clear p]) = None"
    using no cleared by (auto simp: find_None_iff)
  then have "channel_connect_by_listen_address ?lh ?lp sc2 = Refused"
    by (simp add: channel_connect_by_listen_address_def sc2(2))
  ultimately show ?thesis by blast
qed

theorem remote_forward_lifecycle_witness:
  "\<exists>sc1 sc2. channel_request_remote_forwarding ex_fwd ex_mux = Some (0, sc1) \<and>
     channel_connect_by_listen_address ''localhost'' 8080 sc1 = ConnectTo ''localhost'' 80 \<and>
     channel_request_rforward_cancel ex_fwd sc1 = Some (True, sc2)"
proof -
  obtain sc1 where req: "channel_request_remote_forwarding ex_fwd ex_mux = Some (0, sc1)"
    by (simp add: channel_request_remote_forwarding_def ex_fwd_def send_packet_def permission_set_add_def perm_defs
        ex_mux_def channel_init_channels_def INT_MAX_def ex_ssh_def)
  have "\<forall>p \<in> set (permitted_user (local_perms ex_mux)). listen_port p \<noteq> fwd_listen_port ex_fwd"
    by (simp add: ex_mux_def channel_init_channels_def)
  from remote_forward_lifecycle [OF req _ _ _ _ _ _ this, of "''localhost''"] show ?thesis using req
    by (auto simp: ex_fwd_def channel_rfwd_bind_host_def)
qed


lemma streamlocal_adds:
  assumes run: "channel_setup_fwd_listener_streamlocal A sz fd type fwd sc = Some (True, sc1)"
  shows "\<exists>lpath. fwd_listen_path fwd = Some lpath \<and> (type = SSH_CHANNEL_UNIX_LISTENER \<or> type = SSH_CHANNEL_RUNIX_LISTENER) \<and>
    (let P = \<lambda>c. ctyp c = type \<and> listening_addr c = Some lpath \<and> (type = SSH_CHANNEL_RUNIX_LISTENER \<longrightarrow> path c = Some lpath)
     in adds P sc sc1 \<and> has_channel P sc1)"
proof -
  obtain pth port lpath i c sc2 where lpath: "fwd_listen_path fwd = Some lpath"
    and new: "channel_new A ''unix listener'' type fd fd (-1) CHAN_TCP_WINDOW_DEFAULT CHAN_TCP_PACKET_DEFAULT
        CHAN_EXTENDED_IGNORE ''unix listener'' sc = Some (i, sc2)" and c: "slot sc2 i = Some c"
    and sc1: "sc1 = put_slot i (Some (c\<lparr>path := Some pth, host_port := port, listening_port := PORT_STREAMLOCAL,
        listening_addr := Some lpath\<rparr>)) sc2"
    and type: "type = SSH_CHANNEL_UNIX_LISTENER \<or> type = SSH_CHANNEL_RUNIX_LISTENER \<and> pth = lpath"
    using run unfolding channel_setup_fwd_listener_streamlocal_def Let_def
    by (auto split: option.splits if_splits bind_split_asm)
  let ?P = "\<lambda>c. ctyp c = type \<and> listening_addr c = Some lpath \<and> (type = SSH_CHANNEL_RUNIX_LISTENER \<longrightarrow> path c = Some lpath)"
  let ?f = "\<lambda>c :: channel. c\<lparr>path := Some pth, host_port := port, listening_port := PORT_STREAMLOCAL, listening_addr := Some lpath\<rparr>"
  have P: "?P (?f c)" using channel_new_slot(3) [OF new] c type by auto
  note added = adds_channel_new [where f = ?f and P = ?P, OF new c P]
  have "has_channel ?P sc1" unfolding has_channel_def sc1 using added(2) P by blast
  then show ?thesis using added(1) lpath type unfolding sc1 Let_def by blast
qed

lemma tcpip_adds:
  assumes run: "channel_setup_fwd_listener_tcpip A old bug gai type fwd ap opts sc = Some (True, ap1, sc1)"
    and port: "fwd_listen_port fwd \<noteq> 0 \<or> ap = None"
  shows "\<exists>host. (type = SSH_CHANNEL_RPORT_LISTENER \<longrightarrow> fwd_listen_host fwd = Some host) \<and>
    (let P = listens_for type fwd host (fst (channel_fwd_bind_addr old (fwd_listen_host fwd) (type = SSH_CHANNEL_PORT_LISTENER) opts))
     in adds P sc sc1 \<and> has_channel P sc1)"
proof -
  obtain host addr wild "as" where
    h: "type = SSH_CHANNEL_RPORT_LISTENER \<longrightarrow> fwd_listen_host fwd = Some host"
    and a: "channel_fwd_bind_addr old (fwd_listen_host fwd) (type = SSH_CHANNEL_PORT_LISTENER) opts = (addr, wild)"
    and loop: "listen_loop A bug type fwd host addr as (False, map_option (\<lambda>n. 0) ap, sc) = Some (True, ap1, sc1)"
    using run unfolding channel_setup_fwd_listener_tcpip_def Let_def
    by (auto split: option.splits if_splits prod.splits)
  have "fwd_listen_port fwd \<noteq> 0 \<or> map_option (\<lambda>n. 0 :: int) ap = None" using port by auto
  from listen_loop_adds [OF loop this] show ?thesis using h unfolding a Let_def fst_conv by blast
qed

text \<open>The listeners of a forwarding on the client's and on the server's side.\<close>

definition local_listener_of :: "bool \<Rightarrow> ForwardOptions \<Rightarrow> Forward \<Rightarrow> channel \<Rightarrow> bool" where
  "local_listener_of old opts fwd c =
    (if fwd_listen_path fwd = None then ctyp c = SSH_CHANNEL_PORT_LISTENER \<and> listening_port c = fwd_listen_port fwd \<and>
       host_port c = connect_port fwd \<and> listening_addr c = fst (channel_fwd_bind_addr old (fwd_listen_host fwd) True opts)
     else ctyp c = SSH_CHANNEL_UNIX_LISTENER \<and> listening_addr c = fwd_listen_path fwd)"

definition remote_listener_of :: "Forward \<Rightarrow> channel \<Rightarrow> bool" where
  "remote_listener_of fwd c =
    (if fwd_listen_path fwd = None then ctyp c = SSH_CHANNEL_RPORT_LISTENER \<and> path c = fwd_listen_host fwd \<and>
       listening_port c = fwd_listen_port fwd
     else ctyp c = SSH_CHANNEL_RUNIX_LISTENER \<and> path c = fwd_listen_path fwd)"

lemma cancel_local_added:
  assumes cb: "cleanup_cb cb" "total_cb cb"
    and port: "0 < fwd_listen_port fwd" "fwd_listen_port fwd < 65536" "connect_port fwd \<noteq> CHANNEL_CANCEL_PORT_STATIC"
    and set: "channel_setup_local_fwd_listener A old bug gai sz fd fwd opts sc = Some (True, sc1)"
  shows "\<exists>sc2. channel_cancel_lport_listener cb old fwd (connect_port fwd) opts sc1 = Some (True, sc2) \<and> (\<forall>j. slot sc2 j = (case slot sc j of None \<Rightarrow> None | Some c \<Rightarrow> if local_listener_of old opts fwd c then None else Some c))"
proof -
  let ?P = "local_listener_of old opts fwd"
  have u: "u_short (fwd_listen_port fwd) = fwd_listen_port fwd" using port by (simp add: u_short_def)
  have "\<exists>Q. adds Q sc sc1 \<and> has_channel Q sc1 \<and> (\<forall>c. Q c \<longrightarrow> ?P c)"
  proof (cases "fwd_listen_path fwd")
    case None
    then obtain ap1 where "channel_setup_fwd_listener_tcpip A old bug gai SSH_CHANNEL_PORT_LISTENER fwd None opts sc = Some (True, ap1, sc1)"
      using set by (auto simp: channel_setup_local_fwd_listener_def)
    from tcpip_adds [OF this] show ?thesis using None by (auto simp: Let_def local_listener_of_def listens_for_def)
  next
    case (Some p)
    then have "channel_setup_fwd_listener_streamlocal A sz fd SSH_CHANNEL_UNIX_LISTENER fwd sc = Some (True, sc1)"
      using set by (simp add: channel_setup_local_fwd_listener_def)
    from streamlocal_adds [OF this] show ?thesis using Some by (auto simp: Let_def local_listener_of_def)
  qed
  then obtain Q where Q: "adds Q sc sc1" "has_channel Q sc1" "\<And>c. Q c \<Longrightarrow> ?P c" by blast
  have run: "channel_cancel_lport_listener cb old fwd (connect_port fwd) opts sc1 = cancel_listeners cb ?P (all_slots sc1) False sc1"
  proof (cases "fwd_listen_path fwd")
    case None
    have "?P = (\<lambda>c. ctyp c = SSH_CHANNEL_PORT_LISTENER \<and> listening_port c = fwd_listen_port fwd \<and>
         (if connect_port fwd = CHANNEL_CANCEL_PORT_STATIC then host_port c \<noteq> 0 else host_port c = connect_port fwd) \<and>
         listening_addr c = fst (channel_fwd_bind_addr old (fwd_listen_host fwd) True opts))"
      using port(3) by (simp add: local_listener_of_def None fun_eq_iff)
    then show ?thesis by (simp add: channel_cancel_lport_listener_def channel_cancel_lport_listener_tcpip_def None u Let_def)
  next
    case (Some p)
    have "?P = (\<lambda>c. ctyp c = SSH_CHANNEL_UNIX_LISTENER \<and> listening_addr c = Some p)"
      by (simp add: local_listener_of_def Some fun_eq_iff)
    then show ?thesis by (simp add: channel_cancel_lport_listener_def channel_cancel_lport_listener_streamlocal_def Some)
  qed
  have "\<And>c. ?P c \<Longrightarrow> ctyp c \<noteq> SSH_CHANNEL_MUX_CLIENT" by (auto simp: local_listener_of_def split: if_splits)
  from cancel_added [OF cb this Q] show ?thesis unfolding run .
qed

lemma cancel_remote_added:
  assumes cb: "cleanup_cb cb" "total_cb cb" and port: "0 < fwd_listen_port fwd" "fwd_listen_port fwd < 65536"
    and set: "channel_setup_remote_fwd_listener A old bug gai sz fd fwd aport opts sc = Some (True, aport1, sc1)"
  shows "\<exists>sc2. channel_cancel_rport_listener cb fwd sc1 = Some (True, sc2) \<and> (\<forall>j. slot sc2 j = (case slot sc j of None \<Rightarrow> None | Some c \<Rightarrow> if remote_listener_of fwd c then None else Some c))"
proof -
  let ?P = "remote_listener_of fwd"
  have u: "u_short (fwd_listen_port fwd) = fwd_listen_port fwd" using port by (simp add: u_short_def)
  have ok: "check_rfwd_permission fwd sc" using set by (auto simp: channel_setup_remote_fwd_listener_def split: if_splits)
  have "(\<exists>Q. adds Q sc sc1 \<and> has_channel Q sc1 \<and> (\<forall>c. Q c \<longrightarrow> ?P c)) \<and> channel_cancel_rport_listener cb fwd sc1 = cancel_listeners cb ?P (all_slots sc1) False sc1"
  proof (cases "fwd_listen_path fwd")
    case None
    have "channel_setup_fwd_listener_tcpip A old bug gai SSH_CHANNEL_RPORT_LISTENER fwd aport opts sc = Some (True, aport1, sc1)"
      using set ok None by (simp add: channel_setup_remote_fwd_listener_def)
    moreover have "fwd_listen_port fwd \<noteq> 0 \<or> aport = None" using port by simp
    ultimately obtain host Q where host: "fwd_listen_host fwd = Some host"
      and Q: "adds Q sc sc1" "has_channel Q sc1" "\<And>c. Q c \<Longrightarrow> ?P c"
      using tcpip_adds None by (fastforce simp: Let_def remote_listener_of_def listens_for_def)
    have "?P = (\<lambda>c. ctyp c = SSH_CHANNEL_RPORT_LISTENER \<and> path c = Some host \<and> listening_port c = fwd_listen_port fwd)"
      by (simp add: remote_listener_of_def None host fun_eq_iff)
    then show ?thesis using Q
      by (auto simp: channel_cancel_rport_listener_def channel_cancel_rport_listener_tcpip_def None host u)
  next
    case (Some p)
    then have "channel_setup_fwd_listener_streamlocal A sz fd SSH_CHANNEL_RUNIX_LISTENER fwd sc = Some (True, sc1)"
      using set ok by (auto simp: channel_setup_remote_fwd_listener_def)
    from streamlocal_adds [OF this] have Q: "\<exists>Q. adds Q sc sc1 \<and> has_channel Q sc1 \<and> (\<forall>c. Q c \<longrightarrow> ?P c)"
      using Some by (auto simp: Let_def remote_listener_of_def)
    have "?P = (\<lambda>c. ctyp c = SSH_CHANNEL_RUNIX_LISTENER \<and> path c = Some p)"
      by (simp add: remote_listener_of_def Some fun_eq_iff)
    then show ?thesis using Q
      by (simp add: channel_cancel_rport_listener_def channel_cancel_rport_listener_streamlocal_def Some)
  qed
  then obtain Q where Q: "adds Q sc sc1" "has_channel Q sc1" "\<And>c. Q c \<Longrightarrow> ?P c"
    and run: "channel_cancel_rport_listener cb fwd sc1 = cancel_listeners cb ?P (all_slots sc1) False sc1" by blast
  have "\<And>c. ?P c \<Longrightarrow> ctyp c \<noteq> SSH_CHANNEL_MUX_CLIENT" by (auto simp: remote_listener_of_def split: if_splits)
  from cancel_added [OF cb this Q] show ?thesis unfolding run .
qed

text \<open>C38. Setting a listener up and cancelling it leave the channel table as it was: whatever channels the set-up of a
  local or of a remote forwarding creates (one for every address that could be bound), the cancellation of the same
  forwarding returns, reports success and frees them all; of the channels that were there before it frees only listeners
  of the same forwarding.\<close>

theorem forward_listener_cancelled:
  assumes "cleanup_cb cb" "total_cb cb" "0 < fwd_listen_port fwd" "fwd_listen_port fwd < 65536"
    "connect_port fwd \<noteq> CHANNEL_CANCEL_PORT_STATIC"
  shows "(channel_setup_local_fwd_listener A old bug gai sz fd fwd opts sc = Some (True, sc1) \<longrightarrow>
      (\<exists>sc2. channel_cancel_lport_listener cb old fwd (connect_port fwd) opts sc1 = Some (True, sc2) \<and>
        (\<forall>j. slot sc2 j = (case slot sc j of None \<Rightarrow> None | Some c \<Rightarrow> if local_listener_of old opts fwd c then None else Some c)))) \<and>
    (channel_setup_remote_fwd_listener A old bug gai sz fd fwd aport opts sc = Some (True, aport1, sc1) \<longrightarrow>
      (\<exists>sc2. channel_cancel_rport_listener cb fwd sc1 = Some (True, sc2) \<and>
        (\<forall>j. slot sc2 j = (case slot sc j of None \<Rightarrow> None | Some c \<Rightarrow> if remote_listener_of fwd c then None else Some c))))"
  by (rule conjI; rule impI) (rule cancel_local_added [OF assms], assumption, rule cancel_remote_added [OF assms(1-4)], assumption)

definition ex_try :: addr_try where
  "ex_try = \<lparr>inet_family = True, nameinfo_ok = True, socket_fd = 7, bind_ok = True, listen_ok = True, local_port = 8080\<rparr>"

theorem forward_listener_cancelled_witness:
  "\<exists>sc1 sc2. channel_setup_local_fwd_listener ex_alloc False False (\<lambda>a w. Some [ex_try]) 108 (-1) ex_fwd
       \<lparr>gateway_ports = 0\<rparr> ex_mux = Some (True, sc1) \<and>
     channel_cancel_lport_listener ex_cb False ex_fwd 80 \<lparr>gateway_ports = 0\<rparr> sc1 = Some (True, sc2) \<and>
     slot sc2 0 = Some ex_mux_client"
proof -
  obtain i sc0 where new: "channel_new ex_alloc ''port listener'' SSH_CHANNEL_PORT_LISTENER 7 7 (-1) CHAN_TCP_WINDOW_DEFAULT
      CHAN_TCP_PACKET_DEFAULT CHAN_EXTENDED_IGNORE ''port listener'' ex_mux = Some (i, sc0)"
    using channel_new_total [of ex_alloc ex_mux] ex_alloc_ok
    by (fastforce simp: ex_mux_def channel_init_channels_def CHANNELS_MAX_CHANNELS_def)
  obtain c where c: "slot sc0 i = Some c" using channel_new_slot(3) [OF new] by blast
  have "\<exists>sc1. channel_setup_local_fwd_listener ex_alloc False False (\<lambda>a w. Some [ex_try]) 108 (-1) ex_fwd
       \<lparr>gateway_ports = 0\<rparr> ex_mux = Some (True, sc1)"
    by (simp add: channel_setup_local_fwd_listener_def channel_setup_fwd_listener_tcpip_def channel_fwd_bind_addr_def
        ex_fwd_def NI_MAXHOST_def listen_on_def ex_try_def new c)
  then obtain sc1 where set: "channel_setup_local_fwd_listener ex_alloc False False (\<lambda>a w. Some [ex_try]) 108 (-1) ex_fwd
       \<lparr>gateway_ports = 0\<rparr> ex_mux = Some (True, sc1)" ..
  have port: "0 < fwd_listen_port ex_fwd" "fwd_listen_port ex_fwd < 65536" "connect_port ex_fwd \<noteq> CHANNEL_CANCEL_PORT_STATIC"
    "connect_port ex_fwd = 80" by (simp_all add: ex_fwd_def CHANNEL_CANCEL_PORT_STATIC_def)
  have "total_cb ex_cb" by (simp add: total_cb_def ex_cb_def)
  from forward_listener_cancelled [OF ex_cb_ok this port(1-3)] set obtain sc2 where
    sc2: "channel_cancel_lport_listener ex_cb False ex_fwd 80 \<lparr>gateway_ports = 0\<rparr> sc1 = Some (True, sc2)"
      "slot sc2 0 = (case slot ex_mux 0 of None \<Rightarrow> None | Some c \<Rightarrow>
          if local_listener_of False \<lparr>gateway_ports = 0\<rparr> ex_fwd c then None else Some c)"
    unfolding port(4) by blast
  have "slot sc2 0 = Some ex_mux_client" using sc2(2) by (simp add: local_listener_of_def ex_fwd_def ex_mux_client_def)
  then show ?thesis using set sc2(1) by blast
qed

end
