(* ===== verification/Digest.thy ===== *)
theory Digest
  imports Pkix_Prelude "HOL-Library.Monad_Syntax"
begin

text \<open>
  Message digests (\<^verbatim>\<open>digest-openssl.c\<close>) and the HMAC built on them (\<^verbatim>\<open>hmac.c\<close>). The digests of OpenSSL are the
  fields of the argument \<open>md_ops\<close>; \<open>None\<close> is their failure. In \<^verbatim>\<open>hmac.c\<close> every failure is the value -1, here \<open>None\<close>.
\<close>

unbundle bit_operations_syntax

section \<open>Digests\<close>

record 'd md_ops =
  md_new :: "'d option"
  md_init :: "'d \<Rightarrow> string \<Rightarrow> 'd option"
  md_update :: "'d \<Rightarrow> byte list \<Rightarrow> 'd option"
  md_final :: "'d \<Rightarrow> (byte list \<times> 'd) option"
  md_copy :: "'d \<Rightarrow> 'd option"
  md_block_size :: "'d \<Rightarrow> nat"
  md_oneshot :: "string \<Rightarrow> byte list \<Rightarrow> byte list option"
  md_fips :: "(string \<Rightarrow> bool) option"

record 'd ssh_digest_ctx =
  dalg :: int
  mdctx :: 'd

record ssh_digest =
  did :: int
  dname :: string
  digest_len :: nat
  mdfunc :: string

definition SSH_DIGEST_MAX_LENGTH :: nat where "SSH_DIGEST_MAX_LENGTH = 64"
definition SSH_DIGEST_MD5 :: int where "SSH_DIGEST_MD5 = 0"
definition SSH_DIGEST_SHA1 :: int where "SSH_DIGEST_SHA1 = 1"
definition SSH_DIGEST_SHA256 :: int where "SSH_DIGEST_SHA256 = 2"
definition SSH_DIGEST_SHA384 :: int where "SSH_DIGEST_SHA384 = 3"
definition SSH_DIGEST_SHA512 :: int where "SSH_DIGEST_SHA512 = 4"
definition SSH_DIGEST_MAX :: int where "SSH_DIGEST_MAX = 5"

lemmas digest_ids = SSH_DIGEST_MD5_def SSH_DIGEST_SHA1_def SSH_DIGEST_SHA256_def SSH_DIGEST_SHA384_def
  SSH_DIGEST_SHA512_def SSH_DIGEST_MAX_def

definition digests :: "ssh_digest list" where
  "digests =
    [\<lparr>did = SSH_DIGEST_MD5, dname = ''MD5'', digest_len = 16, mdfunc = ''EVP_md5''\<rparr>,
     \<lparr>did = SSH_DIGEST_SHA1, dname = ''SHA1'', digest_len = 20, mdfunc = ''EVP_sha1''\<rparr>,
     \<lparr>did = SSH_DIGEST_SHA256, dname = ''SHA256'', digest_len = 32, mdfunc = ''EVP_sha256''\<rparr>,
     \<lparr>did = SSH_DIGEST_SHA384, dname = ''SHA384'', digest_len = 48, mdfunc = ''EVP_sha384''\<rparr>,
     \<lparr>did = SSH_DIGEST_SHA512, dname = ''SHA512'', digest_len = 64, mdfunc = ''EVP_sha512''\<rparr>]"

definition ssh_digest_by_alg :: "'d md_ops \<Rightarrow> int \<Rightarrow> ssh_digest option" where
  "ssh_digest_by_alg M alg =
    (if alg < 0 \<or> alg \<ge> SSH_DIGEST_MAX then None
     else let d = digests ! nat alg in
       if did d \<noteq> alg then None
       else (case md_fips M of None \<Rightarrow> Some d | Some ok \<Rightarrow> if ok (mdfunc d) then Some d else None))"

definition ssh_digest_bytes :: "'d md_ops \<Rightarrow> int \<Rightarrow> nat" where
  "ssh_digest_bytes M alg = (case ssh_digest_by_alg M alg of None \<Rightarrow> 0 | Some d \<Rightarrow> digest_len d)"

definition ssh_digest_alg_name :: "'d md_ops \<Rightarrow> int \<Rightarrow> string option" where
  "ssh_digest_alg_name M alg = map_option dname (ssh_digest_by_alg M alg)"

definition ssh_digest_maxbytes :: "'d md_ops \<Rightarrow> int" where
  "ssh_digest_maxbytes M = (case find (\<lambda>k. ssh_digest_by_alg M k \<noteq> None) (rev [0..SSH_DIGEST_MAX - 1]) of
     None \<Rightarrow> -1 | Some k \<Rightarrow> did (digests ! nat k))"

definition ssh_digest_blocksize :: "'d md_ops \<Rightarrow> 'd ssh_digest_ctx \<Rightarrow> nat" where
  "ssh_digest_blocksize M ctx = md_block_size M (mdctx ctx)"

definition ssh_digest_start :: "allocator \<Rightarrow> 'd md_ops \<Rightarrow> int \<Rightarrow> 'd ssh_digest_ctx option" where
  "ssh_digest_start A M alg =
    do { d \<leftarrow> ssh_digest_by_alg M alg;
         (if malloc_ok A 16 then Some () else None);
         x \<leftarrow> md_new M;
         y \<leftarrow> md_init M x (mdfunc d);
         Some \<lparr>dalg = alg, mdctx = y\<rparr> }"

definition ssh_digest_copy_state :: "'d md_ops \<Rightarrow> 'd ssh_digest_ctx \<Rightarrow> 'd ssh_digest_ctx \<Rightarrow> 'd ssh_digest_ctx res" where
  "ssh_digest_copy_state M from to =
    (if dalg from \<noteq> dalg to then Inl SSH_ERR_INVALID_ARGUMENT
     else (case md_copy M (mdctx from) of None \<Rightarrow> Inl SSH_ERR_LIBCRYPTO_ERROR | Some x \<Rightarrow> Inr (to\<lparr>mdctx := x\<rparr>)))"

definition ssh_digest_update :: "'d md_ops \<Rightarrow> 'd ssh_digest_ctx \<Rightarrow> byte list \<Rightarrow> 'd ssh_digest_ctx res" where
  "ssh_digest_update M ctx m =
    (case md_update M (mdctx ctx) m of None \<Rightarrow> Inl SSH_ERR_LIBCRYPTO_ERROR | Some x \<Rightarrow> Inr (ctx\<lparr>mdctx := x\<rparr>))"

text \<open>The result is what is written to the front of the caller's array of \<open>dlen\<close> bytes.\<close>

definition ssh_digest_final :: "'d md_ops \<Rightarrow> 'd ssh_digest_ctx \<Rightarrow> nat \<Rightarrow> (byte list \<times> 'd ssh_digest_ctx) res" where
  "ssh_digest_final M ctx dlen =
    (case ssh_digest_by_alg M (dalg ctx) of None \<Rightarrow> Inl SSH_ERR_INVALID_ARGUMENT
     | Some d \<Rightarrow>
         if dlen \<ge> 2 ^ 32 \<or> dlen < digest_len d then Inl SSH_ERR_INVALID_ARGUMENT
         else (case md_final M (mdctx ctx) of None \<Rightarrow> Inl SSH_ERR_LIBCRYPTO_ERROR
           | Some (h, x) \<Rightarrow> if length h \<noteq> digest_len d then Inl SSH_ERR_INTERNAL_ERROR else Inr (h, ctx\<lparr>mdctx := x\<rparr>)))"

definition ssh_digest_memory :: "'d md_ops \<Rightarrow> int \<Rightarrow> byte list \<Rightarrow> nat \<Rightarrow> byte list res" where
  "ssh_digest_memory M alg m dlen =
    (case ssh_digest_by_alg M alg of None \<Rightarrow> Inl SSH_ERR_INVALID_ARGUMENT
     | Some d \<Rightarrow>
         if dlen \<ge> 2 ^ 32 \<or> dlen < digest_len d then Inl SSH_ERR_INVALID_ARGUMENT
         else (case md_oneshot M (mdfunc d) m of None \<Rightarrow> Inl SSH_ERR_LIBCRYPTO_ERROR | Some h \<Rightarrow> Inr h))"

section \<open>HMAC\<close>

record 'd ssh_hmac_ctx =
  halg :: int
  ictx :: "'d ssh_digest_ctx"
  octx :: "'d ssh_digest_ctx"
  hdigest :: "'d ssh_digest_ctx"
  hbuf :: "byte list"

definition ok_of :: "'a res \<Rightarrow> 'a option" where
  "ok_of r = (case r of Inl _ \<Rightarrow> None | Inr x \<Rightarrow> Some x)"

lemma ok_of_simps [simp]: "ok_of (Inr x) = Some x" "ok_of (Inl e) = None"
  by (simp_all add: ok_of_def)

definition ssh_hmac_bytes :: "'d md_ops \<Rightarrow> int \<Rightarrow> nat" where
  "ssh_hmac_bytes M alg = ssh_digest_bytes M alg"

definition ssh_hmac_start :: "allocator \<Rightarrow> 'd md_ops \<Rightarrow> int \<Rightarrow> 'd ssh_hmac_ctx option" where
  "ssh_hmac_start A M alg =
    do { (if malloc_ok A 48 then Some () else None);
         i \<leftarrow> ssh_digest_start A M alg;
         oc \<leftarrow> ssh_digest_start A M alg;
         d \<leftarrow> ssh_digest_start A M alg;
         b \<leftarrow> calloc A (ssh_digest_blocksize M i) 1;
         Some \<lparr>halg = alg, ictx = i, octx = oc, hdigest = d, hbuf = b\<rparr> }"

definition hmac_key :: "'d md_ops \<Rightarrow> 'd ssh_hmac_ctx \<Rightarrow> byte list \<Rightarrow> 'd ssh_hmac_ctx option" where
  "hmac_key M ctx key =
    do { k \<leftarrow> (if length key \<le> length (hbuf ctx) then Some key
                else ok_of (ssh_digest_memory M (halg ctx) key (length (hbuf ctx))));
         let b = map (\<lambda>x. x XOR 0x36) (write_at 0 k (hbuf ctx));
         i \<leftarrow> ok_of (ssh_digest_update M (ictx ctx) b);
         oc \<leftarrow> ok_of (ssh_digest_update M (octx ctx) (map (\<lambda>x. x XOR (0x36 XOR 0x5c)) b));
         Some (ctx\<lparr>ictx := i, octx := oc, hbuf := replicate (length (hbuf ctx)) 0\<rparr>) }"

definition ssh_hmac_init :: "'d md_ops \<Rightarrow> 'd ssh_hmac_ctx \<Rightarrow> byte list option \<Rightarrow> 'd ssh_hmac_ctx option" where
  "ssh_hmac_init M ctx key =
    do { c \<leftarrow> (case key of None \<Rightarrow> Some ctx | Some k \<Rightarrow> hmac_key M ctx k);
         d \<leftarrow> ok_of (ssh_digest_copy_state M (ictx c) (hdigest c));
         Some (c\<lparr>hdigest := d\<rparr>) }"

definition ssh_hmac_update :: "'d md_ops \<Rightarrow> 'd ssh_hmac_ctx \<Rightarrow> byte list \<Rightarrow> 'd ssh_hmac_ctx option" where
  "ssh_hmac_update M ctx m = do { d \<leftarrow> ok_of (ssh_digest_update M (hdigest ctx) m); Some (ctx\<lparr>hdigest := d\<rparr>) }"

definition ssh_hmac_final :: "'d md_ops \<Rightarrow> 'd ssh_hmac_ctx \<Rightarrow> nat \<Rightarrow> (byte list \<times> 'd ssh_hmac_ctx) option" where
  "ssh_hmac_final M ctx dlen =
    do { let len = ssh_digest_bytes M (halg ctx);
         (if dlen < len then None else Some ());
         (h, _) \<leftarrow> ok_of (ssh_digest_final M (hdigest ctx) len);
         let b = write_at 0 h (hbuf ctx);
         d1 \<leftarrow> ok_of (ssh_digest_copy_state M (octx ctx) (hdigest ctx));
         d2 \<leftarrow> ok_of (ssh_digest_update M d1 (take len b));
         (r, d3) \<leftarrow> ok_of (ssh_digest_final M d2 dlen);
         Some (r, ctx\<lparr>hdigest := d3, hbuf := b\<rparr>) }"

section \<open>The specification of HMAC\<close>

text \<open>HMAC (RFC 2104) over a hash \<open>h\<close> with blocks of \<open>B\<close> bytes.\<close>

definition hmac_block :: "(byte list \<Rightarrow> byte list) \<Rightarrow> nat \<Rightarrow> byte list \<Rightarrow> byte list" where
  "hmac_block h B key = (let k = (if length key \<le> B then key else h key) in k @ replicate (B - length k) 0)"

definition hmac :: "(byte list \<Rightarrow> byte list) \<Rightarrow> nat \<Rightarrow> byte list \<Rightarrow> byte list \<Rightarrow> byte list" where
  "hmac h B key m =
    h (map (\<lambda>x. x XOR 0x5c) (hmac_block h B key) @ h (map (\<lambda>x. x XOR 0x36) (hmac_block h B key) @ m))"

text \<open>
  The documented behaviour of OpenSSL's digests, where it does not run out of memory: \<open>ab x t m\<close> says that the context
  \<open>x\<close> of the digest \<open>t\<close> has absorbed \<open>m\<close>; \<open>H t\<close> is the hash function and \<open>B t\<close> the size of its blocks.
\<close>

definition md_good ::
    "'d md_ops \<Rightarrow> (string \<Rightarrow> byte list \<Rightarrow> byte list) \<Rightarrow> (string \<Rightarrow> nat) \<Rightarrow> ('d \<Rightarrow> string \<Rightarrow> byte list \<Rightarrow> bool) \<Rightarrow> bool" where
  "md_good M H B ab \<longleftrightarrow>
    md_new M \<noteq> None \<and> (\<forall>x t. \<exists>y. md_init M x t = Some y \<and> ab y t []) \<and>
    (\<forall>x t m d. ab x t m \<longrightarrow> (\<exists>y. md_update M x d = Some y \<and> ab y t (m @ d))) \<and>
    (\<forall>x t m. ab x t m \<longrightarrow> md_block_size M x = B t \<and> (\<exists>y. md_copy M x = Some y \<and> ab y t m) \<and> (\<exists>y. md_final M x = Some (H t m, y))) \<and>
    (\<forall>t m. md_oneshot M t m = Some (H t m)) \<and>
    (\<forall>d \<in> set digests. digest_len d \<le> B (mdfunc d) \<and> B (mdfunc d) < 2 ^ 32 \<and> (\<forall>m. length (H (mdfunc d) m) = digest_len d))"

text \<open>One message with the key of the context, in pieces, as \<^verbatim>\<open>mac_compute\<close> does it; and several messages in a row.\<close>

fun hmac_updates :: "'d md_ops \<Rightarrow> byte list list \<Rightarrow> 'd ssh_hmac_ctx \<Rightarrow> 'd ssh_hmac_ctx option" where
  "hmac_updates M [] c = Some c"
| "hmac_updates M (m # ms) c = do { c1 \<leftarrow> ssh_hmac_update M c m; hmac_updates M ms c1 }"

definition hmac_message :: "'d md_ops \<Rightarrow> nat \<Rightarrow> byte list list \<Rightarrow> 'd ssh_hmac_ctx \<Rightarrow> (byte list \<times> 'd ssh_hmac_ctx) option" where
  "hmac_message M dlen ms c =
    do { c1 \<leftarrow> ssh_hmac_init M c None; c2 \<leftarrow> hmac_updates M ms c1; ssh_hmac_final M c2 dlen }"

fun hmac_all :: "'d md_ops \<Rightarrow> nat \<Rightarrow> byte list list list \<Rightarrow> 'd ssh_hmac_ctx \<Rightarrow> byte list list option" where
  "hmac_all M dlen [] c = Some []"
| "hmac_all M dlen (ms # mss) c =
    do { (r, c1) \<leftarrow> hmac_message M dlen ms c; rs \<leftarrow> hmac_all M dlen mss c1; Some (r # rs) }"

lemma md_goodD:
  assumes "md_good M H B ab"
  shows "md_new M \<noteq> None" "\<exists>y. md_init M x t = Some y \<and> ab y t []"
    "ab x t m \<Longrightarrow> \<exists>y. md_update M x d = Some y \<and> ab y t (m @ d)" "ab x t m \<Longrightarrow> md_block_size M x = B t"
    "ab x t m \<Longrightarrow> \<exists>y. md_copy M x = Some y \<and> ab y t m" "ab x t m \<Longrightarrow> \<exists>y. md_final M x = Some (H t m, y)"
    "md_oneshot M t m = Some (H t m)"
    "g \<in> set digests \<Longrightarrow> digest_len g \<le> B (mdfunc g) \<and> B (mdfunc g) < 2 ^ 32 \<and> length (H (mdfunc g) m) = digest_len g"
  using assms unfolding md_good_def by blast+

lemma by_alg_in:
  assumes "ssh_digest_by_alg M alg = Some d"
  shows "d \<in> set digests \<and> did d = alg"
proof -
  have d: "digests ! nat alg = d" "did d = alg" "0 \<le> alg" "alg < 5"
    using assms by (auto simp: ssh_digest_by_alg_def Let_def SSH_DIGEST_MAX_def split: if_splits option.splits)
  have "nat alg < length digests" using d(3,4) by (simp add: digests_def)
  then show ?thesis using d(1,2) nth_mem by blast
qed

definition hmac_keyed ::
    "'d md_ops \<Rightarrow> ('d \<Rightarrow> string \<Rightarrow> byte list \<Rightarrow> bool) \<Rightarrow> ssh_digest \<Rightarrow> nat \<Rightarrow> byte list \<Rightarrow> 'd ssh_hmac_ctx \<Rightarrow> bool" where
  "hmac_keyed M ab d n kb c \<longleftrightarrow> ssh_digest_by_alg M (halg c) = Some d \<and> length (hbuf c) = n \<and>
    dalg (ictx c) = halg c \<and> dalg (octx c) = halg c \<and> dalg (hdigest c) = halg c \<and>
    ab (mdctx (ictx c)) (mdfunc d) (map (\<lambda>x. x XOR 0x36) kb) \<and> ab (mdctx (octx c)) (mdfunc d) (map (\<lambda>x. x XOR 0x5c) kb)"

lemma digest_start_good:
  assumes "md_good M H B ab" "\<forall>n. malloc_ok A n" "ssh_digest_by_alg M alg = Some d"
  shows "\<exists>x. ssh_digest_start A M alg = Some \<lparr>dalg = alg, mdctx = x\<rparr> \<and> ab x (mdfunc d) []"
proof -
  obtain x where x: "md_new M = Some x" using md_goodD(1) [OF assms(1)] by blast
  obtain y where "md_init M x (mdfunc d) = Some y" "ab y (mdfunc d) []" using md_goodD(2) [OF assms(1)] by blast
  then show ?thesis using x assms(2,3) by (simp add: ssh_digest_start_def)
qed

lemma digest_update_good:
  assumes "md_good M H B ab" "ab (mdctx c) t m"
  shows "\<exists>y. ssh_digest_update M c d = Inr (c\<lparr>mdctx := y\<rparr>) \<and> ab y t (m @ d)"
  using md_goodD(3) [OF assms, of d] by (auto simp: ssh_digest_update_def)

lemma digest_copy_good:
  assumes "md_good M H B ab" "ab (mdctx c) t m" "dalg c = dalg c'"
  shows "\<exists>y. ssh_digest_copy_state M c c' = Inr (c'\<lparr>mdctx := y\<rparr>) \<and> ab y t m"
  using md_goodD(5) [OF assms(1,2)] assms(3) by (auto simp: ssh_digest_copy_state_def)

lemma digest_final_good:
  assumes "md_good M H B ab" "ssh_digest_by_alg M (dalg c) = Some d" "ab (mdctx c) (mdfunc d) m" "digest_len d \<le> n" "n < 2 ^ 32"
  shows "\<exists>y. ssh_digest_final M c n = Inr (H (mdfunc d) m, c\<lparr>mdctx := y\<rparr>)"
proof -
  have "length (H (mdfunc d) m) = digest_len d" using md_goodD(8) [OF assms(1)] by_alg_in [OF assms(2)] by blast
  then show ?thesis using md_goodD(6) [OF assms(1,3)] assms(2,4,5) by (auto simp: ssh_digest_final_def)
qed

lemma xor_pads: "((x :: byte) XOR 0x36) XOR (0x36 XOR 0x5c) = x XOR 0x5c"
proof -
  have "(x XOR 0x36) XOR (0x36 XOR 0x5c) = x XOR ((0x36 XOR 0x36) XOR 0x5c)" by (simp only: xor.assoc)
  then show ?thesis by (simp only: xor_self_eq xor.left_neutral)
qed

lemma hmac_init_keyed:
  assumes g: "md_good M H B ab" and al: "\<forall>n. malloc_ok A n" and d: "ssh_digest_by_alg M alg = Some d"
  shows "\<exists>c0 c1. ssh_hmac_start A M alg = Some c0 \<and> ssh_hmac_init M c0 (Some key) = Some c1 \<and>
    hmac_keyed M ab d (B (mdfunc d)) (hmac_block (H (mdfunc d)) (B (mdfunc d)) key) c1"
proof -
  let ?n = "B (mdfunc d)" and ?h = "H (mdfunc d)" and ?kb = "hmac_block (H (mdfunc d)) (B (mdfunc d)) key"
  have in_d: "d \<in> set digests" using by_alg_in [OF d] by simp
  note len = md_goodD(8) [OF g in_d]
  obtain x where x: "ssh_digest_start A M alg = Some \<lparr>dalg = alg, mdctx = x\<rparr>" "ab x (mdfunc d) []"
    using digest_start_good [OF g al d] by blast
  have bs: "md_block_size M x = ?n" using md_goodD(4) [OF g x(2)] .
  let ?c0 = "\<lparr>halg = alg, ictx = \<lparr>dalg = alg, mdctx = x\<rparr>, octx = \<lparr>dalg = alg, mdctx = x\<rparr>, hdigest = \<lparr>dalg = alg, mdctx = x\<rparr>,
    hbuf = replicate ?n 0\<rparr>"
  have c0: "ssh_hmac_start A M alg = Some ?c0"
    using al x(1) bs by (simp add: ssh_hmac_start_def calloc_def ssh_digest_blocksize_def)
  let ?k = "if length key \<le> ?n then key else ?h key"
  have k: "(if length key \<le> ?n then Some key else ok_of (ssh_digest_memory M alg key ?n)) = Some ?k"
    using d len [of key] md_goodD(7) [OF g] by (simp add: ssh_digest_memory_def)
  have kb: "write_at 0 ?k (replicate ?n 0) = ?kb"
    using len [of key] by (simp add: write_at_def hmac_block_def Let_def)
  obtain i where i: "ssh_digest_update M \<lparr>dalg = alg, mdctx = x\<rparr> (map (\<lambda>x. x XOR 0x36) ?kb) = Inr \<lparr>dalg = alg, mdctx = i\<rparr>"
      "ab i (mdfunc d) (map (\<lambda>x. x XOR 0x36) ?kb)"
    using digest_update_good [OF g, of "\<lparr>dalg = alg, mdctx = x\<rparr>" "mdfunc d" "[]" "map (\<lambda>x. x XOR 0x36) ?kb"] x(2) by auto
  obtain j where j: "ssh_digest_update M \<lparr>dalg = alg, mdctx = x\<rparr> (map (\<lambda>x. x XOR 0x5c) ?kb) = Inr \<lparr>dalg = alg, mdctx = j\<rparr>"
      "ab j (mdfunc d) (map (\<lambda>x. x XOR 0x5c) ?kb)"
    using digest_update_good [OF g, of "\<lparr>dalg = alg, mdctx = x\<rparr>" "mdfunc d" "[]" "map (\<lambda>x. x XOR 0x5c) ?kb"] x(2) by auto
  have op: "map (\<lambda>x. x XOR (0x36 XOR 0x5c)) (map (\<lambda>x. x XOR 0x36) ?kb) = map (\<lambda>x. x XOR 0x5c) ?kb"
    unfolding map_map comp_def xor_pads ..
  have "hmac_key M ?c0 key = Some (?c0\<lparr>ictx := \<lparr>dalg = alg, mdctx = i\<rparr>, octx := \<lparr>dalg = alg, mdctx = j\<rparr>\<rparr>)"
    unfolding hmac_key_def Let_def
    by (simp only: ssh_hmac_ctx.simps length_replicate k Option.bind.bind_lunit kb i(1) j(1) op ok_of_simps)
  moreover obtain y where "ssh_digest_copy_state M \<lparr>dalg = alg, mdctx = i\<rparr> \<lparr>dalg = alg, mdctx = x\<rparr> = Inr \<lparr>dalg = alg, mdctx = y\<rparr>"
    using digest_copy_good [OF g, of "\<lparr>dalg = alg, mdctx = i\<rparr>" "mdfunc d" _ "\<lparr>dalg = alg, mdctx = x\<rparr>"] i(2) by auto
  ultimately show ?thesis using c0 i(2) j(2) d by (simp add: ssh_hmac_init_def hmac_keyed_def)
qed


lemma hmac_updates_good:
  assumes "md_good M H B ab" "ab (mdctx (hdigest c)) t m"
  shows "\<exists>y. hmac_updates M ms c = Some (c\<lparr>hdigest := (hdigest c)\<lparr>mdctx := y\<rparr>\<rparr>) \<and> ab y t (m @ concat ms)"
  using assms(2)
proof (induction ms arbitrary: c m)
  case Nil
  then show ?case by (intro exI [of _ "mdctx (hdigest c)"]) simp
next
  case (Cons x ms)
  obtain y where y: "ssh_digest_update M (hdigest c) x = Inr ((hdigest c)\<lparr>mdctx := y\<rparr>)" "ab y t (m @ x)"
    using digest_update_good [OF assms(1) Cons.prems] by blast
  then show ?case using Cons.IH [of "c\<lparr>hdigest := (hdigest c)\<lparr>mdctx := y\<rparr>\<rparr>" "m @ x"] by (simp add: ssh_hmac_update_def)
qed

lemma hmac_message_good:
  assumes g: "md_good M H B ab" and k: "hmac_keyed M ab d (B (mdfunc d)) (hmac_block (H (mdfunc d)) (B (mdfunc d)) key) c"
    and n: "digest_len d \<le> dlen" "dlen < 2 ^ 32"
  shows "\<exists>c'. hmac_message M dlen ms c = Some (hmac (H (mdfunc d)) (B (mdfunc d)) key (concat ms), c') \<and>
    hmac_keyed M ab d (B (mdfunc d)) (hmac_block (H (mdfunc d)) (B (mdfunc d)) key) c'"
proof -
  let ?t = "mdfunc d" and ?kb = "hmac_block (H (mdfunc d)) (B (mdfunc d)) key"
  note kd = k [unfolded hmac_keyed_def]
  have bya: "ssh_digest_by_alg M (halg c) = Some d" using kd by simp
  then have len: "digest_len d \<le> B ?t" "B ?t < 2 ^ 32" "length (H ?t m) = digest_len d" for m
    using md_goodD(8) [OF g] by_alg_in by blast+
  obtain x where x: "ssh_digest_copy_state M (ictx c) (hdigest c) = Inr ((hdigest c)\<lparr>mdctx := x\<rparr>)" "ab x ?t (map (\<lambda>x. x XOR 0x36) ?kb)"
    using digest_copy_good [OF g, of "ictx c" ?t _ "hdigest c"] kd by auto
  let ?c1 = "c\<lparr>hdigest := (hdigest c)\<lparr>mdctx := x\<rparr>\<rparr>"
  obtain y where y: "hmac_updates M ms ?c1 = Some (c\<lparr>hdigest := (hdigest c)\<lparr>mdctx := y\<rparr>\<rparr>)"
      "ab y ?t (map (\<lambda>x. x XOR 0x36) ?kb @ concat ms)"
    using hmac_updates_good [OF g, of ?c1 ?t _ ms] x(2) by auto
  let ?h = "H ?t (map (\<lambda>x. x XOR 0x36) ?kb @ concat ms)"
  obtain y1 where f: "ssh_digest_final M ((hdigest c)\<lparr>mdctx := y\<rparr>) (digest_len d) = Inr (?h, (hdigest c)\<lparr>mdctx := y1\<rparr>)"
    using digest_final_good [OF g, of "(hdigest c)\<lparr>mdctx := y\<rparr>" d _ "digest_len d"] y(2) kd len by auto
  obtain z where z: "ssh_digest_copy_state M (octx c) ((hdigest c)\<lparr>mdctx := y\<rparr>) = Inr ((hdigest c)\<lparr>mdctx := z\<rparr>)"
      "ab z ?t (map (\<lambda>x. x XOR 0x5c) ?kb)"
    using digest_copy_good [OF g, of "octx c" ?t _ "(hdigest c)\<lparr>mdctx := y\<rparr>"] kd by auto
  obtain v where v: "ssh_digest_update M ((hdigest c)\<lparr>mdctx := z\<rparr>) ?h = Inr ((hdigest c)\<lparr>mdctx := v\<rparr>)"
      "ab v ?t (map (\<lambda>x. x XOR 0x5c) ?kb @ ?h)"
    using digest_update_good [OF g, of "(hdigest c)\<lparr>mdctx := z\<rparr>" ?t _ ?h] z(2) by auto
  obtain u where u: "ssh_digest_final M ((hdigest c)\<lparr>mdctx := v\<rparr>) dlen =
      Inr (H ?t (map (\<lambda>x. x XOR 0x5c) ?kb @ ?h), (hdigest c)\<lparr>mdctx := u\<rparr>)"
    using digest_final_good [OF g, of "(hdigest c)\<lparr>mdctx := v\<rparr>" d _ dlen] v(2) kd n by auto
  have b: "take (digest_len d) (write_at 0 ?h (hbuf c)) = ?h" using len(3) by (simp add: write_at_def)
  have dl: "ssh_digest_bytes M (halg c) = digest_len d" using bya by (simp add: ssh_digest_bytes_def)
  have "hmac_message M dlen ms c = Some (hmac (H ?t) (B ?t) key (concat ms),
      c\<lparr>hdigest := (hdigest c)\<lparr>mdctx := u\<rparr>, hbuf := write_at 0 ?h (hbuf c)\<rparr>)"
    using x(1) y(1) f z(1) v(1) u b dl n
    by (simp add: hmac_message_def ssh_hmac_init_def ssh_hmac_final_def hmac_def)
  then show ?thesis using kd len(1) len(3) by (simp add: hmac_keyed_def length_write_at)
qed

lemma hmac_all_good:
  assumes "md_good M H B ab" "hmac_keyed M ab d (B (mdfunc d)) (hmac_block (H (mdfunc d)) (B (mdfunc d)) key) c"
    and "digest_len d \<le> dlen" "dlen < 2 ^ 32"
  shows "hmac_all M dlen mss c = Some (map (\<lambda>ms. hmac (H (mdfunc d)) (B (mdfunc d)) key (concat ms)) mss)"
  using assms(2)
proof (induction mss arbitrary: c)
  case (Cons ms mss)
  from hmac_message_good [OF assms(1) Cons.prems assms(3,4), of ms] Cons.IH show ?case by auto
qed simp

text \<open>
  C39. \<^verbatim>\<open>hmac.c\<close> computes HMAC: for every digest of the table and every key, short or longer than a block, a context
  that is started and keyed computes, message after message, the HMAC of each message over the hash function that
  OpenSSL's digest implements, however the message is cut into pieces.
\<close>

theorem hmac_correct:
  assumes "md_good M H B ab" "\<forall>n. malloc_ok A n" "ssh_digest_by_alg M alg = Some d" "digest_len d \<le> dlen" "dlen < 2 ^ 32"
  shows "\<exists>c0 c1. ssh_hmac_start A M alg = Some c0 \<and> ssh_hmac_init M c0 (Some key) = Some c1 \<and>
    hmac_all M dlen mss c1 = Some (map (\<lambda>ms. hmac (H (mdfunc d)) (B (mdfunc d)) key (concat ms)) mss)"
  using hmac_init_keyed [OF assms(1-3), of key] hmac_all_good [OF assms(1) _ assms(4,5)] by blast

text \<open>A digest that keeps the first bytes of the message, for the witness.\<close>

definition ex_md_len :: "string \<Rightarrow> nat" where
  "ex_md_len t = (case find (\<lambda>d. mdfunc d = t) digests of None \<Rightarrow> 0 | Some d \<Rightarrow> digest_len d)"

definition ex_hash :: "string \<Rightarrow> byte list \<Rightarrow> byte list" where
  "ex_hash t m = take (ex_md_len t) (m @ replicate (ex_md_len t) 0)"

definition ex_md :: "(string \<times> byte list) md_ops" where
  "ex_md = \<lparr>md_new = Some ([], []), md_init = \<lambda>x t. Some (t, []), md_update = \<lambda>(t, m) d. Some (t, m @ d),
     md_final = \<lambda>(t, m). Some (ex_hash t m, (t, m)), md_copy = Some, md_block_size = \<lambda>_. 64,
     md_oneshot = \<lambda>t m. Some (ex_hash t m), md_fips = None\<rparr>"

lemma ex_md_len: "\<forall>d \<in> set digests. ex_md_len (mdfunc d) = digest_len d \<and> digest_len d \<le> 64"
  by (simp add: ex_md_len_def digests_def)

lemma length_ex_hash: "length (ex_hash t m) = ex_md_len t"
  by (simp add: ex_hash_def)

lemma ex_md_good: "md_good ex_md ex_hash (\<lambda>_. 64) (\<lambda>x t m. x = (t, m))"
  using ex_md_len by (auto simp: md_good_def ex_md_def length_ex_hash)

theorem hmac_correct_witness:
  "\<exists>c0 c1. ssh_hmac_start \<lparr>malloc_ok = \<lambda>n. True, pagesize = 4096\<rparr> ex_md SSH_DIGEST_SHA256 = Some c0 \<and>
    ssh_hmac_init ex_md c0 (Some [7]) = Some c1 \<and>
    hmac_all ex_md 64 [[[1], [2]], [[3]]] c1 = Some [hmac (ex_hash ''EVP_sha256'') 64 [7] [1, 2], hmac (ex_hash ''EVP_sha256'') 64 [7] [3]]"
  using hmac_correct [OF ex_md_good, of "\<lparr>malloc_ok = \<lambda>n. True, pagesize = 4096\<rparr>" SSH_DIGEST_SHA256
      "\<lparr>did = SSH_DIGEST_SHA256, dname = ''SHA256'', digest_len = 32, mdfunc = ''EVP_sha256''\<rparr>" 64 "[7]" "[[[1], [2]], [[3]]]"]
  by (simp add: ssh_digest_by_alg_def ex_md_def digests_def digest_ids)

end
