(* ===== verification/Chacha.thy ===== *)
theory Chacha
  imports Pkix_Prelude
begin

unbundle bit_operations_syntax

text \<open>
  The stream cipher of \<^verbatim>\<open>chacha.c\<close>: key and nonce set-up, the block function on sixteen 32-bit words, and
  \<^verbatim>\<open>chacha_encrypt_bytes\<close>, which is shown to add a key stream that depends only on the state.
\<close>

section \<open>The block function\<close>

type_synonym u32 = "32 word"

record chacha_ctx =
  input :: "u32 list"

definition ROTL32 :: "u32 \<Rightarrow> nat \<Rightarrow> u32" where
  "ROTL32 v n = (push_bit n v) OR (drop_bit (32 - n) v)"

definition U8TO32_LITTLE :: "byte list \<Rightarrow> u32" where
  "U8TO32_LITTLE p = ucast (p ! 0) OR push_bit 8 (ucast (p ! 1)) OR push_bit 16 (ucast (p ! 2)) OR push_bit 24 (ucast (p ! 3))"

definition U32TO8_LITTLE :: "u32 \<Rightarrow> byte list" where
  "U32TO8_LITTLE v = [ucast v, ucast (drop_bit 8 v), ucast (drop_bit 16 v), ucast (drop_bit 24 v)]"

definition QUARTERROUND :: "nat \<Rightarrow> nat \<Rightarrow> nat \<Rightarrow> nat \<Rightarrow> u32 list \<Rightarrow> u32 list" where
  "QUARTERROUND pa pb pc pd x =
    (let a = x ! pa; b = x ! pb; c = x ! pc; d = x ! pd;
         a = a + b; d = ROTL32 (d XOR a) 16;
         c = c + d; b = ROTL32 (b XOR c) 12;
         a = a + b; d = ROTL32 (d XOR a) 8;
         c = c + d; b = ROTL32 (b XOR c) 7
     in x[pa := a, pb := b, pc := c, pd := d])"

definition double_round :: "u32 list \<Rightarrow> u32 list" where
  "double_round x =
    (let x = QUARTERROUND 0 4 8 12 x;
         x = QUARTERROUND 1 5 9 13 x;
         x = QUARTERROUND 2 6 10 14 x;
         x = QUARTERROUND 3 7 11 15 x;
         x = QUARTERROUND 0 5 10 15 x;
         x = QUARTERROUND 1 6 11 12 x;
         x = QUARTERROUND 2 7 8 13 x
     in QUARTERROUND 3 4 9 14 x)"

primrec rounds :: "nat \<Rightarrow> u32 list \<Rightarrow> u32 list" where
  "rounds 0 x = x"
| "rounds (Suc n) x = rounds n (double_round x)"

text \<open>The words of one block before the message is added.\<close>

definition block_words :: "u32 list \<Rightarrow> u32 list" where
  "block_words j = map2 (+) (rounds 10 j) j"

text \<open>The message block \<open>m\<close> of 64 bytes is read word by word, added and written back.\<close>

definition crypt_block :: "u32 list \<Rightarrow> byte list \<Rightarrow> byte list" where
  "crypt_block j m = concat (map (\<lambda>i. U32TO8_LITTLE (block_words j ! i XOR U8TO32_LITTLE (drop (4 * i) m))) [0..<16])"

definition next_counter :: "u32 list \<Rightarrow> u32 list" where
  "next_counter j =
    (let j12 = j ! 12 + 1 in if j12 = 0 then j[12 := j12, 13 := j ! 13 + 1] else j[12 := j12])"

section \<open>Set-up and encryption\<close>

definition ascii :: "string \<Rightarrow> byte list" where
  "ascii s = map of_char s"

definition sigma :: "byte list" where "sigma = ascii ''expand 32-byte k''"
definition tau :: "byte list" where "tau = ascii ''expand 16-byte k''"

definition chacha_keysetup :: "chacha_ctx \<Rightarrow> byte list \<Rightarrow> nat \<Rightarrow> chacha_ctx" where
  "chacha_keysetup x k kbits =
    (let w = \<lambda>p i. U8TO32_LITTLE (drop i p);
         constants = (if kbits = 256 then sigma else tau);
         k2 = (if kbits = 256 then drop 16 k else k)
     in x\<lparr>input := (input x)[4 := w k 0, 5 := w k 4, 6 := w k 8, 7 := w k 12,
                             8 := w k2 0, 9 := w k2 4, 10 := w k2 8, 11 := w k2 12,
                             0 := w constants 0, 1 := w constants 4, 2 := w constants 8, 3 := w constants 12]\<rparr>)"

definition chacha_ivsetup :: "chacha_ctx \<Rightarrow> byte list \<Rightarrow> byte list option \<Rightarrow> chacha_ctx" where
  "chacha_ivsetup x iv counter =
    x\<lparr>input := (input x)[12 := (case counter of None \<Rightarrow> 0 | Some c \<Rightarrow> U8TO32_LITTLE c),
                         13 := (case counter of None \<Rightarrow> 0 | Some c \<Rightarrow> U8TO32_LITTLE (drop 4 c)),
                         14 := U8TO32_LITTLE iv, 15 := U8TO32_LITTLE (drop 4 iv)]\<rparr>"

text \<open>The loop over the blocks: the words \<open>j\<close>, the rest of the message, and what is written. A last block shorter than
  64 bytes goes through the array \<^verbatim>\<open>tmp\<close>, whose other bytes are not set: \<open>junk\<close> stands for them.\<close>

function encrypt_loop :: "byte list \<Rightarrow> u32 list \<Rightarrow> byte list \<Rightarrow> byte list \<times> u32 list" where
  "encrypt_loop junk j m =
    (if length m < 64 then (take (length m) (crypt_block j (take 64 (m @ junk))), next_counter j)
     else if length m = 64 then (crypt_block j m, next_counter j)
     else let (c, j') = encrypt_loop junk (next_counter j) (drop 64 m) in (crypt_block j (take 64 m) @ c, j'))"
  by pat_completeness auto
termination by (relation "measure (\<lambda>(junk, j, m). length m)") auto

declare encrypt_loop.simps [simp del]

definition chacha_encrypt_bytes :: "byte list \<Rightarrow> chacha_ctx \<Rightarrow> byte list \<Rightarrow> byte list \<times> chacha_ctx" where
  "chacha_encrypt_bytes junk x m =
    (if m = [] then ([], x)
     else let (c, j) = encrypt_loop junk (input x) m
       in (c, x\<lparr>input := (input x)[12 := j ! 12, 13 := j ! 13]\<rparr>))"

section \<open>Bytes and words\<close>

lemma length_U32TO8 [simp]: "length (U32TO8_LITTLE v) = 4"
  by (simp add: U32TO8_LITTLE_def)

lemma U8TO32_append: "4 \<le> length xs \<Longrightarrow> U8TO32_LITTLE (xs @ ys) = U8TO32_LITTLE xs"
  by (auto simp: U8TO32_LITTLE_def nth_append)

lemma U8TO32_take: "U8TO32_LITTLE (take 4 xs) = U8TO32_LITTLE xs"
  by (simp add: U8TO32_LITTLE_def)

lemma U8TO32_bit:
  "bit (U8TO32_LITTLE [a, b, c, d]) n \<longleftrightarrow>
     n < 8 \<and> bit a n \<or> 8 \<le> n \<and> n < 16 \<and> bit b (n - 8) \<or> 16 \<le> n \<and> n < 24 \<and> bit c (n - 16) \<or>
     24 \<le> n \<and> n < 32 \<and> bit d (n - 24)"
  using bit_imp_le_length [of a n] bit_imp_le_length [of b "n - 8"] bit_imp_le_length [of c "n - 16"]
    bit_imp_le_length [of d "n - 24"]
  by (auto simp: U8TO32_LITTLE_def bit_or_iff bit_push_bit_iff bit_ucast_iff)

lemma U32_xor:
  "U32TO8_LITTLE (x XOR U8TO32_LITTLE [a, b, c, d]) = map2 (XOR) (U32TO8_LITTLE x) [a, b, c, d]"
  by (auto simp: U32TO8_LITTLE_def intro!: bit_word_eqI)
    (auto simp: bit_ucast_iff bit_xor_iff bit_drop_bit_eq U8TO32_bit)

lemma list4: "length m = Suc (Suc (Suc (Suc n))) \<Longrightarrow> \<exists>a b c d r. m = a # b # c # d # r \<and> length r = n"
  by (auto simp: length_Suc_conv)

lemma xor_words:
  "length m = 4 * length ws \<Longrightarrow>
   concat (map (\<lambda>i. U32TO8_LITTLE (ws ! i XOR U8TO32_LITTLE (drop (4 * i) m))) [0..<length ws]) =
   map2 (XOR) (concat (map U32TO8_LITTLE ws)) m"
proof (induction ws arbitrary: m)
  case (Cons w ws)
  then obtain a b c d r where m: "m = a # b # c # d # r" and r: "length r = 4 * length ws"
    using list4 [of m "4 * length ws"] by auto
  have first: "U8TO32_LITTLE (a # b # c # d # r) = U8TO32_LITTLE [a, b, c, d]"
    by (simp add: U8TO32_LITTLE_def)
  have upt: "[0..<length (w # ws)] = 0 # map Suc [0..<length ws]"
    by (simp add: map_Suc_upt upt_conv_Cons del: upt_Suc)
  have shift: "drop (4 * Suc i) m = drop (4 * i) r" for i
    by (simp add: m numeral_eq_Suc)
  obtain p q s t where w: "U32TO8_LITTLE w = [p, q, s, t]"
    by (simp add: U32TO8_LITTLE_def)
  have "concat (map (\<lambda>i. U32TO8_LITTLE ((w # ws) ! i XOR U8TO32_LITTLE (drop (4 * i) m))) [0..<length (w # ws)]) =
      U32TO8_LITTLE (w XOR U8TO32_LITTLE [a, b, c, d]) @
      concat (map (\<lambda>i. U32TO8_LITTLE (ws ! i XOR U8TO32_LITTLE (drop (4 * i) r))) [0..<length ws])"
    unfolding upt using shift first by (simp add: m o_def del: upt_Suc)
  also have "\<dots> = map2 (XOR) (U32TO8_LITTLE w) [a, b, c, d] @ map2 (XOR) (concat (map U32TO8_LITTLE ws)) r"
    using Cons.IH [OF r] by (simp add: U32_xor)
  finally show ?case by (simp add: m w)
qed simp

section \<open>The key stream\<close>

definition keystream :: "u32 list \<Rightarrow> byte list" where
  "keystream j = concat (map U32TO8_LITTLE (block_words j))"

text \<open>The key stream of \<open>k\<close> blocks.\<close>

primrec stream :: "u32 list \<Rightarrow> nat \<Rightarrow> byte list" where
  "stream j 0 = []"
| "stream j (Suc k) = keystream j @ stream (next_counter j) k"

lemma length_QUARTERROUND [simp]: "length (QUARTERROUND a b c d x) = length x"
  by (simp add: QUARTERROUND_def Let_def)

lemma length_double_round [simp]: "length (double_round x) = length x"
  by (simp add: double_round_def Let_def)

lemma length_rounds [simp]: "length (rounds n x) = length x"
  by (induction n arbitrary: x) simp_all

lemma length_block_words [simp]: "length (block_words j) = length j"
  by (simp add: block_words_def)

lemma length_next_counter [simp]: "length (next_counter j) = length j"
  by (simp add: next_counter_def Let_def)

lemma length_keystream [simp]: "length (keystream j) = 4 * length j"
  by (simp add: keystream_def length_concat o_def sum_list_triv)

lemma length_stream [simp]: "length (stream j k) = k * (4 * length j)"
  by (induction k arbitrary: j) simp_all

lemma crypt_block_xor:
  assumes "length j = 16" and "length m = 64"
  shows "crypt_block j m = map2 (XOR) (keystream j) m"
  using xor_words [of m "block_words j"] assms by (simp add: crypt_block_def keystream_def)

lemma map2_take: "take n (map2 f xs ys) = map2 f (take n xs) (take n ys)"
  by (simp add: take_map take_zip)

lemma map2_append_right:
  "map2 f xs (ys @ zs) = map2 f (take (length ys) xs) ys @ map2 f (drop (length ys) xs) zs"
  by (simp add: zip_append2)

lemma map2_take_left: "map2 f (take (length ys) xs) ys = map2 f xs ys"
  using map2_append_right [of f xs ys "[]"] by simp

definition blocks :: "nat \<Rightarrow> nat" where
  "blocks n = (n + 63) div 64"

lemma blocks_step: "64 < n \<Longrightarrow> blocks n = Suc (blocks (n - 64))" "0 < n \<Longrightarrow> n \<le> 64 \<Longrightarrow> blocks n = 1" "blocks 0 = 0"
  by (auto simp: blocks_def)

lemma blocks_covers: "n \<le> 64 * blocks n"
  by (simp add: blocks_def)

lemma encrypt_loop_stream:
  assumes "length j = 16" and "m \<noteq> []" and "length junk = 64"
  shows "encrypt_loop junk j m = (map2 (XOR) (stream j (blocks (length m))) m, (next_counter ^^ blocks (length m)) j)"
  using assms
proof (induction junk j m rule: encrypt_loop.induct)
  case (1 junk j m)
  consider "length m < 64" | "length m = 64" | "64 < length m" by linarith
  then show ?case
  proof cases
    case a: 1
    have b: "blocks (length m) = 1" using a 1(3) by (intro blocks_step(2)) auto
    have "length (take 64 (m @ junk)) = 64" using 1(4) by simp
    then have "take (length m) (crypt_block j (take 64 (m @ junk))) = map2 (XOR) (take (length m) (keystream j)) m"
      using a by (simp add: crypt_block_xor [OF 1(2)] map2_take min_def)
    also have "\<dots> = map2 (XOR) (keystream j) m" by (rule map2_take_left)
    finally show ?thesis using a by (simp add: encrypt_loop.simps [of junk j m] b)
  next
    case a: 2
    then have b: "blocks (length m) = 1" by (simp add: blocks_def)
    show ?thesis unfolding b using a by (simp add: encrypt_loop.simps [of junk j m] crypt_block_xor [OF 1(2) a])
  next
    case a: 3
    have b: "blocks (length m) = Suc (blocks (length (drop 64 m)))" using a blocks_step(1) [of "length m"] by simp
    have IH: "encrypt_loop junk (next_counter j) (drop 64 m) =
        (map2 (XOR) (stream (next_counter j) (blocks (length (drop 64 m)))) (drop 64 m),
         (next_counter ^^ blocks (length (drop 64 m))) (next_counter j))"
      using a 1 by (intro "1.IH") auto
    have "map2 (XOR) (stream j (blocks (length m))) m =
        map2 (XOR) (stream j (blocks (length m))) (take 64 m @ drop 64 m)" by simp
    also have "\<dots> = map2 (XOR) (keystream j) (take 64 m) @
        map2 (XOR) (stream (next_counter j) (blocks (length (drop 64 m)))) (drop 64 m)"
      using a 1(2) unfolding map2_append_right b by (simp add: min_def)
    finally show ?thesis
      using a IH by (simp add: encrypt_loop.simps [of junk j m] b crypt_block_xor [OF 1(2)] funpow_swap1)
  qed
qed


text \<open>A context has sixteen words; its block counter is the 64-bit number in words 12 and 13.\<close>

definition chacha_wf :: "chacha_ctx \<Rightarrow> bool" where
  "chacha_wf x \<longleftrightarrow> length (input x) = 16"

definition counter :: "u32 list \<Rightarrow> nat" where
  "counter j = unat (j ! 12) + 2 ^ 32 * unat (j ! 13)"

lemma u32_less: "unat (w :: u32) < 2 ^ 32"
  using unsigned_less [of w] by simp

lemma unat_u32_plus_one: "unat ((w :: u32) + 1) = (unat w + 1) mod 2 ^ 32"
  by (simp add: unat_word_ariths)

lemma u32_plus_one_eq_0: "(w :: u32) + 1 = 0 \<longleftrightarrow> unat w = 2 ^ 32 - 1"
proof -
  have "w + 1 = 0 \<longleftrightarrow> unat (w + 1) = 0" by (rule unat_eq_zero [symmetric])
  also have "\<dots> \<longleftrightarrow> unat w = 2 ^ 32 - 1" using u32_less [of w] unfolding unat_u32_plus_one
    by (cases "unat w = 2 ^ 32 - 1") (simp_all add: mod_eq_0_iff_dvd nat_dvd_not_less)
  finally show ?thesis .
qed

lemma counter_next:
  assumes "length j = 16"
  shows "counter (next_counter j) = (counter j + 1) mod 2 ^ 64"
proof (cases "j ! 12 + 1 = 0")
  case True
  then have j12: "unat (j ! 12) = 2 ^ 32 - 1" by (simp add: u32_plus_one_eq_0)
  have "counter (next_counter j) = 2 ^ 32 * unat (j ! 13 + 1)"
    using assms True by (simp add: counter_def next_counter_def)
  also have "\<dots> = 2 ^ 32 * ((unat (j ! 13) + 1) mod 2 ^ 32)" by (simp only: unat_u32_plus_one)
  also have "\<dots> = (2 ^ 32 * (unat (j ! 13) + 1)) mod 2 ^ 64" by (simp add: mult_mod_right)
  also have "2 ^ 32 * (unat (j ! 13) + 1) = counter j + 1" by (simp add: counter_def j12)
  finally show ?thesis .
next
  case False
  then have "unat (j ! 12) \<noteq> 2 ^ 32 - 1" by (simp add: u32_plus_one_eq_0)
  then have less: "unat (j ! 12) + 1 < 2 ^ 32" using u32_less [of "j ! 12"] by simp
  then have "unat (j ! 12 + 1) = unat (j ! 12) + 1" by (simp only: unat_u32_plus_one mod_less)
  then have "counter (next_counter j) = counter j + 1" "counter j + 1 < 2 ^ 64"
    using assms False less u32_less [of "j ! 13"] by (simp_all add: counter_def next_counter_def)
  then show ?thesis by simp
qed

lemma next_counter_other: "i \<noteq> 12 \<Longrightarrow> i \<noteq> 13 \<Longrightarrow> next_counter j ! i = j ! i"
  by (simp add: next_counter_def Let_def)

lemma next_counters:
  shows "length ((next_counter ^^ n) j) = length j"
    and "i \<noteq> 12 \<Longrightarrow> i \<noteq> 13 \<Longrightarrow> (next_counter ^^ n) j ! i = j ! i"
  by (induction n) (simp_all add: next_counter_other)

lemma counter_next_n:
  assumes "length j = 16"
  shows "counter ((next_counter ^^ n) j) = (counter j + n) mod 2 ^ 64"
proof (induction n)
  case 0
  show ?case using u32_less [of "j ! 12"] u32_less [of "j ! 13"] by (simp add: counter_def)
next
  case (Suc n)
  have "counter ((next_counter ^^ Suc n) j) = (counter ((next_counter ^^ n) j) + 1) mod 2 ^ 64"
    using assms by (simp add: counter_next next_counters)
  then show ?case by (simp add: Suc.IH mod_Suc_eq)
qed

lemma chacha_encrypt_bytes_stream:
  assumes wf: "chacha_wf x" and junk: "length junk = 64"
  shows "chacha_encrypt_bytes junk x m =
    (map2 (XOR) (stream (input x) (blocks (length m))) m, x\<lparr>input := (next_counter ^^ blocks (length m)) (input x)\<rparr>)"
proof (cases "m = []")
  case True
  then show ?thesis by (simp add: chacha_encrypt_bytes_def blocks_def)
next
  case False
  define j where "j = (next_counter ^^ blocks (length m)) (input x)"
  have "(input x)[12 := j ! 12, 13 := j ! 13] = j"
  proof (rule nth_equalityI)
    show "length ((input x)[12 := j ! 12, 13 := j ! 13]) = length j" by (simp add: j_def next_counters)
    show "(input x)[12 := j ! 12, 13 := j ! 13] ! i = j ! i" if "i < length ((input x)[12 := j ! 12, 13 := j ! 13])" for i
      using that wf unfolding chacha_wf_def
      by (cases "i = 12"; cases "i = 13") (simp_all add: j_def next_counters)
  qed
  then show ?thesis
    using False encrypt_loop_stream [of "input x" m junk] wf junk
    by (simp add: chacha_encrypt_bytes_def chacha_wf_def j_def)
qed

lemma map2_xor_twice:
  fixes m :: "byte list"
  shows "length m \<le> length s \<Longrightarrow> map2 (XOR) s (map2 (XOR) s m) = m"
  by (induction s m rule: list_induct2') (simp_all flip: xor.assoc)

lemma length_map2_stream [simp]:
  "chacha_wf x \<Longrightarrow> length (map2 (XOR) (stream (input x) (blocks (length m))) m) = length m"
  using blocks_covers [of "length m"] by (simp add: chacha_wf_def)

text \<open>Encrypting and decrypting are the same operation from the same state.\<close>

lemma chacha_encrypt_bytes_involution:
  assumes wf: "chacha_wf x" and junk: "length junk = 64" "length junk' = 64"
    and enc: "chacha_encrypt_bytes junk x m = (c, x')"
  shows "chacha_encrypt_bytes junk' x c = (m, x') \<and> length c = length m"
proof -
  have c: "c = map2 (XOR) (stream (input x) (blocks (length m))) m"
    and x': "x' = x\<lparr>input := (next_counter ^^ blocks (length m)) (input x)\<rparr>"
    using enc chacha_encrypt_bytes_stream [OF wf junk(1)] by auto
  have l: "length c = length m" unfolding c using wf by (rule length_map2_stream)
  have "length m \<le> length (stream (input x) (blocks (length m)))"
    using wf blocks_covers [of "length m"] by (simp add: chacha_wf_def)
  from map2_xor_twice [OF this] show ?thesis
    using l chacha_encrypt_bytes_stream [OF wf junk(2), of c] by (simp add: x') (simp add: c)
qed

lemma chacha_setup_wf [simp]:
  "chacha_wf x \<Longrightarrow> chacha_wf (chacha_keysetup x k n)" "chacha_wf x \<Longrightarrow> chacha_wf (chacha_ivsetup x iv ctr)"
  by (simp_all add: chacha_wf_def chacha_keysetup_def chacha_ivsetup_def Let_def)

lemma chacha_encrypt_wf:
  "chacha_wf x \<Longrightarrow> length junk = 64 \<Longrightarrow> chacha_encrypt_bytes junk x m = (c, x') \<Longrightarrow> chacha_wf x'"
  using chacha_encrypt_bytes_stream [of x junk m] by (auto simp: chacha_wf_def next_counters)

end
