(* ===== verification/Poly1305.thy ===== *)
theory Poly1305
  imports Chacha
begin

unbundle bit_operations_syntax

text \<open>
  The message authentication code of \<^verbatim>\<open>poly1305.c\<close>. The code works on five limbs of 26 bits in 32-bit words with
  64-bit products and a constant-time final reduction; it is proved equal to evaluating the message as a polynomial
  modulo $2^{130} - 5$.
\<close>

section \<open>The code\<close>

type_synonym u64 = "64 word"
type_synonym limbs = "u32 \<times> u32 \<times> u32 \<times> u32 \<times> u32"

definition mul32x32_64 :: "u32 \<Rightarrow> u32 \<Rightarrow> u64" where
  "mul32x32_64 a b = ucast a * ucast b"

definition U8TO32_LE :: "byte list \<Rightarrow> u32" where
  "U8TO32_LE p = ucast (p ! 0) OR push_bit 8 (ucast (p ! 1)) OR push_bit 16 (ucast (p ! 2)) OR push_bit 24 (ucast (p ! 3))"

definition U32TO8_LE :: "u64 \<Rightarrow> byte list" where
  "U32TO8_LE v = [ucast v, ucast (drop_bit 8 v), ucast (drop_bit 16 v), ucast (drop_bit 24 v)]"

definition clamp_key :: "byte list \<Rightarrow> limbs" where
  "clamp_key key =
    (let t0 = U8TO32_LE key; t1 = U8TO32_LE (drop 4 key); t2 = U8TO32_LE (drop 8 key); t3 = U8TO32_LE (drop 12 key);
         r0 = t0 AND 0x3ffffff; t0 = drop_bit 26 t0; t0 = t0 OR push_bit 6 t1;
         r1 = t0 AND 0x3ffff03; t1 = drop_bit 20 t1; t1 = t1 OR push_bit 12 t2;
         r2 = t1 AND 0x3ffc0ff; t2 = drop_bit 14 t2; t2 = t2 OR push_bit 18 t3;
         r3 = t2 AND 0x3f03fff; t3 = drop_bit 8 t3;
         r4 = t3 AND 0x00fffff
     in (r0, r1, r2, r3, r4))"

text \<open>\<open>hibit\<close> is $2^{24}$ for a full block and $0$ for the padded last one.\<close>

definition add_block :: "u32 \<Rightarrow> byte list \<Rightarrow> limbs \<Rightarrow> limbs" where
  "add_block hibit mp h = (case h of (h0, h1, h2, h3, h4) \<Rightarrow>
     let t0 = U8TO32_LE mp; t1 = U8TO32_LE (drop 4 mp); t2 = U8TO32_LE (drop 8 mp); t3 = U8TO32_LE (drop 12 mp)
     in (h0 + (t0 AND 0x3ffffff),
         h1 + ucast (drop_bit 26 (push_bit 32 (ucast t1 :: u64) OR ucast t0) AND 0x3ffffff),
         h2 + ucast (drop_bit 20 (push_bit 32 (ucast t2 :: u64) OR ucast t1) AND 0x3ffffff),
         h3 + ucast (drop_bit 14 (push_bit 32 (ucast t3 :: u64) OR ucast t2) AND 0x3ffffff),
         h4 + (drop_bit 8 t3 OR hibit)))"

definition donna_mul :: "limbs \<Rightarrow> limbs \<Rightarrow> limbs" where
  "donna_mul r h = (case r of (r0, r1, r2, r3, r4) \<Rightarrow> case h of (h0, h1, h2, h3, h4) \<Rightarrow>
     let s1 = r1 * 5; s2 = r2 * 5; s3 = r3 * 5; s4 = r4 * 5;
         t0 = mul32x32_64 h0 r0 + mul32x32_64 h1 s4 + mul32x32_64 h2 s3 + mul32x32_64 h3 s2 + mul32x32_64 h4 s1;
         t1 = mul32x32_64 h0 r1 + mul32x32_64 h1 r0 + mul32x32_64 h2 s4 + mul32x32_64 h3 s3 + mul32x32_64 h4 s2;
         t2 = mul32x32_64 h0 r2 + mul32x32_64 h1 r1 + mul32x32_64 h2 r0 + mul32x32_64 h3 s4 + mul32x32_64 h4 s3;
         t3 = mul32x32_64 h0 r3 + mul32x32_64 h1 r2 + mul32x32_64 h2 r1 + mul32x32_64 h3 r0 + mul32x32_64 h4 s4;
         t4 = mul32x32_64 h0 r4 + mul32x32_64 h1 r3 + mul32x32_64 h2 r2 + mul32x32_64 h3 r1 + mul32x32_64 h4 r0;
         h0 = (ucast t0 :: u32) AND 0x3ffffff; c = drop_bit 26 t0;
         t1 = t1 + c; h1 = (ucast t1 :: u32) AND 0x3ffffff; b = (ucast (drop_bit 26 t1) :: u32);
         t2 = t2 + ucast b; h2 = (ucast t2 :: u32) AND 0x3ffffff; b = (ucast (drop_bit 26 t2) :: u32);
         t3 = t3 + ucast b; h3 = (ucast t3 :: u32) AND 0x3ffffff; b = (ucast (drop_bit 26 t3) :: u32);
         t4 = t4 + ucast b; h4 = (ucast t4 :: u32) AND 0x3ffffff; b = (ucast (drop_bit 26 t4) :: u32)
     in (h0 + b * 5, h1, h2, h3, h4))"

function donna_loop :: "limbs \<Rightarrow> byte list \<Rightarrow> limbs \<Rightarrow> limbs" where
  "donna_loop r m h =
    (if length m \<ge> 16 then donna_loop r (drop 16 m) (donna_mul r (add_block (push_bit 24 1) (take 16 m) h))
     else if m = [] then h
     else donna_mul r (add_block 0 (m @ 1 # replicate (15 - length m) 0) h))"
  by pat_completeness auto
termination by (relation "measure (\<lambda>(r, m, h). length m)") auto

declare donna_loop.simps [simp del]

text \<open>The end of the computation: carry, subtract the modulus if the limbs reach it, add the second half of the key.\<close>

definition donna_carry :: "limbs \<Rightarrow> limbs" where
  "donna_carry h = (case h of (h0, h1, h2, h3, h4) \<Rightarrow>
     let b = drop_bit 26 h0; h0 = h0 AND 0x3ffffff;
         h1 = h1 + b; b = drop_bit 26 h1; h1 = h1 AND 0x3ffffff;
         h2 = h2 + b; b = drop_bit 26 h2; h2 = h2 AND 0x3ffffff;
         h3 = h3 + b; b = drop_bit 26 h3; h3 = h3 AND 0x3ffffff;
         h4 = h4 + b; b = drop_bit 26 h4; h4 = h4 AND 0x3ffffff;
         h0 = h0 + b * 5; b = drop_bit 26 h0; h0 = h0 AND 0x3ffffff;
         h1 = h1 + b
     in (h0, h1, h2, h3, h4))"

definition donna_freeze :: "limbs \<Rightarrow> limbs" where
  "donna_freeze h = (case h of (h0, h1, h2, h3, h4) \<Rightarrow>
     let g0 = h0 + 5; b = drop_bit 26 g0; g0 = g0 AND 0x3ffffff;
         g1 = h1 + b; b = drop_bit 26 g1; g1 = g1 AND 0x3ffffff;
         g2 = h2 + b; b = drop_bit 26 g2; g2 = g2 AND 0x3ffffff;
         g3 = h3 + b; b = drop_bit 26 g3; g3 = g3 AND 0x3ffffff;
         g4 = h4 + b - push_bit 26 1;
         b = drop_bit 31 g4 - 1;
         nb = NOT b
     in ((h0 AND nb) OR (g0 AND b), (h1 AND nb) OR (g1 AND b), (h2 AND nb) OR (g2 AND b),
         (h3 AND nb) OR (g3 AND b), (h4 AND nb) OR (g4 AND b)))"

definition donna_out :: "byte list \<Rightarrow> limbs \<Rightarrow> byte list" where
  "donna_out key h = (case h of (h0, h1, h2, h3, h4) \<Rightarrow>
     let f0 = ucast (h0 OR push_bit 26 h1) + (ucast (U8TO32_LE (drop 16 key)) :: u64);
         f1 = ucast (drop_bit 6 h1 OR push_bit 20 h2) + ucast (U8TO32_LE (drop 20 key));
         f2 = ucast (drop_bit 12 h2 OR push_bit 14 h3) + ucast (U8TO32_LE (drop 24 key));
         f3 = ucast (drop_bit 18 h3 OR push_bit 8 h4) + ucast (U8TO32_LE (drop 28 key));
         f1 = f1 + drop_bit 32 f0;
         f2 = f2 + drop_bit 32 f1;
         f3 = f3 + drop_bit 32 f2
     in U32TO8_LE f0 @ U32TO8_LE f1 @ U32TO8_LE f2 @ U32TO8_LE f3)"

definition poly1305_auth :: "byte list \<Rightarrow> byte list \<Rightarrow> byte list" where
  "poly1305_auth m key = donna_out key (donna_freeze (donna_carry (donna_loop (clamp_key key) m (0, 0, 0, 0, 0))))"

section \<open>The specification\<close>

fun le_value :: "byte list \<Rightarrow> nat" where
  "le_value [] = 0"
| "le_value (b # bs) = unat b + 256 * le_value bs"

fun le_bytes :: "nat \<Rightarrow> nat \<Rightarrow> byte list" where
  "le_bytes 0 v = []"
| "le_bytes (Suc n) v = of_nat v # le_bytes n (v div 256)"

definition poly_p :: nat where "poly_p = 2 ^ 130 - 5"

definition poly_clamp :: nat where "poly_clamp = 0x0ffffffc0ffffffc0ffffffc0fffffff"

function poly_acc :: "nat \<Rightarrow> nat \<Rightarrow> byte list \<Rightarrow> nat" where
  "poly_acc r a m = (if m = [] then a else poly_acc r (((a + le_value (take 16 m @ [1])) * r) mod poly_p) (drop 16 m))"
  by pat_completeness auto
termination by (relation "measure (\<lambda>(r, a, m). length m)") auto

declare poly_acc.simps [simp del]

definition poly1305_spec :: "byte list \<Rightarrow> byte list \<Rightarrow> byte list" where
  "poly1305_spec m key =
    le_bytes 16 ((poly_acc (le_value (take 16 key) AND poly_clamp) 0 m + le_value (take 16 (drop 16 key))) mod 2 ^ 128)"


section \<open>Words as numbers\<close>

lemma unat_plus32: "unat a + unat b < 2 ^ 32 \<Longrightarrow> unat (a + b :: u32) = unat a + unat b"
  by (simp add: unat_word_ariths)

lemma unat_plus64: "unat a + unat b < 2 ^ 64 \<Longrightarrow> unat (a + b :: u64) = unat a + unat b"
  by (simp add: unat_word_ariths)

lemma mask26: "0x3ffffff = (mask 26 :: u32)" "0x3ffffff = (mask 26 :: u64)"
  by (simp_all add: mask_eq_exp_minus_1)

lemma unat_low26: "unat (w AND 0x3ffffff :: u32) = unat w mod 2 ^ 26" "unat (v AND 0x3ffffff :: u64) = unat v mod 2 ^ 26"
  unfolding mask26 take_bit_eq_mask [symmetric] unsigned_take_bit_eq by (rule take_bit_eq_mod)+

lemma unat_drop: "unat (drop_bit n (w :: 'a::len word)) = unat w div 2 ^ n"
  by (subst unat_drop_bit_eq) (rule drop_bit_eq_div)

lemma unat_up: "unat (ucast (w :: u32) :: u64) = unat w"
  using u32_less [of w] by (simp add: unsigned_ucast_eq take_bit_eq_mod)

lemma unat_down: "unat (ucast (v :: u64) :: u32) = unat v mod 2 ^ 32"
  by (simp add: unsigned_ucast_eq take_bit_eq_mod)

lemma unat_mul: "unat (mul32x32_64 a b) = unat a * unat b"
proof -
  have "unat a * unat b < 2 ^ 32 * 2 ^ 32" using u32_less by (intro mult_strict_mono) auto
  then show ?thesis by (simp add: mul32x32_64_def unat_word_ariths unat_up)
qed

section \<open>Multiplication\<close>

fun val :: "limbs \<Rightarrow> nat" where
  "val (h0, h1, h2, h3, h4) = unat h0 + 2 ^ 26 * unat h1 + 2 ^ 52 * unat h2 + 2 ^ 78 * unat h3 + 2 ^ 104 * unat h4"

text \<open>The limbs of the key, of the accumulator between two blocks, and of the accumulator to be multiplied.\<close>

fun key_limbs :: "limbs \<Rightarrow> bool" where
  "key_limbs (r0, r1, r2, r3, r4) \<longleftrightarrow> unat r0 < 2 ^ 26 \<and> unat r1 < 2 ^ 26 \<and> unat r2 < 2 ^ 26 \<and> unat r3 < 2 ^ 26 \<and> unat r4 < 2 ^ 20"

fun acc_limbs :: "limbs \<Rightarrow> bool" where
  "acc_limbs (h0, h1, h2, h3, h4) \<longleftrightarrow>
     unat h0 \<le> 42 * 2 ^ 26 \<and> unat h1 < 2 ^ 26 \<and> unat h2 < 2 ^ 26 \<and> unat h3 < 2 ^ 26 \<and> unat h4 < 2 ^ 26"

fun sum_limbs :: "limbs \<Rightarrow> bool" where
  "sum_limbs (h0, h1, h2, h3, h4) \<longleftrightarrow>
     unat h0 \<le> 43 * 2 ^ 26 \<and> unat h1 \<le> 2 * 2 ^ 26 \<and> unat h2 \<le> 2 * 2 ^ 26 \<and> unat h3 \<le> 2 * 2 ^ 26 \<and> unat h4 \<le> 3 * 2 ^ 25"

lemma product_limbs:
  fixes p B :: int
  assumes "B ^ 5 = p + 5"
  shows "(h0 + B * h1 + B ^ 2 * h2 + B ^ 3 * h3 + B ^ 4 * h4) * (r0 + B * r1 + B ^ 2 * r2 + B ^ 3 * r3 + B ^ 4 * r4) =
    (h0 * r0 + h1 * (5 * r4) + h2 * (5 * r3) + h3 * (5 * r2) + h4 * (5 * r1)) +
    B * (h0 * r1 + h1 * r0 + h2 * (5 * r4) + h3 * (5 * r3) + h4 * (5 * r2)) +
    B ^ 2 * (h0 * r2 + h1 * r1 + h2 * r0 + h3 * (5 * r4) + h4 * (5 * r3)) +
    B ^ 3 * (h0 * r3 + h1 * r2 + h2 * r1 + h3 * r0 + h4 * (5 * r4)) +
    B ^ 4 * (h0 * r4 + h1 * r3 + h2 * r2 + h3 * r1 + h4 * r0) +
    ((h1 * r4 + h2 * r3 + h3 * r2 + h4 * r1) + B * (h2 * r4 + h3 * r3 + h4 * r2) + B ^ 2 * (h3 * r4 + h4 * r3) +
     B ^ 3 * (h4 * r4)) * p"
  using assms by algebra

lemma carry_sum:
  fixes t0 t1 t2 t3 t4 :: nat
  assumes "t0 = m0 + 2 ^ 26 * c0" "t1 + c0 = m1 + 2 ^ 26 * c1" "t2 + c1 = m2 + 2 ^ 26 * c2" "t3 + c2 = m3 + 2 ^ 26 * c3"
    "t4 + c3 = m4 + 2 ^ 26 * c4"
  shows "m0 + 2 ^ 26 * m1 + 2 ^ 52 * m2 + 2 ^ 78 * m3 + 2 ^ 104 * m4 + 2 ^ 130 * c4 =
    t0 + 2 ^ 26 * t1 + 2 ^ 52 * t2 + 2 ^ 78 * t3 + 2 ^ 104 * t4"
  using assms by simp

lemma div_mod_26: "(x :: nat) = x mod 2 ^ 26 + 2 ^ 26 * (x div 2 ^ 26)"
  by (simp only: mod_mult_div_eq)


lemma unat_sum5:
  fixes a b c d e :: u64
  assumes "unat a + unat b + unat c + unat d + unat e < 2 ^ 64"
  shows "unat (a + b + c + d + e) = unat a + unat b + unat c + unat d + unat e"
proof -
  have "unat (a + b) = unat a + unat b" using assms by (intro unat_plus64) simp
  moreover from this have "unat (a + b + c) = unat a + unat b + unat c" using assms unat_plus64 [of "a + b" c] by simp
  moreover from this have "unat (a + b + c + d) = unat a + unat b + unat c + unat d"
    using assms unat_plus64 [of "a + b + c" d] by simp
  ultimately show ?thesis using assms unat_plus64 [of "a + b + c + d" e] by simp
qed

lemma unat_times5: "unat (w :: u32) < 858993459 \<Longrightarrow> unat (w * 5) = 5 * unat w"
  by (simp add: unat_word_ariths)

lemma unat_limb: "unat ((ucast (t :: u64) :: u32) AND 0x3ffffff) = unat t mod 2 ^ 26"
  unfolding unat_low26 unat_down by (rule mod_mod_cancel) (simp add: le_imp_power_dvd)

lemma unat_carry: "unat (t :: u64) < 2 ^ 58 \<Longrightarrow> unat (ucast (drop_bit 26 t) :: u32) = unat t div 2 ^ 26"
proof -
  assume "unat t < 2 ^ 58"
  then have "unat t div 2 ^ 26 < 2 ^ 32" by (simp add: div_less_iff_less_mult)
  then show ?thesis unfolding unat_down unat_drop by (rule mod_less)
qed

text \<open>Bounds on the column sums.\<close>

lemma column_bounds:
  fixes h0 h1 h2 h3 h4 r0 r1 r2 r3 r4 :: nat
  assumes "h0 \<le> 43 * 2 ^ 26" "h1 \<le> 2 * 2 ^ 26" "h2 \<le> 2 * 2 ^ 26" "h3 \<le> 2 * 2 ^ 26" "h4 \<le> 3 * 2 ^ 25"
    and "r0 < 2 ^ 26" "r1 < 2 ^ 26" "r2 < 2 ^ 26" "r3 < 2 ^ 26" "r4 < 2 ^ 20"
  shows "h0 * r0 + h1 * (5 * r4) + h2 * (5 * r3) + h3 * (5 * r2) + h4 * (5 * r1) < 71 * 2 ^ 52"
    and "h0 * r1 + h1 * r0 + h2 * (5 * r4) + h3 * (5 * r3) + h4 * (5 * r2) < 63 * 2 ^ 52"
    and "h0 * r2 + h1 * r1 + h2 * r0 + h3 * (5 * r4) + h4 * (5 * r3) < 55 * 2 ^ 52"
    and "h0 * r3 + h1 * r2 + h2 * r1 + h3 * r0 + h4 * (5 * r4) < 50 * 2 ^ 52"
    and "64 * (h0 * r4 + h1 * r3 + h2 * r2 + h3 * r1 + h4 * r0) \<le> 523 * 2 ^ 52"
proof -
  have p: "h0 * r \<le> 43 * 2 ^ 26 * (2 ^ 26 - 1)" "h1 * r \<le> 2 * 2 ^ 26 * (2 ^ 26 - 1)" "h2 * r \<le> 2 * 2 ^ 26 * (2 ^ 26 - 1)"
    "h3 * r \<le> 2 * 2 ^ 26 * (2 ^ 26 - 1)" "h4 * r \<le> 3 * 2 ^ 25 * (2 ^ 26 - 1)" if "r < 2 ^ 26" for r
    using assms that by (intro mult_le_mono; simp)+
  have q: "h0 * r4 \<le> 43 * 2 ^ 26 * (2 ^ 20 - 1)" "h1 * r4 \<le> 2 * 2 ^ 26 * (2 ^ 20 - 1)" "h2 * r4 \<le> 2 * 2 ^ 26 * (2 ^ 20 - 1)"
    "h3 * r4 \<le> 2 * 2 ^ 26 * (2 ^ 20 - 1)" "h4 * r4 \<le> 3 * 2 ^ 25 * (2 ^ 20 - 1)"
    using assms by (intro mult_le_mono; simp)+
  note p0 = p [OF assms(6)] and p1 = p [OF assms(7)] and p2 = p [OF assms(8)] and p3 = p [OF assms(9)]
  show "h0 * r0 + h1 * (5 * r4) + h2 * (5 * r3) + h3 * (5 * r2) + h4 * (5 * r1) < 71 * 2 ^ 52"
    using p0(1) q(2) p3(3) p2(4) p1(5) by simp
  show "h0 * r1 + h1 * r0 + h2 * (5 * r4) + h3 * (5 * r3) + h4 * (5 * r2) < 63 * 2 ^ 52"
    using p1(1) p0(2) q(3) p3(4) p2(5) by simp
  show "h0 * r2 + h1 * r1 + h2 * r0 + h3 * (5 * r4) + h4 * (5 * r3) < 55 * 2 ^ 52"
    using p2(1) p1(2) p0(3) q(4) p3(5) by simp
  show "h0 * r3 + h1 * r2 + h2 * r1 + h3 * r0 + h4 * (5 * r4) < 50 * 2 ^ 52"
    using p3(1) p2(2) p1(3) p0(4) q(5) by simp
  show "64 * (h0 * r4 + h1 * r3 + h2 * r2 + h3 * r1 + h4 * r0) \<le> 523 * 2 ^ 52"
    using q(1) p3(2) p2(3) p1(4) p0(5) by simp
qed


text \<open>The carries of \<^verbatim>\<open>poly1305_donna_mul\<close>.\<close>

definition donna_carried :: "u64 \<Rightarrow> u64 \<Rightarrow> u64 \<Rightarrow> u64 \<Rightarrow> u64 \<Rightarrow> limbs" where
  "donna_carried t0 t1 t2 t3 t4 =
    (let h0 = (ucast t0 :: u32) AND 0x3ffffff; c = drop_bit 26 t0;
         t1 = t1 + c; h1 = (ucast t1 :: u32) AND 0x3ffffff; b = (ucast (drop_bit 26 t1) :: u32);
         t2 = t2 + ucast b; h2 = (ucast t2 :: u32) AND 0x3ffffff; b = (ucast (drop_bit 26 t2) :: u32);
         t3 = t3 + ucast b; h3 = (ucast t3 :: u32) AND 0x3ffffff; b = (ucast (drop_bit 26 t3) :: u32);
         t4 = t4 + ucast b; h4 = (ucast t4 :: u32) AND 0x3ffffff; b = (ucast (drop_bit 26 t4) :: u32)
     in (h0 + b * 5, h1, h2, h3, h4))"

lemma donna_carries:
  assumes "unat t0 < 71 * 2 ^ 52" "unat t1 < 63 * 2 ^ 52" "unat t2 < 55 * 2 ^ 52" "unat t3 < 50 * 2 ^ 52" "64 * unat t4 \<le> 523 * 2 ^ 52"
  shows "acc_limbs (donna_carried t0 t1 t2 t3 t4) \<and> val (donna_carried t0 t1 t2 t3 t4) mod poly_p =
    (unat t0 + 2 ^ 26 * unat t1 + 2 ^ 52 * unat t2 + 2 ^ 78 * unat t3 + 2 ^ 104 * unat t4) mod poly_p"
proof -
  define c where "c = drop_bit 26 t0"
  have c: "unat c = unat t0 div 2 ^ 26" by (simp only: c_def unat_drop)
  have cb: "unat c < 2 ^ 33" using assms(1) unfolding c by (simp add: div_less_iff_less_mult)
  define u1 where "u1 = t1 + c"
  have u1: "unat u1 = unat t1 + unat c" unfolding u1_def using assms(2) cb by (intro unat_plus64) simp
  define b1 :: u32 where "b1 = ucast (drop_bit 26 u1)"
  have b1: "unat b1 = unat u1 div 2 ^ 26" unfolding b1_def using assms(2) cb by (intro unat_carry) (simp add: u1)
  define u2 where "u2 = t2 + ucast b1"
  have u2: "unat u2 = unat t2 + unat b1"
    unfolding u2_def using assms(3) u32_less [of b1] by (subst unat_plus64) (simp_all add: unat_up)
  define b2 :: u32 where "b2 = ucast (drop_bit 26 u2)"
  have b2: "unat b2 = unat u2 div 2 ^ 26" unfolding b2_def using assms(3) u32_less [of b1] by (intro unat_carry) (simp add: u2)
  define u3 where "u3 = t3 + ucast b2"
  have u3: "unat u3 = unat t3 + unat b2"
    unfolding u3_def using assms(4) u32_less [of b2] by (subst unat_plus64) (simp_all add: unat_up)
  define b3 :: u32 where "b3 = ucast (drop_bit 26 u3)"
  have b3: "unat b3 = unat u3 div 2 ^ 26" unfolding b3_def using assms(4) u32_less [of b2] by (intro unat_carry) (simp add: u3)
  define u4 where "u4 = t4 + ucast b3"
  have u4: "unat u4 = unat t4 + unat b3"
    unfolding u4_def using assms(5) u32_less [of b3] by (subst unat_plus64) (simp_all add: unat_up)
  define b4 :: u32 where "b4 = ucast (drop_bit 26 u4)"
  have b4: "unat b4 = unat u4 div 2 ^ 26" unfolding b4_def using assms(5) u32_less [of b3] by (intro unat_carry) (simp add: u4)
  have "64 * (unat b4 * 2 ^ 26) \<le> 64 * unat u4" unfolding b4 by (intro mult_le_mono2 div_times_less_eq_dividend)
  then have b4b: "unat b4 \<le> 549000000" using assms(5) u32_less [of b3] by (simp add: u4)
  have five: "unat (b4 * 5) = 5 * unat b4" using b4b by (intro unat_times5) simp
  define l :: "u64 \<Rightarrow> u32" where "l x = ucast x AND 0x3ffffff" for x
  have l: "unat (l x) = unat x mod 2 ^ 26" for x unfolding l_def by (rule unat_limb)
  have lb: "unat (l x) < 2 ^ 26" for x by (simp add: l)
  have res: "donna_carried t0 t1 t2 t3 t4 = (l t0 + b4 * 5, l u1, l u2, l u3, l u4)"
    unfolding donna_carried_def Let_def l_def c_def u1_def b1_def u2_def b2_def u3_def b3_def u4_def b4_def ..
  have h0: "unat (l t0 + b4 * 5) = unat (l t0) + 5 * unat b4"
    using lb [of t0] b4b by (subst unat_plus32) (simp_all add: five)
  have eq: "unat x = unat (l x) + 2 ^ 26 * (unat x div 2 ^ 26)" for x unfolding l by (rule div_mod_26)
  have e: "unat t0 = unat (l t0) + 2 ^ 26 * unat c" "unat t1 + unat c = unat (l u1) + 2 ^ 26 * unat b1"
    "unat t2 + unat b1 = unat (l u2) + 2 ^ 26 * unat b2" "unat t3 + unat b2 = unat (l u3) + 2 ^ 26 * unat b3"
    "unat t4 + unat b3 = unat (l u4) + 2 ^ 26 * unat b4"
    using eq [of t0] eq [of u1] eq [of u2] eq [of u3] eq [of u4] by (simp_all only: c u1 b1 u2 b2 u3 b3 u4 b4)
  have "(2 ^ 130 :: nat) * unat b4 = 5 * unat b4 + unat b4 * poly_p" by (simp add: poly_p_def)
  with carry_sum [OF e] have "val (donna_carried t0 t1 t2 t3 t4) + unat b4 * poly_p =
      unat t0 + 2 ^ 26 * unat t1 + 2 ^ 52 * unat t2 + 2 ^ 78 * unat t3 + 2 ^ 104 * unat t4"
    unfolding res val.simps h0 by linarith
  moreover have "acc_limbs (donna_carried t0 t1 t2 t3 t4)"
    unfolding res acc_limbs.simps h0 using lb [of t0] lb [of u1] lb [of u2] lb [of u3] lb [of u4] b4b by simp
  ultimately show ?thesis by (metis mod_mult_self1)
qed

lemma product_mod:
  fixes h0 h1 h2 h3 h4 r0 r1 r2 r3 r4 :: nat
  shows "((h0 + 2 ^ 26 * h1 + 2 ^ 52 * h2 + 2 ^ 78 * h3 + 2 ^ 104 * h4) *
      (r0 + 2 ^ 26 * r1 + 2 ^ 52 * r2 + 2 ^ 78 * r3 + 2 ^ 104 * r4)) mod poly_p =
    ((h0 * r0 + h1 * (5 * r4) + h2 * (5 * r3) + h3 * (5 * r2) + h4 * (5 * r1)) +
     2 ^ 26 * (h0 * r1 + h1 * r0 + h2 * (5 * r4) + h3 * (5 * r3) + h4 * (5 * r2)) +
     2 ^ 52 * (h0 * r2 + h1 * r1 + h2 * r0 + h3 * (5 * r4) + h4 * (5 * r3)) +
     2 ^ 78 * (h0 * r3 + h1 * r2 + h2 * r1 + h3 * r0 + h4 * (5 * r4)) +
     2 ^ 104 * (h0 * r4 + h1 * r3 + h2 * r2 + h3 * r1 + h4 * r0)) mod poly_p"
    (is "?l mod _ = ?t mod _")
proof -
  define k where "k = (h1 * r4 + h2 * r3 + h3 * r2 + h4 * r1) + 2 ^ 26 * (h2 * r4 + h3 * r3 + h4 * r2) +
    2 ^ 52 * (h3 * r4 + h4 * r3) + 2 ^ 78 * (h4 * r4)"
  have B: "(2 ^ 26 :: int) ^ 5 = int poly_p + 5" by (simp add: poly_p_def)
  have "int ?l = int (?t + k * poly_p)"
    using product_limbs [OF B, of "int h0" "int h1" "int h2" "int h3" "int h4" "int r0" "int r1" "int r2" "int r3" "int r4"]
    by (simp add: k_def)
  then have "?l = ?t + k * poly_p" by (simp only: of_nat_eq_iff)
  then show ?thesis by (simp only: mod_mult_self1)
qed

lemma donna_mul_correct:
  assumes r: "key_limbs r" and h: "sum_limbs h"
  shows "acc_limbs (donna_mul r h) \<and> val (donna_mul r h) mod poly_p = (val h * val r) mod poly_p"
proof -
  obtain r0 r1 r2 r3 r4 where rr: "r = (r0, r1, r2, r3, r4)" by (cases r)
  obtain h0 h1 h2 h3 h4 where hh: "h = (h0, h1, h2, h3, h4)" by (cases h)
  note b = column_bounds [of "unat h0" "unat h1" "unat h2" "unat h3" "unat h4" "unat r0" "unat r1" "unat r2" "unat r3" "unat r4"]
  have br: "unat r0 < 2 ^ 26" "unat r1 < 2 ^ 26" "unat r2 < 2 ^ 26" "unat r3 < 2 ^ 26" "unat r4 < 2 ^ 20"
    using r by (simp_all add: rr)
  have bh: "unat h0 \<le> 43 * 2 ^ 26" "unat h1 \<le> 2 * 2 ^ 26" "unat h2 \<le> 2 * 2 ^ 26" "unat h3 \<le> 2 * 2 ^ 26" "unat h4 \<le> 3 * 2 ^ 25"
    using h by (simp_all add: hh)
  note col = b [OF bh br]
  have s: "unat (r1 * 5) = 5 * unat r1" "unat (r2 * 5) = 5 * unat r2" "unat (r3 * 5) = 5 * unat r3" "unat (r4 * 5) = 5 * unat r4"
    using br by (auto intro!: unat_times5)
  define t0 where "t0 = mul32x32_64 h0 r0 + mul32x32_64 h1 (r4 * 5) + mul32x32_64 h2 (r3 * 5) + mul32x32_64 h3 (r2 * 5) + mul32x32_64 h4 (r1 * 5)"
  define t1 where "t1 = mul32x32_64 h0 r1 + mul32x32_64 h1 r0 + mul32x32_64 h2 (r4 * 5) + mul32x32_64 h3 (r3 * 5) + mul32x32_64 h4 (r2 * 5)"
  define t2 where "t2 = mul32x32_64 h0 r2 + mul32x32_64 h1 r1 + mul32x32_64 h2 r0 + mul32x32_64 h3 (r4 * 5) + mul32x32_64 h4 (r3 * 5)"
  define t3 where "t3 = mul32x32_64 h0 r3 + mul32x32_64 h1 r2 + mul32x32_64 h2 r1 + mul32x32_64 h3 r0 + mul32x32_64 h4 (r4 * 5)"
  define t4 where "t4 = mul32x32_64 h0 r4 + mul32x32_64 h1 r3 + mul32x32_64 h2 r2 + mul32x32_64 h3 r1 + mul32x32_64 h4 r0"
  have t: "unat t0 = unat h0 * unat r0 + unat h1 * (5 * unat r4) + unat h2 * (5 * unat r3) + unat h3 * (5 * unat r2) + unat h4 * (5 * unat r1)"
    "unat t1 = unat h0 * unat r1 + unat h1 * unat r0 + unat h2 * (5 * unat r4) + unat h3 * (5 * unat r3) + unat h4 * (5 * unat r2)"
    "unat t2 = unat h0 * unat r2 + unat h1 * unat r1 + unat h2 * unat r0 + unat h3 * (5 * unat r4) + unat h4 * (5 * unat r3)"
    "unat t3 = unat h0 * unat r3 + unat h1 * unat r2 + unat h2 * unat r1 + unat h3 * unat r0 + unat h4 * (5 * unat r4)"
    "unat t4 = unat h0 * unat r4 + unat h1 * unat r3 + unat h2 * unat r2 + unat h3 * unat r1 + unat h4 * unat r0"
    unfolding t0_def t1_def t2_def t3_def t4_def using col by (subst unat_sum5; simp add: unat_mul s)+
  have bt: "unat t0 < 71 * 2 ^ 52" "unat t1 < 63 * 2 ^ 52" "unat t2 < 55 * 2 ^ 52" "unat t3 < 50 * 2 ^ 52" "64 * unat t4 \<le> 523 * 2 ^ 52"
    unfolding t by (rule col)+
  have prod: "(val h * val r) mod poly_p =
      (unat t0 + 2 ^ 26 * unat t1 + 2 ^ 52 * unat t2 + 2 ^ 78 * unat t3 + 2 ^ 104 * unat t4) mod poly_p"
    unfolding t hh rr val.simps by (rule product_mod)
  note carried = donna_carries [OF bt]
  have "donna_mul r h = donna_carried t0 t1 t2 t3 t4"
    unfolding donna_mul_def donna_carried_def hh rr prod.case Let_def t0_def t1_def t2_def t3_def t4_def ..
  then show ?thesis using carried prod by simp
qed


section \<open>Reading the message and the key\<close>

lemma or_shift: "(x :: nat) < 2 ^ n \<Longrightarrow> x OR push_bit n y = x + 2 ^ n * y"
proof -
  assume x: "x < 2 ^ n"
  have lt: "bit x m \<Longrightarrow> m < n" for m using x take_bit_nat_eq_self [OF x] by (metis bit_take_bit_iff)
  have "x AND push_bit n y = 0"
  proof (rule bit_eqI)
    show "bit (x AND push_bit n y) m = bit 0 m" for m using lt [of m] by (auto simp: bit_and_iff bit_push_bit_iff)
  qed
  then have "x OR push_bit n y = x + push_bit n y" by (rule disjunctive_add_eq_or [symmetric])
  then show ?thesis by (simp add: push_bit_eq_mult)
qed

lemma or_shift': "(x :: nat) < 2 ^ n \<Longrightarrow> push_bit n y OR x = x + 2 ^ n * y"
  using or_shift by (simp add: or.commute)

lemma byte_less: "unat (b :: byte) < 256"
  using unsigned_less [of b] by simp

lemma unat_push32: "unat w * 2 ^ n < 2 ^ 32 \<Longrightarrow> unat (push_bit n (w :: u32)) = push_bit n (unat w)"
  unfolding unsigned_push_bit_eq by (simp add: take_bit_nat_eq_self push_bit_eq_mult)

lemma unat_push64: "unat w * 2 ^ n < 2 ^ 64 \<Longrightarrow> unat (push_bit n (w :: u64)) = push_bit n (unat w)"
  unfolding unsigned_push_bit_eq by (simp add: take_bit_nat_eq_self push_bit_eq_mult)

lemma unat_byte_up: "unat (ucast (b :: byte) :: u32) = unat b"
  using byte_less [of b] by (simp add: unsigned_ucast_eq take_bit_eq_mod)

lemma U8TO32_LE_value:
  "unat (U8TO32_LE (a # b # c # d # r)) = unat a + 256 * unat b + 65536 * unat c + 16777216 * unat d"
proof -
  note bs = byte_less [of a] byte_less [of b] byte_less [of c] byte_less [of d]
  have "unat (U8TO32_LE (a # b # c # d # r)) =
      ((unat a OR push_bit 8 (unat b)) OR push_bit 16 (unat c)) OR push_bit 24 (unat d)"
    using bs by (simp add: U8TO32_LE_def unsigned_or_eq unat_push32 unat_byte_up or.assoc)
  also have "\<dots> = unat a + 2 ^ 8 * unat b + 2 ^ 16 * unat c + 2 ^ 24 * unat d"
    using bs by (simp add: or_shift)
  finally show ?thesis by simp
qed

lemma le_value_append: "le_value (xs @ ys) = le_value xs + 256 ^ length xs * le_value ys"
  by (induction xs) (simp_all add: algebra_simps)

lemma le_value_less: "le_value xs < 256 ^ length xs"
proof (induction xs)
  case (Cons b bs)
  have "unat b + 256 * le_value bs < 256 * (le_value bs + 1)" using byte_less [of b] by simp
  also have "\<dots> \<le> 256 * 256 ^ length bs" using Cons.IH by (intro mult_le_mono2) simp
  finally show ?case by simp
qed simp

lemma le_value_zeros: "le_value (replicate n 0) = 0"
  by (induction n) simp_all

lemma U8TO32_LE_take:
  assumes "n + 4 \<le> length p"
  shows "unat (U8TO32_LE (drop n p)) = le_value (take 4 (drop n p))"
proof -
  have "length (drop n p) = Suc (Suc (Suc (Suc (length p - n - 4))))" using assms by simp
  from list4 [OF this] obtain a b c d r where "drop n p = a # b # c # d # r" by blast
  moreover have "take 4 (a # b # c # d # r) = [a, b, c, d]" by (simp add: eval_nat_numeral)
  ultimately show ?thesis by (simp add: U8TO32_LE_value)
qed

text \<open>Sixteen bytes as four words.\<close>

lemma le_value_words:
  assumes "length p = 16"
  shows "le_value p = unat (U8TO32_LE p) + 2 ^ 32 * unat (U8TO32_LE (drop 4 p)) + 2 ^ 64 * unat (U8TO32_LE (drop 8 p)) +
    2 ^ 96 * unat (U8TO32_LE (drop 12 p))"
proof -
  have "p = take 4 p @ take 4 (drop 4 p) @ take 4 (drop 8 p) @ take 4 (drop 12 p)"
    using append_take_drop_id [of 4 p] append_take_drop_id [of 4 "drop 4 p"] append_take_drop_id [of 4 "drop 8 p"] assms by simp
  then have "le_value p = le_value (take 4 p @ take 4 (drop 4 p) @ take 4 (drop 8 p) @ take 4 (drop 12 p))" by simp
  also have "\<dots> = unat (U8TO32_LE (drop 0 p)) + 2 ^ 32 * unat (U8TO32_LE (drop 4 p)) +
      2 ^ 64 * unat (U8TO32_LE (drop 8 p)) + 2 ^ 96 * unat (U8TO32_LE (drop 12 p))"
    using assms by (simp add: U8TO32_LE_take [of 0 p, simplified] U8TO32_LE_take le_value_append)
  finally show ?thesis by simp
qed


lemma mod_split: "(c :: nat) < B \<Longrightarrow> (B * u + c) mod (B * C) = B * (u mod C) + c"
  by (simp add: mod_mult2_eq)

lemma limb_of_words:
  assumes "(t :: nat) < 2 ^ 32"
  shows "(2 ^ 32 * u + t) div 2 ^ 26 mod 2 ^ 26 = 2 ^ 6 * (u mod 2 ^ 20) + t div 2 ^ 26"
    and "(2 ^ 32 * u + t) div 2 ^ 20 mod 2 ^ 26 = 2 ^ 12 * (u mod 2 ^ 14) + t div 2 ^ 20"
    and "(2 ^ 32 * u + t) div 2 ^ 14 mod 2 ^ 26 = 2 ^ 18 * (u mod 2 ^ 8) + t div 2 ^ 14"
proof -
  have d: "(2 ^ 32 * u + t) div 2 ^ 26 = 2 ^ 6 * u + t div 2 ^ 26" "(2 ^ 32 * u + t) div 2 ^ 20 = 2 ^ 12 * u + t div 2 ^ 20"
    "(2 ^ 32 * u + t) div 2 ^ 14 = 2 ^ 18 * u + t div 2 ^ 14"
    using div_mult_self4 [of "2 ^ 26" "2 ^ 6 * u" t] div_mult_self4 [of "2 ^ 20" "2 ^ 12 * u" t] div_mult_self4 [of "2 ^ 14" "2 ^ 18 * u" t]
    by simp_all
  have l: "t div 2 ^ 26 < 2 ^ 6" "t div 2 ^ 20 < 2 ^ 12" "t div 2 ^ 14 < 2 ^ 18"
    using assms by (simp_all add: div_less_iff_less_mult)
  show "(2 ^ 32 * u + t) div 2 ^ 26 mod 2 ^ 26 = 2 ^ 6 * (u mod 2 ^ 20) + t div 2 ^ 26"
    using mod_split [OF l(1), of u "2 ^ 20"] unfolding d by simp
  show "(2 ^ 32 * u + t) div 2 ^ 20 mod 2 ^ 26 = 2 ^ 12 * (u mod 2 ^ 14) + t div 2 ^ 20"
    using mod_split [OF l(2), of u "2 ^ 14"] unfolding d by simp
  show "(2 ^ 32 * u + t) div 2 ^ 14 mod 2 ^ 26 = 2 ^ 18 * (u mod 2 ^ 8) + t div 2 ^ 14"
    using mod_split [OF l(3), of u "2 ^ 8"] unfolding d by simp
qed

lemma limbs_of_words:
  fixes t0 t1 t2 t3 :: nat
  assumes "t0 < 2 ^ 32" "t1 < 2 ^ 32" "t2 < 2 ^ 32"
  shows "t0 mod 2 ^ 26 + 2 ^ 26 * ((2 ^ 32 * t1 + t0) div 2 ^ 26 mod 2 ^ 26) + 2 ^ 52 * ((2 ^ 32 * t2 + t1) div 2 ^ 20 mod 2 ^ 26) +
      2 ^ 78 * ((2 ^ 32 * t3 + t2) div 2 ^ 14 mod 2 ^ 26) + 2 ^ 104 * (t3 div 2 ^ 8) =
    t0 + 2 ^ 32 * t1 + 2 ^ 64 * t2 + 2 ^ 96 * t3"
proof -
  have sum: "m0 + 2 ^ 26 * (2 ^ 6 * m1 + d0) + 2 ^ 52 * (2 ^ 12 * m2 + d1) + 2 ^ 78 * (2 ^ 18 * m3 + d2) + 2 ^ 104 * d3 =
      t0 + 2 ^ 32 * t1 + 2 ^ 64 * t2 + 2 ^ 96 * t3"
    if "t0 = m0 + 2 ^ 26 * d0" "t1 = m1 + 2 ^ 20 * d1" "t2 = m2 + 2 ^ 14 * d2" "t3 = m3 + 2 ^ 8 * d3" for m0 d0 m1 d1 m2 d2 m3 d3 :: nat
    using that by simp
  show ?thesis unfolding limb_of_words [OF assms(1)] limb_of_words [OF assms(2)] limb_of_words [OF assms(3)]
    by (rule sum) (simp_all only: mod_mult_div_eq)
qed

lemma unat_word_pair:
  "unat (drop_bit n (push_bit 32 (ucast (u :: u32) :: u64) OR ucast (t :: u32)) AND 0x3ffffff) =
   (2 ^ 32 * unat u + unat t) div 2 ^ n mod 2 ^ 26"
proof -
  have "unat (push_bit 32 (ucast u :: u64) OR ucast t) = push_bit 32 (unat u) OR unat t"
    using u32_less [of u] by (simp add: unsigned_or_eq unat_push64 unat_up)
  also have "\<dots> = unat t + 2 ^ 32 * unat u" using u32_less [of t] by (rule or_shift')
  finally show ?thesis by (simp only: unat_low26 unat_drop add.commute)
qed

lemma unat_pair_limb:
  "unat (ucast (drop_bit n (push_bit 32 (ucast (u :: u32) :: u64) OR ucast (t :: u32)) AND 0x3ffffff) :: u32) =
   (2 ^ 32 * unat u + unat t) div 2 ^ n mod 2 ^ 26"
  unfolding unat_down unat_word_pair by (rule mod_less) (simp add: less_trans [OF mod_less_divisor])

lemma add_block_correct:
  assumes h: "acc_limbs h" and mp: "length mp = 16" and hibit: "hibit = 0 \<or> hibit = push_bit 24 1"
  shows "sum_limbs (add_block hibit mp h) \<and> val (add_block hibit mp h) = val h + le_value mp + 2 ^ 104 * unat hibit"
proof -
  obtain h0 h1 h2 h3 h4 where hh: "h = (h0, h1, h2, h3, h4)" by (cases h)
  define t0 t1 t2 t3 where t: "t0 = U8TO32_LE mp" "t1 = U8TO32_LE (drop 4 mp)" "t2 = U8TO32_LE (drop 8 mp)" "t3 = U8TO32_LE (drop 12 mp)"
  define l0 where "l0 = t0 AND 0x3ffffff"
  define l1 :: u32 where "l1 = ucast (drop_bit 26 (push_bit 32 (ucast t1 :: u64) OR ucast t0) AND 0x3ffffff)"
  define l2 :: u32 where "l2 = ucast (drop_bit 20 (push_bit 32 (ucast t2 :: u64) OR ucast t1) AND 0x3ffffff)"
  define l3 :: u32 where "l3 = ucast (drop_bit 14 (push_bit 32 (ucast t3 :: u64) OR ucast t2) AND 0x3ffffff)"
  define l4 where "l4 = drop_bit 8 t3 OR hibit"
  have res: "add_block hibit mp h = (h0 + l0, h1 + l1, h2 + l2, h3 + l3, h4 + l4)"
    by (simp add: add_block_def hh l0_def l1_def l2_def l3_def l4_def t Let_def)
  have l: "unat l0 = unat t0 mod 2 ^ 26" "unat l1 = (2 ^ 32 * unat t1 + unat t0) div 2 ^ 26 mod 2 ^ 26"
    "unat l2 = (2 ^ 32 * unat t2 + unat t1) div 2 ^ 20 mod 2 ^ 26" "unat l3 = (2 ^ 32 * unat t3 + unat t2) div 2 ^ 14 mod 2 ^ 26"
    unfolding l0_def l1_def l2_def l3_def by (rule unat_low26 unat_pair_limb)+
  have t3: "unat t3 div 2 ^ 8 < 2 ^ 24" using u32_less [of t3] by (simp add: div_less_iff_less_mult)
  have l4: "unat l4 = unat t3 div 2 ^ 8 + unat hibit"
  proof (cases "hibit = 0")
    case False
    then have hb: "hibit = push_bit 24 1" "unat hibit = 2 ^ 24" using hibit by (simp_all add: unat_push32)
    have "unat l4 = (unat t3 div 2 ^ 8) OR push_bit 24 1"
      unfolding l4_def by (simp add: unsigned_or_eq unat_drop hb(1) unat_push32)
    also have "\<dots> = unat t3 div 2 ^ 8 + 2 ^ 24 * 1" using t3 by (rule or_shift)
    finally show ?thesis by (simp add: hb(2))
  qed (simp add: l4_def unat_drop)
  have hb: "unat hibit \<le> 2 ^ 24" using hibit by (auto simp: unat_push32)
  have b: "unat l0 < 2 ^ 26" "unat l1 < 2 ^ 26" "unat l2 < 2 ^ 26" "unat l3 < 2 ^ 26" "unat l4 < 2 ^ 25"
    using t3 hb by (simp_all add: l l4)
  have bh: "unat h0 \<le> 42 * 2 ^ 26" "unat h1 < 2 ^ 26" "unat h2 < 2 ^ 26" "unat h3 < 2 ^ 26" "unat h4 < 2 ^ 26"
    using h by (simp_all add: hh)
  have s: "unat (h0 + l0) = unat h0 + unat l0" "unat (h1 + l1) = unat h1 + unat l1" "unat (h2 + l2) = unat h2 + unat l2"
    "unat (h3 + l3) = unat h3 + unat l3" "unat (h4 + l4) = unat h4 + unat l4"
    using b bh by (auto intro!: unat_plus32)
  have "le_value mp = unat l0 + 2 ^ 26 * unat l1 + 2 ^ 52 * unat l2 + 2 ^ 78 * unat l3 + 2 ^ 104 * (unat t3 div 2 ^ 8)"
    unfolding le_value_words [OF mp] t [symmetric] l using limbs_of_words [OF u32_less u32_less u32_less] by (simp only:)
  then have "val (add_block hibit mp h) = val h + le_value mp + 2 ^ 104 * unat hibit"
    unfolding res unfolding hh val.simps s l4 by (simp add: algebra_simps)
  moreover have "sum_limbs (add_block hibit mp h)" unfolding res sum_limbs.simps s using b bh by simp
  ultimately show ?thesis by blast
qed


lemma bit_less: "(x :: nat) < 2 ^ n \<Longrightarrow> bit x m \<Longrightarrow> m < n"
  using take_bit_nat_eq_self [of x n] by (metis bit_take_bit_iff)

lemma and_less: "(x :: nat) < 2 ^ n \<Longrightarrow> x AND a < 2 ^ n"
  using take_bit_nat_eq_self [of x n] take_bit_nat_less_exp [of n "x AND a"] by (metis take_bit_and take_bit_nat_eq_self_iff and.assoc take_bit_eq_mask and.commute)

lemma and_less': "(x :: nat) < 2 ^ n \<Longrightarrow> a AND x < 2 ^ n"
  using and_less [of x n a] by (simp add: and.commute)

lemma and_split:
  assumes "(x :: nat) < 2 ^ n" and "a < 2 ^ n"
  shows "(x + 2 ^ n * y) AND (a + 2 ^ n * b) = (x AND a) + 2 ^ n * (y AND b)"
proof -
  have "(x OR push_bit n y) AND (a OR push_bit n b) = (x AND a) OR push_bit n (y AND b)"
  proof (rule bit_eqI)
    show "bit ((x OR push_bit n y) AND (a OR push_bit n b)) m = bit ((x AND a) OR push_bit n (y AND b)) m" for m
      using bit_less [OF assms(1), of m] bit_less [OF assms(2), of m] by (auto simp: bit_and_iff bit_or_iff bit_push_bit_iff)
  qed
  then show ?thesis using assms by (simp only: or_shift and_less)
qed

lemma and_low26: "(m :: nat) < 2 ^ 26 \<Longrightarrow> x AND m = (x mod 2 ^ 26) AND m"
  using take_bit_nat_eq_self [of m 26] by (metis and.assoc and.commute take_bit_eq_mask take_bit_eq_mod)

lemma unat_shifted_mod:
  assumes "k \<le> 26"
  shows "unat (drop_bit k t OR push_bit (32 - k) (u :: u32)) mod 2 ^ 26 = (2 ^ 32 * unat u + unat t) div 2 ^ k mod 2 ^ 26"
proof -
  have lt: "unat t div 2 ^ k < 2 ^ (32 - k)"
    using u32_less [of t] assms by (simp add: div_less_iff_less_mult flip: power_add)
  have "unat (drop_bit k t OR push_bit (32 - k) u) = (unat t div 2 ^ k) OR take_bit 32 (push_bit (32 - k) (unat u))"
    by (simp add: unsigned_or_eq unat_drop unsigned_push_bit_eq)
  then have "take_bit 26 (unat (drop_bit k t OR push_bit (32 - k) u)) = take_bit 26 ((unat t div 2 ^ k) OR push_bit (32 - k) (unat u))"
    by simp
  also have "\<dots> = take_bit 26 (unat t div 2 ^ k + 2 ^ (32 - k) * unat u)" by (simp only: or_shift [OF lt])
  also have "unat t div 2 ^ k + 2 ^ (32 - k) * unat u = (2 ^ 32 * unat u + unat t) div 2 ^ k"
  proof -
    have "(2 :: nat) ^ 32 = 2 ^ k * 2 ^ (32 - k)" using assms by (simp flip: power_add)
    then show ?thesis unfolding \<open>2 ^ 32 = _\<close> mult.assoc by simp
  qed
  finally show ?thesis by (simp only: take_bit_eq_mod)
qed

lemma unat_masked: "unat (m :: u32) < 2 ^ 26 \<Longrightarrow> unat (x AND m) = (unat x mod 2 ^ 26) AND unat m"
  unfolding unsigned_and_eq by (rule and_low26)

lemma numerals26:
  "(26 :: nat) \<le> 26" "(20 :: nat) \<le> 26" "(14 :: nat) \<le> 26" "(32 :: nat) - 26 = 6" "(32 :: nat) - 20 = 12" "(32 :: nat) - 14 = 18"
  "(0x3ffffff :: nat) < 2 ^ 26" "(0x3ffff03 :: nat) < 2 ^ 26" "(0x3ffc0ff :: nat) < 2 ^ 26" "(0x3f03fff :: nat) < 2 ^ 26"
  "unat (0x3ffffff :: u32) = 0x3ffffff" "unat (0x00fffff :: u32) = 0x00fffff" "(0x00fffff :: nat) < 2 ^ 26" "unat (0x3ffff03 :: u32) = 0x3ffff03" "unat (0x3ffc0ff :: u32) = 0x3ffc0ff" "unat (0x3f03fff :: u32) = 0x3f03fff"
  by simp_all

lemma le_value_key:
  assumes "16 \<le> length key"
  shows "le_value (take 16 key) = unat (U8TO32_LE key) + 2 ^ 32 * unat (U8TO32_LE (drop 4 key)) + 2 ^ 64 * unat (U8TO32_LE (drop 8 key)) +
    2 ^ 96 * unat (U8TO32_LE (drop 12 key))"
proof -
  have "U8TO32_LE (drop n (take 16 key)) = U8TO32_LE (drop n key)" if "n \<le> 12" for n
    using that assms by (simp add: U8TO32_LE_def)
  from this [of 0] this [of 4] this [of 8] this [of 12] show ?thesis using le_value_words [of "take 16 key"] assms by simp
qed

lemma nested_limbs: "l0 + 2 ^ 26 * l1 + 2 ^ 52 * l2 + 2 ^ 78 * l3 + 2 ^ 104 * l4 =
    l0 + 2 ^ 26 * (l1 + 2 ^ 26 * (l2 + 2 ^ 26 * (l3 + 2 ^ 26 * (l4 :: nat))))"
  by simp

lemma clamp_digits: "poly_clamp = 0x3ffffff + 2 ^ 26 * (0x3ffff03 + 2 ^ 26 * (0x3ffc0ff + 2 ^ 26 * (0x3f03fff + 2 ^ 26 * 0x00fffff)))"
  by (simp add: poly_clamp_def)

lemma clamp_key_correct:
  assumes key: "16 \<le> length key"
  shows "key_limbs (clamp_key key) \<and> val (clamp_key key) = le_value (take 16 key) AND poly_clamp"
proof -
  define t0 t1 t2 t3 where t: "t0 = U8TO32_LE key" "t1 = U8TO32_LE (drop 4 key)" "t2 = U8TO32_LE (drop 8 key)" "t3 = U8TO32_LE (drop 12 key)"
  define r0 where "r0 = t0 AND 0x3ffffff"
  define r1 where "r1 = (drop_bit 26 t0 OR push_bit 6 t1) AND 0x3ffff03"
  define r2 where "r2 = (drop_bit 20 t1 OR push_bit 12 t2) AND 0x3ffc0ff"
  define r3 where "r3 = (drop_bit 14 t2 OR push_bit 18 t3) AND 0x3f03fff"
  define r4 where "r4 = drop_bit 8 t3 AND 0x00fffff"
  have res: "clamp_key key = (r0, r1, r2, r3, r4)"
    unfolding clamp_key_def t r0_def r1_def r2_def r3_def r4_def Let_def ..
  define l0 l1 l2 l3 l4 where l: "l0 = unat t0 mod 2 ^ 26" "l1 = (2 ^ 32 * unat t1 + unat t0) div 2 ^ 26 mod 2 ^ 26"
    "l2 = (2 ^ 32 * unat t2 + unat t1) div 2 ^ 20 mod 2 ^ 26" "l3 = (2 ^ 32 * unat t3 + unat t2) div 2 ^ 14 mod 2 ^ 26" "l4 = unat t3 div 2 ^ 8"
  have r: "unat r0 = l0 AND 0x3ffffff" "unat r1 = l1 AND 0x3ffff03" "unat r2 = l2 AND 0x3ffc0ff" "unat r3 = l3 AND 0x3f03fff"
    "unat r4 = l4 AND 0x00fffff"
  proof -
    show "unat r0 = l0 AND 0x3ffffff" unfolding r0_def l using unat_masked [of "0x3ffffff" t0] by (simp only: numerals26)
    show "unat r1 = l1 AND 0x3ffff03" unfolding r1_def l
      using unat_masked [of "0x3ffff03" "drop_bit 26 t0 OR push_bit 6 t1"] unat_shifted_mod [of 26 t0 t1] by (simp only: numerals26)
    show "unat r2 = l2 AND 0x3ffc0ff" unfolding r2_def l
      using unat_masked [of "0x3ffc0ff" "drop_bit 20 t1 OR push_bit 12 t2"] unat_shifted_mod [of 20 t1 t2] by (simp only: numerals26)
    show "unat r3 = l3 AND 0x3f03fff" unfolding r3_def l
      using unat_masked [of "0x3f03fff" "drop_bit 14 t2 OR push_bit 18 t3"] unat_shifted_mod [of 14 t2 t3] by (simp only: numerals26)
    have "unat t3 div 2 ^ 8 < 2 ^ 26" using u32_less [of t3] by (simp add: div_less_iff_less_mult)
    then show "unat r4 = l4 AND 0x00fffff" unfolding r4_def l
      using unat_masked [of "0x00fffff" "drop_bit 8 t3"] by (simp only: numerals26 unat_drop mod_less)
  qed
  have lb: "l0 < 2 ^ 26" "l1 < 2 ^ 26" "l2 < 2 ^ 26" "l3 < 2 ^ 26" by (simp_all add: l)
  have words: "le_value (take 16 key) = l0 + 2 ^ 26 * (l1 + 2 ^ 26 * (l2 + 2 ^ 26 * (l3 + 2 ^ 26 * l4)))"
    unfolding le_value_key [OF key] t [symmetric] l using limbs_of_words [OF u32_less [of t0] u32_less [of t1] u32_less [of t2], of "unat t3"]
    by (simp only: nested_limbs)
  have "le_value (take 16 key) AND poly_clamp = unat r0 + 2 ^ 26 * (unat r1 + 2 ^ 26 * (unat r2 + 2 ^ 26 * (unat r3 + 2 ^ 26 * unat r4)))"
    unfolding words clamp_digits r by (simp only: and_split [OF lb(1) numerals26(7)] and_split [OF lb(2) numerals26(8)]
      and_split [OF lb(3) numerals26(9)] and_split [OF lb(4) numerals26(10)])
  then have "val (clamp_key key) = le_value (take 16 key) AND poly_clamp" unfolding res val.simps by (simp only: nested_limbs)
  moreover have "key_limbs (clamp_key key)"
    unfolding res key_limbs.simps r using lb [THEN and_less] and_less' [of "0x00fffff" 20 l4] by simp
  ultimately show ?thesis by blast
qed


section \<open>The loop\<close>

lemma poly_acc_mod: "poly_acc r a m mod poly_p = poly_acc r (a mod poly_p) m mod poly_p"
proof (cases "m = []")
  case False
  have "((a + x) * r) mod poly_p = ((a mod poly_p + x) * r) mod poly_p" for x
    by (metis mod_add_left_eq mod_mult_left_eq)
  then show ?thesis using False by (simp add: poly_acc.simps [of r a m] poly_acc.simps [of r "a mod poly_p" m])
qed (simp add: poly_acc.simps)

lemma donna_step:
  assumes r: "key_limbs r" and h: "acc_limbs h" and mp: "length mp = 16" and hb: "hibit = 0 \<or> hibit = push_bit 24 1"
  shows "acc_limbs (donna_mul r (add_block hibit mp h))"
    and "val (donna_mul r (add_block hibit mp h)) mod poly_p = ((val h + (le_value mp + 2 ^ 104 * unat hibit)) * val r) mod poly_p"
  using add_block_correct [OF h mp hb] donna_mul_correct [OF r, of "add_block hibit mp h"] by (simp_all add: add.assoc)

lemma donna_loop_correct:
  assumes r: "key_limbs r"
  shows "acc_limbs h \<Longrightarrow> acc_limbs (donna_loop r m h) \<and> val (donna_loop r m h) mod poly_p = poly_acc (val r) (val h) m mod poly_p"
  using r
proof (induction r m h rule: donna_loop.induct)
  case (1 r m h)
  consider "16 \<le> length m" | "m = []" | "m \<noteq> []" "length m < 16" by linarith
  then show ?case
  proof cases
    case a: 1
    let ?h = "donna_mul r (add_block (push_bit 24 1) (take 16 m) h)"
    have l: "length (take 16 m) = 16" using a by simp
    have v: "le_value (take 16 m @ [1]) = le_value (take 16 m) + 2 ^ 128" using l by (simp add: le_value_append)
    have "unat (push_bit 24 1 :: u32) = 2 ^ 24" by (simp add: unat_push32)
    then have h: "val ?h mod poly_p = ((val h + le_value (take 16 m @ [1])) * val r) mod poly_p"
      using donna_step(2) [OF 1(3,2) l, of "push_bit 24 1"] unfolding v by simp
    have IH: "acc_limbs (donna_loop r (drop 16 m) ?h) \<and>
        val (donna_loop r (drop 16 m) ?h) mod poly_p = poly_acc (val r) (val ?h) (drop 16 m) mod poly_p"
      using a 1(3) donna_step(1) [OF 1(3,2) l] by (intro "1.IH") auto
    have "m \<noteq> []" using a by auto
    then have "poly_acc (val r) (val h) m = poly_acc (val r) (val ?h mod poly_p) (drop 16 m)"
      unfolding h by (simp add: poly_acc.simps [of "val r" "val h" m])
    then show ?thesis using IH a poly_acc_mod [of "val r" "val ?h" "drop 16 m"] by (simp add: donna_loop.simps [of r m h])
  next
    case 2
    then show ?thesis using 1(2) by (simp add: donna_loop.simps [of r "[]" h] poly_acc.simps [of _ _ "[]"])
  next
    case a: 3
    let ?mp = "m @ 1 # replicate (15 - length m) 0"
    have l: "length ?mp = 16" using a by simp
    have "le_value ?mp = le_value (take 16 m @ [1])" using a by (simp add: le_value_append le_value_zeros)
    then have "val (donna_mul r (add_block 0 ?mp h)) mod poly_p = poly_acc (val r) (val h) m mod poly_p"
      using donna_step(2) [OF 1(3,2) l, of 0] a by (simp add: poly_acc.simps [of "val r" "val h" m] poly_acc.simps [of _ _ "[]"])
    then show ?thesis using donna_step(1) [OF 1(3,2) l, of 0] a by (simp add: donna_loop.simps [of r m h])
  qed
qed


section \<open>The end\<close>

fun reduced_limbs :: "limbs \<Rightarrow> bool" where
  "reduced_limbs (h0, h1, h2, h3, h4) \<longleftrightarrow>
     unat h0 < 2 ^ 26 \<and> unat h1 < 2 ^ 26 \<and> unat h2 < 2 ^ 26 \<and> unat h3 < 2 ^ 26 \<and> unat h4 < 2 ^ 26"

lemma unat_carry32: "unat a < 2 ^ 26 \<Longrightarrow> unat (a + drop_bit 26 b :: u32) = unat a + unat b div 2 ^ 26"
proof -
  assume a: "unat a < 2 ^ 26"
  have "unat b div 2 ^ 26 < 2 ^ 6" using u32_less [of b] by (simp add: div_less_iff_less_mult)
  then show ?thesis using a by (subst unat_plus32) (simp_all add: unat_drop)
qed

lemma div26_small: "(x :: nat) < 2 * 2 ^ 26 \<Longrightarrow> x div 2 ^ 26 \<le> 1"
  by (simp add: less_mult_imp_div_less flip: less_Suc_eq_le)

lemma donna_carry_correct:
  assumes h: "acc_limbs h"
  shows "reduced_limbs (donna_carry h) \<and> val (donna_carry h) mod poly_p = val h mod poly_p"
proof -
  obtain h0 h1 h2 h3 h4 where hh: "h = (h0, h1, h2, h3, h4)" by (cases h)
  have bh: "unat h0 \<le> 42 * 2 ^ 26" "unat h1 < 2 ^ 26" "unat h2 < 2 ^ 26" "unat h3 < 2 ^ 26" "unat h4 < 2 ^ 26"
    using h by (simp_all add: hh)
  define u1 u2 u3 u4 where u: "u1 = h1 + drop_bit 26 h0" "u2 = h2 + drop_bit 26 u1" "u3 = h3 + drop_bit 26 u2" "u4 = h4 + drop_bit 26 u3"
  define b where "b = drop_bit 26 u4"
  have nu: "unat u1 = unat h1 + unat h0 div 2 ^ 26" "unat u2 = unat h2 + unat u1 div 2 ^ 26"
    "unat u3 = unat h3 + unat u2 div 2 ^ 26" "unat u4 = unat h4 + unat u3 div 2 ^ 26" "unat b = unat u4 div 2 ^ 26"
    unfolding b_def u using bh by (simp_all only: unat_carry32 unat_drop)
  have d: "unat h0 div 2 ^ 26 \<le> 42" using bh(1) div_le_mono [OF bh(1), of "2 ^ 26"] by simp
  have d1: "unat u1 div 2 ^ 26 \<le> 1" using bh(2) d by (intro div26_small) (simp add: nu)
  have d2: "unat u2 div 2 ^ 26 \<le> 1" using bh(3) d1 by (intro div26_small) (simp add: nu)
  have d3: "unat u3 div 2 ^ 26 \<le> 1" using bh(4) d2 by (intro div26_small) (simp add: nu)
  have d4: "unat b \<le> 1" unfolding nu(5) using bh(5) d3 by (intro div26_small) (simp add: nu)
  define l :: "u32 \<Rightarrow> u32" where "l x = x AND 0x3ffffff" for x
  have l: "unat (l x) = unat x mod 2 ^ 26" for x unfolding l_def by (rule unat_low26)
  have lb: "unat (l x) < 2 ^ 26" for x by (simp add: l)
  define v where "v = l h0 + b * 5"
  have "unat (b * 5) = 5 * unat b" using d4 by (intro unat_times5) simp
  then have nv: "unat v = unat (l h0) + 5 * unat b" unfolding v_def using lb [of h0] d4 by (subst unat_plus32) simp_all
  have res: "donna_carry h = (l v, l u1 + drop_bit 26 v, l u2, l u3, l u4)"
    unfolding donna_carry_def hh prod.case Let_def l_def v_def b_def u ..
  have n1: "unat (l u1 + drop_bit 26 v) = unat (l u1) + unat v div 2 ^ 26" using lb by (rule unat_carry32)
  have eq: "unat x = unat (l x) + 2 ^ 26 * (unat x div 2 ^ 26)" for x unfolding l by (rule div_mod_26)
  have sum: "unat (l h0) + 2 ^ 26 * unat (l u1) + 2 ^ 52 * unat (l u2) + 2 ^ 78 * unat (l u3) + 2 ^ 104 * unat (l u4) + 2 ^ 130 * unat b =
      unat h0 + 2 ^ 26 * unat h1 + 2 ^ 52 * unat h2 + 2 ^ 78 * unat h3 + 2 ^ 104 * unat h4"
    using eq [of h0] eq [of u1] eq [of u2] eq [of u3] eq [of u4] by (intro carry_sum) (simp_all only: nu)
  have "(2 ^ 130 :: nat) * unat b = 5 * unat b + unat b * poly_p" by (simp add: poly_p_def)
  moreover have "unat (l v) + 2 ^ 26 * (unat v div 2 ^ 26) = unat (l h0) + 5 * unat b" using eq [of v] nv by simp
  ultimately have "unat (l v) + 2 ^ 26 * (unat (l u1) + unat v div 2 ^ 26) + 2 ^ 52 * unat (l u2) + 2 ^ 78 * unat (l u3) +
      2 ^ 104 * unat (l u4) + unat b * poly_p =
      unat h0 + 2 ^ 26 * unat h1 + 2 ^ 52 * unat h2 + 2 ^ 78 * unat h3 + 2 ^ 104 * unat h4"
    using sum by (simp only: distrib_left)
  then have "val (donna_carry h) + unat b * poly_p = val h"
    unfolding res unfolding hh val.simps n1 .
  moreover have "unat (l u1) + unat v div 2 ^ 26 < 2 ^ 26"
  proof (cases "unat b = 0")
    case True
    then show ?thesis using lb [of h0] lb [of u1] by (simp add: nv)
  next
    case False
    then have b1: "unat b = 1" using d4 by simp
    have "2 ^ 26 * unat (l u1) \<le> 41 * 2 ^ 26" using sum bh unfolding b1 by simp
    moreover have "unat v div 2 ^ 26 \<le> 1" using lb [of h0] d4 by (intro div26_small) (simp add: nv)
    ultimately show ?thesis by simp
  qed
  then have "reduced_limbs (donna_carry h)" unfolding res reduced_limbs.simps n1 using lb by simp
  ultimately show ?thesis by (metis mod_mult_self1)
qed


lemma freeze_sum:
  fixes h0 h1 h2 h3 h4 :: nat
  assumes "h0 + 5 = m0 + 2 ^ 26 * c0" "h1 + c0 = m1 + 2 ^ 26 * c1" "h2 + c1 = m2 + 2 ^ 26 * c2" "h3 + c2 = m3 + 2 ^ 26 * c3"
  shows "h0 + 2 ^ 26 * h1 + 2 ^ 52 * h2 + 2 ^ 78 * h3 + 2 ^ 104 * h4 + 5 =
    m0 + 2 ^ 26 * m1 + 2 ^ 52 * m2 + 2 ^ 78 * m3 + 2 ^ 104 * (h4 + c3)"
  using assms by simp

lemma unat_minus_borrow:
  "unat (x :: u32) \<le> 2 ^ 26 \<Longrightarrow>
   unat (x - push_bit 26 1) = (if unat x = 2 ^ 26 then 0 else unat x + (2 ^ 32 - 2 ^ 26))"
proof -
  assume x: "unat x \<le> 2 ^ 26"
  have one: "unat (push_bit 26 1 :: u32) = 2 ^ 26" by (simp add: unat_push32)
  show ?thesis
  proof (cases "unat x = 2 ^ 26")
    case True
    then have "x = push_bit 26 1" using one by (simp only: word_unat_eq_iff)
    then show ?thesis using True by simp
  next
    case False
    then have "\<not> unat (push_bit 26 1 :: u32) \<le> unat x" using x one by simp
    then show ?thesis using False unfolding unat_sub_if' by (simp add: one)
  qed
qed

lemma donna_freeze_correct:
  assumes h: "reduced_limbs h"
  shows "reduced_limbs (donna_freeze h) \<and> val (donna_freeze h) = val h mod poly_p"
proof -
  obtain h0 h1 h2 h3 h4 where hh: "h = (h0, h1, h2, h3, h4)" by (cases h)
  have bh: "unat h0 < 2 ^ 26" "unat h1 < 2 ^ 26" "unat h2 < 2 ^ 26" "unat h3 < 2 ^ 26" "unat h4 < 2 ^ 26"
    using h by (simp_all add: hh)
  define u0 u1 u2 u3 u4 where u: "u0 = h0 + 5" "u1 = h1 + drop_bit 26 u0" "u2 = h2 + drop_bit 26 u1" "u3 = h3 + drop_bit 26 u2"
    "u4 = h4 + drop_bit 26 u3"
  define g4 where "g4 = u4 - push_bit 26 1"
  define b where "b = drop_bit 31 g4 - 1"
  define l :: "u32 \<Rightarrow> u32" where "l x = x AND 0x3ffffff" for x
  have l: "unat (l x) = unat x mod 2 ^ 26" for x unfolding l_def by (rule unat_low26)
  have lb: "unat (l x) < 2 ^ 26" for x by (simp add: l)
  have res: "donna_freeze h = ((h0 AND NOT b) OR (l u0 AND b), (h1 AND NOT b) OR (l u1 AND b), (h2 AND NOT b) OR (l u2 AND b),
      (h3 AND NOT b) OR (l u3 AND b), (h4 AND NOT b) OR (g4 AND b))"
    unfolding donna_freeze_def hh prod.case Let_def l_def b_def g4_def u ..
  have nu: "unat u0 = unat h0 + 5" "unat u1 = unat h1 + unat u0 div 2 ^ 26" "unat u2 = unat h2 + unat u1 div 2 ^ 26"
    "unat u3 = unat h3 + unat u2 div 2 ^ 26" "unat u4 = unat h4 + unat u3 div 2 ^ 26"
    using bh unfolding u(2-5) by (simp_all only: unat_carry32) (simp add: u(1) unat_plus32)
  have d0: "unat u0 div 2 ^ 26 \<le> 1" using bh(1) by (intro div26_small) (simp add: nu)
  have d1: "unat u1 div 2 ^ 26 \<le> 1" using bh(2) d0 by (intro div26_small) (simp add: nu)
  have d2: "unat u2 div 2 ^ 26 \<le> 1" using bh(3) d1 by (intro div26_small) (simp add: nu)
  have d3: "unat u3 div 2 ^ 26 \<le> 1" using bh(4) d2 by (intro div26_small) (simp add: nu)
  have u4: "unat u4 \<le> 2 ^ 26" using bh(5) d3 by (simp add: nu)
  have eq: "unat x = unat (l x) + 2 ^ 26 * (unat x div 2 ^ 26)" for x unfolding l by (rule div_mod_26)
  have sum: "val h + 5 = unat (l u0) + 2 ^ 26 * unat (l u1) + 2 ^ 52 * unat (l u2) + 2 ^ 78 * unat (l u3) + 2 ^ 104 * unat u4"
    using eq [of u0] eq [of u1] eq [of u2] eq [of u3] unfolding hh val.simps nu by (rule freeze_sum)
  have below: "val h < 2 ^ 130" using bh unfolding hh val.simps by simp
  show ?thesis
  proof (cases "unat u4 = 2 ^ 26")
    case True
    have g4: "g4 = 0" using unat_minus_borrow [OF u4] True unfolding g4_def by (simp add: unat_eq_zero)
    have "b = - 1" unfolding b_def g4 by simp
    then have f: "donna_freeze h = (l u0, l u1, l u2, l u3, 0)" unfolding res by (simp add: g4)
    have "val (donna_freeze h) + poly_p = val h" using sum unfolding f val.simps True by (simp add: poly_p_def)
    moreover have "val h < 2 * poly_p" using below by (simp add: poly_p_def)
    ultimately have "val (donna_freeze h) = val h mod poly_p" by (metis mod_add_self2 mod_less add_less_cancel_right mult_2)
    moreover have "reduced_limbs (donna_freeze h)" unfolding f reduced_limbs.simps using lb by simp
    ultimately show ?thesis by blast
  next
    case False
    then have "unat g4 = unat u4 + (2 ^ 32 - 2 ^ 26)" using unat_minus_borrow [OF u4] unfolding g4_def by simp
    then have "unat (drop_bit 31 g4) = 1" using u4 False unfolding unat_drop by (simp add: div_nat_eqI)
    then have "drop_bit 31 g4 = 1" by (simp only: word_unat_eq_iff unsigned_1)
    then have "b = 0" unfolding b_def by simp
    then have f: "donna_freeze h = h" unfolding res unfolding hh by simp
    have "val h < poly_p" using sum False u4 lb [of u0] lb [of u1] lb [of u2] lb [of u3] by (simp add: poly_p_def)
    then show ?thesis using h by (simp add: f)
  qed
qed


section \<open>The tag\<close>

lemma length_le_bytes [simp]: "length (le_bytes n v) = n"
  by (induction n arbitrary: v) simp_all

lemma le_bytes_append: "le_bytes (m + n) v = le_bytes m v @ le_bytes n (v div 256 ^ m)"
  by (induction m arbitrary: v) (simp_all add: div_mult2_eq)

lemma le_bytes_mod: "le_bytes n (v mod 256 ^ n) = le_bytes n v"
proof (induction n arbitrary: v)
  case (Suc n)
  have e: "v mod 256 ^ Suc n = 256 * (v div 256 mod 256 ^ n) + v mod 256" unfolding power_Suc by (rule mod_mult2_eq)
  have d: "v mod 256 ^ Suc n div 256 = v div 256 mod 256 ^ n" unfolding e by simp
  have "(of_nat (v mod 256 ^ Suc n) :: byte) = of_nat v"
    unfolding word_of_nat_eq_iff take_bit_eq_mod e by simp
  then show ?case unfolding le_bytes.simps d Suc.IH by simp
qed simp

lemma le_bytes_4: "le_bytes 4 v = [of_nat v, of_nat (v div 2 ^ 8), of_nat (v div 2 ^ 16), of_nat (v div 2 ^ 24)]"
proof -
  have four: "(4 :: nat) = Suc (Suc (Suc (Suc 0)))" by simp
  have "v div 2 ^ 16 = v div 256 div 256" "v div 2 ^ 24 = v div 256 div 256 div 256" by (simp_all flip: div_mult2_eq)
  then show ?thesis unfolding four le_bytes.simps by simp
qed

lemma U32TO8_LE_bytes: "U32TO8_LE f = le_bytes 4 (unat f)"
proof -
  have "ucast (drop_bit n f) = (of_nat (unat f div 2 ^ n) :: byte)" for n
    unfolding unat_drop [symmetric] by (rule of_nat_unat [symmetric])
  from this [of 8] this [of 16] this [of 24] show ?thesis
    unfolding U32TO8_LE_def le_bytes_4 of_nat_unat by simp
qed


lemma le_bytes_16:
  assumes "x = m0 + 2 ^ 32 * m1 + 2 ^ 64 * m2 + 2 ^ 96 * m3" and "m0 < 2 ^ 32" "m1 < 2 ^ 32" "m2 < 2 ^ 32"
  shows "le_bytes 16 x = le_bytes 4 m0 @ le_bytes 4 m1 @ le_bytes 4 m2 @ le_bytes 4 m3"
proof -
  have split: "le_bytes (4 + n) (a + 2 ^ 32 * b) = le_bytes 4 a @ le_bytes n b" if "a < 2 ^ 32" for n a b
  proof -
    have "(a + 2 ^ 32 * b) div 256 ^ 4 = b" "(a + 2 ^ 32 * b) mod 256 ^ 4 = a mod 256 ^ 4" using that by simp_all
    then show ?thesis unfolding le_bytes_append by (metis le_bytes_mod)
  qed
  have "x = m0 + 2 ^ 32 * (m1 + 2 ^ 32 * (m2 + 2 ^ 32 * m3))" using assms(1) by simp
  then have "le_bytes (4 + (4 + (4 + 4))) x = le_bytes 4 m0 @ le_bytes 4 m1 @ le_bytes 4 m2 @ le_bytes 4 m3"
    by (simp only: split assms)
  then show ?thesis by simp
qed

lemma unat_pack:
  assumes "unat a < 2 ^ 26" and "j \<le> 18"
  shows "unat (drop_bit j a OR push_bit (26 - j) (b :: u32)) = unat a div 2 ^ j + 2 ^ (26 - j) * (unat b mod 2 ^ (6 + j))"
proof -
  have lt: "unat a div 2 ^ j < 2 ^ (26 - j)" using assms by (simp add: div_less_iff_less_mult flip: power_add)
  have "unat (push_bit (26 - j) b) = push_bit (26 - j) (unat b mod 2 ^ (6 + j))"
    unfolding unsigned_push_bit_eq take_bit_push_bit using assms(2) by (simp add: take_bit_eq_mod)
  then show ?thesis using or_shift [OF lt] by (simp add: unsigned_or_eq unat_drop)
qed

lemma pack_sum:
  fixes h0 h1 h2 h3 h4 :: nat
  assumes "h1 = p1 + 2 ^ 6 * q1" "h2 = p2 + 2 ^ 12 * q2" "h3 = p3 + 2 ^ 18 * q3" "h4 = p4 + 2 ^ 24 * q4"
  shows "(h0 + 2 ^ 26 * p1) + 2 ^ 32 * (q1 + 2 ^ 20 * p2) + 2 ^ 64 * (q2 + 2 ^ 14 * p3) + 2 ^ 96 * (q3 + 2 ^ 8 * p4) + 2 ^ 128 * q4 =
    h0 + 2 ^ 26 * h1 + 2 ^ 52 * h2 + 2 ^ 78 * h3 + 2 ^ 104 * h4"
  using assms by simp

lemma add_words:
  fixes w0 w1 w2 w3 k0 k1 k2 k3 :: nat
  defines "f0 \<equiv> w0 + k0"
  defines "f1 \<equiv> w1 + k1 + f0 div 2 ^ 32"
  defines "f2 \<equiv> w2 + k2 + f1 div 2 ^ 32"
  defines "f3 \<equiv> w3 + k3 + f2 div 2 ^ 32"
  shows "le_bytes 16 (((w0 + 2 ^ 32 * w1 + 2 ^ 64 * w2 + 2 ^ 96 * w3 + 2 ^ 128 * q) +
      (k0 + 2 ^ 32 * k1 + 2 ^ 64 * k2 + 2 ^ 96 * k3)) mod 2 ^ 128) = le_bytes 4 f0 @ le_bytes 4 f1 @ le_bytes 4 f2 @ le_bytes 4 f3"
proof -
  define m where "m f = f mod (2 ^ 32 :: nat)" for f
  have e: "f = m f + 2 ^ 32 * (f div 2 ^ 32)" for f unfolding m_def by (simp only: mod_mult_div_eq)
  have lin: "a0 + 2 ^ 32 * a1 + 2 ^ 64 * a2 + 2 ^ 96 * a3 + 2 ^ 128 * q = x0 + 2 ^ 32 * x1 + 2 ^ 64 * x2 + 2 ^ 96 * y3 + 2 ^ 128 * q"
    if "a0 = x0 + 2 ^ 32 * c0" "a1 + c0 = x1 + 2 ^ 32 * c1" "a2 + c1 = x2 + 2 ^ 32 * c2" "a3 + c2 = y3"
    for a0 a1 a2 a3 x0 x1 x2 y3 c0 c1 c2 :: nat using that by simp
  have "(w0 + 2 ^ 32 * w1 + 2 ^ 64 * w2 + 2 ^ 96 * w3 + 2 ^ 128 * q) + (k0 + 2 ^ 32 * k1 + 2 ^ 64 * k2 + 2 ^ 96 * k3) =
      (w0 + k0) + 2 ^ 32 * (w1 + k1) + 2 ^ 64 * (w2 + k2) + 2 ^ 96 * (w3 + k3) + 2 ^ 128 * q" by simp
  also have "\<dots> = m f0 + 2 ^ 32 * m f1 + 2 ^ 64 * m f2 + 2 ^ 96 * f3 + 2 ^ 128 * q"
    using e [of f0] e [of f1] e [of f2] by (intro lin) (simp_all only: f0_def f1_def f2_def f3_def)
  finally have sum: "(w0 + 2 ^ 32 * w1 + 2 ^ 64 * w2 + 2 ^ 96 * w3 + 2 ^ 128 * q) + (k0 + 2 ^ 32 * k1 + 2 ^ 64 * k2 + 2 ^ 96 * k3) =
      m f0 + 2 ^ 32 * m f1 + 2 ^ 64 * m f2 + 2 ^ 96 * f3 + 2 ^ 128 * q" .
  have m: "m f < 2 ^ 32" for f by (simp add: m_def)
  have b: "le_bytes 4 (m f) = le_bytes 4 f" for f using le_bytes_mod [of 4 f] by (simp add: m_def)
  have "le_bytes 16 ((m f0 + 2 ^ 32 * m f1 + 2 ^ 64 * m f2 + 2 ^ 96 * f3 + 2 ^ 128 * q) mod 256 ^ 16) =
      le_bytes 16 (m f0 + 2 ^ 32 * m f1 + 2 ^ 64 * m f2 + 2 ^ 96 * (f3 + 2 ^ 32 * q))"
    unfolding le_bytes_mod by (simp add: algebra_simps)
  also have "\<dots> = le_bytes 4 (m f0) @ le_bytes 4 (m f1) @ le_bytes 4 (m f2) @ le_bytes 4 (f3 + 2 ^ 32 * q)"
    by (rule le_bytes_16 [OF refl m m m])
  also have "le_bytes 4 (f3 + 2 ^ 32 * q) = le_bytes 4 f3"
    using le_bytes_mod [of 4 "f3 + 2 ^ 32 * q"] le_bytes_mod [of 4 f3] by simp
  finally show ?thesis unfolding sum b by simp
qed


lemma poly_acc_less: "a < poly_p \<Longrightarrow> poly_acc r a m < poly_p"
proof (induction r a m rule: poly_acc.induct)
  case (1 r a m)
  show ?case
  proof (cases "m = []")
    case False
    have "((a + le_value (take 16 m @ [1])) * r) mod poly_p < poly_p" by (simp add: poly_p_def)
    from "1.IH" [OF False this] show ?thesis using False by (simp add: poly_acc.simps [of r a m])
  qed (use 1 in \<open>simp add: poly_acc.simps [of r a "[]"]\<close>)
qed

lemma unat_sum_carry:
  assumes "unat f < 2 ^ 35"
  shows "unat (ucast (w :: u32) + ucast (k :: u32) + drop_bit 32 f :: u64) = unat w + unat k + unat f div 2 ^ 32"
    and "unat (ucast w + ucast k + drop_bit 32 f :: u64) < 2 ^ 35"
proof -
  have d: "unat (drop_bit 32 f) = unat f div 2 ^ 32" by (rule unat_drop)
  have b: "unat f div 2 ^ 32 < 2 ^ 3" using assms by (simp add: div_less_iff_less_mult)
  have "unat (ucast w + ucast k :: u64) = unat w + unat k"
    using u32_less [of w] u32_less [of k] by (subst unat_plus64) (simp_all add: unat_up)
  then show "unat (ucast w + ucast k + drop_bit 32 f :: u64) = unat w + unat k + unat f div 2 ^ 32"
    using u32_less [of w] u32_less [of k] b by (subst unat_plus64) (simp_all only: d, simp)
  then show "unat (ucast w + ucast k + drop_bit 32 f :: u64) < 2 ^ 35"
    using u32_less [of w] u32_less [of k] b by simp
qed

lemma donna_out_correct:
  assumes h: "reduced_limbs h" and key: "length key = 32"
  shows "donna_out key h = le_bytes 16 ((val h + le_value (take 16 (drop 16 key))) mod 2 ^ 128)"
proof -
  obtain h0 h1 h2 h3 h4 where hh: "h = (h0, h1, h2, h3, h4)" by (cases h)
  have bh: "unat h0 < 2 ^ 26" "unat h1 < 2 ^ 26" "unat h2 < 2 ^ 26" "unat h3 < 2 ^ 26" "unat h4 < 2 ^ 26"
    using h by (simp_all add: hh)
  define k0 k1 k2 k3 where k: "k0 = U8TO32_LE (drop 16 key)" "k1 = U8TO32_LE (drop 20 key)" "k2 = U8TO32_LE (drop 24 key)" "k3 = U8TO32_LE (drop 28 key)"
  define w0 w1 w2 w3 where w: "w0 = h0 OR push_bit 26 h1" "w1 = drop_bit 6 h1 OR push_bit 20 h2"
    "w2 = drop_bit 12 h2 OR push_bit 14 h3" "w3 = drop_bit 18 h3 OR push_bit 8 h4"
  define f0 f1 f2 f3 :: u64 where f: "f0 = ucast w0 + ucast k0" "f1 = ucast w1 + ucast k1 + drop_bit 32 f0"
    "f2 = ucast w2 + ucast k2 + drop_bit 32 f1" "f3 = ucast w3 + ucast k3 + drop_bit 32 f2"
  have res: "donna_out key h = U32TO8_LE f0 @ U32TO8_LE f1 @ U32TO8_LE f2 @ U32TO8_LE f3"
    unfolding donna_out_def hh prod.case Let_def f w k ..
  have nw: "unat w0 = unat h0 + 2 ^ 26 * (unat h1 mod 2 ^ 6)" "unat w1 = unat h1 div 2 ^ 6 + 2 ^ 20 * (unat h2 mod 2 ^ 12)"
    "unat w2 = unat h2 div 2 ^ 12 + 2 ^ 14 * (unat h3 mod 2 ^ 18)" "unat w3 = unat h3 div 2 ^ 18 + 2 ^ 8 * (unat h4 mod 2 ^ 24)"
    unfolding w using unat_pack [OF bh(1), of 0 h1] unat_pack [OF bh(2), of 6 h2] unat_pack [OF bh(3), of 12 h3] unat_pack [OF bh(4), of 18 h4]
    by simp_all
  have f0: "unat f0 = unat w0 + unat k0"
    unfolding f using u32_less [of w0] u32_less [of k0] by (subst unat_plus64) (simp_all add: unat_up)
  have "unat f0 < 2 ^ 35" using u32_less [of w0] u32_less [of k0] by (simp add: f0)
  note s1 = unat_sum_carry [OF this, of w1 k1, folded f(2)]
  note s2 = unat_sum_carry [OF s1(2), of w2 k2, folded f(3)]
  note s3 = unat_sum_carry [OF s2(2), of w3 k3, folded f(4)]
  have key_value: "le_value (take 16 (drop 16 key)) = unat k0 + 2 ^ 32 * unat k1 + 2 ^ 64 * unat k2 + 2 ^ 96 * unat k3"
    using le_value_key [of "drop 16 key"] key by (simp add: k)
  have dm: "(x :: nat) = x mod y + y * (x div y)" for x y by (simp only: mod_mult_div_eq)
  have total: "val h = unat w0 + 2 ^ 32 * unat w1 + 2 ^ 64 * unat w2 + 2 ^ 96 * unat w3 + 2 ^ 128 * (unat h4 div 2 ^ 24)"
    unfolding hh val.simps nw by (rule pack_sum [symmetric]) (rule dm)+
  show ?thesis
    unfolding res U32TO8_LE_bytes total key_value add_words f0 s1(1) s2(1) s3(1) ..
qed

text \<open>C7. The message authentication code is Poly1305: for every message and every key of 32 bytes the limb arithmetic
  of \<^verbatim>\<open>poly1305_auth\<close>, with its delayed carries and its constant-time reduction, returns the sixteen bytes of the
  polynomial of the message blocks at the clamped first half of the key modulo $2^{130}-5$, plus the second half
  modulo $2^{128}$. No 32-bit or 64-bit operation of the code overflows on the way.\<close>

theorem poly1305_auth_correct:
  assumes "length key = 32"
  shows "poly1305_auth m key = poly1305_spec m key"
proof -
  have k: "key_limbs (clamp_key key)" "val (clamp_key key) = le_value (take 16 key) AND poly_clamp"
    using clamp_key_correct [of key] assms by auto
  have start: "acc_limbs (0, 0, 0, 0, 0)" "val (0, 0, 0, 0, 0) = 0" by simp_all
  define l where "l = donna_loop (clamp_key key) m (0, 0, 0, 0, 0)"
  have loop: "acc_limbs l" "val l mod poly_p = poly_acc (le_value (take 16 key) AND poly_clamp) 0 m mod poly_p"
    using donna_loop_correct [OF k(1) start(1), of m] unfolding l_def start(2) k(2) by blast+
  note carry = donna_carry_correct [OF loop(1)]
  let ?h = "donna_freeze (donna_carry l)"
  have h: "reduced_limbs ?h" "val ?h = poly_acc (le_value (take 16 key) AND poly_clamp) 0 m mod poly_p"
    using donna_freeze_correct [OF carry [THEN conjunct1]] carry loop(2) by auto
  have p: "poly_acc r 0 m < poly_p" for r using poly_acc_less [of 0 r m] by (simp add: poly_p_def)
  show ?thesis
    unfolding poly1305_auth_def l_def [symmetric] donna_out_correct [OF h(1) assms] h(2) poly1305_spec_def mod_less [OF p] ..
qed

lemma le_bytes_value: "le_bytes (length xs) (le_value xs) = xs"
proof (induction xs)
  case (Cons b bs)
  have "(unat b + 256 * le_value bs) div 256 = le_value bs" using byte_less [of b] by simp
  moreover have "(of_nat (unat b + 256 * le_value bs) :: byte) = of_nat (unat b)"
    by (simp only: word_of_nat_eq_iff take_bit_eq_mod) simp
  ultimately show ?case using Cons.IH by (simp add: of_nat_unat)
qed simp

definition ex_poly_key :: "byte list" where
  "ex_poly_key = replicate 15 0 @ [1] @ replicate 16 2"

theorem poly1305_auth_correct_witness:
  "length ex_poly_key = 32 \<and> poly1305_auth [] ex_poly_key = replicate 16 2"
proof -
  have l: "length ex_poly_key = 32" by (simp add: ex_poly_key_def)
  have s: "take 16 (drop 16 ex_poly_key) = replicate 16 2" by (simp add: ex_poly_key_def)
  have "le_value (replicate 16 2) < 2 ^ 128" using le_value_less [of "replicate 16 2"] by simp
  then have "poly1305_spec [] ex_poly_key = le_bytes (length (replicate 16 (2 :: byte))) (le_value (replicate 16 2))"
    unfolding poly1305_spec_def s by (simp add: poly_acc.simps [of _ _ "[]"])
  then have "poly1305_spec [] ex_poly_key = replicate 16 2" unfolding le_bytes_value .
  then show ?thesis using poly1305_auth_correct [OF l, of "[]"] l by simp
qed

end
