(* ===== verification/Chachapoly.thy ===== *)
theory Chachapoly
  imports Poly1305 Wire
begin

unbundle bit_operations_syntax

text \<open>
  The authenticated cipher of \<^verbatim>\<open>cipher-chachapoly.c\<close>: the packet length is encrypted with a key of its own, the
  payload with the main key from block 1, and a Poly1305 tag keyed from block 0 covers both. \<open>junk\<close> is the uninitialised
  block that \<^verbatim>\<open>chacha_encrypt_bytes\<close> uses for the end of a message.
\<close>

section \<open>The code\<close>

record chachapoly_ctx =
  main_ctx :: chacha_ctx
  header_ctx :: chacha_ctx

definition POLY1305_TAGLEN :: nat where "POLY1305_TAGLEN = 16"
definition POLY1305_KEYLEN :: nat where "POLY1305_KEYLEN = 32"

definition zero_ctx :: chacha_ctx where
  "zero_ctx = \<lparr>input = replicate 16 0\<rparr>"

definition chachapoly_new :: "allocator \<Rightarrow> byte list \<Rightarrow> chachapoly_ctx option" where
  "chachapoly_new A key =
    (if length key \<noteq> 32 + 32 then None
     else if \<not> malloc_ok A 128 then None
     else Some \<lparr>main_ctx = chacha_keysetup zero_ctx key 256, header_ctx = chacha_keysetup zero_ctx (drop 32 key) 256\<rparr>)"

text \<open>The first 32 bytes of block 0 for the packet, and the context after them.\<close>

definition poly_key_for :: "byte list \<Rightarrow> byte list \<Rightarrow> chachapoly_ctx \<Rightarrow> byte list \<times> chachapoly_ctx" where
  "poly_key_for junk seqbuf ctx =
    (let (k, x) = chacha_encrypt_bytes junk (chacha_ivsetup (main_ctx ctx) seqbuf None) (replicate POLY1305_KEYLEN 0)
     in (k, ctx\<lparr>main_ctx := x\<rparr>))"

text \<open>The additional data and the payload through the two key streams.\<close>

definition crypt_parts :: "byte list \<Rightarrow> byte list \<Rightarrow> byte list \<Rightarrow> byte list \<Rightarrow> chachapoly_ctx \<Rightarrow> byte list \<times> chachapoly_ctx" where
  "crypt_parts junk seqbuf aad m ctx =
    (let (ca, hx) = (if aad \<noteq> [] then chacha_encrypt_bytes junk (chacha_ivsetup (header_ctx ctx) seqbuf None) aad
                     else ([], header_ctx ctx));
         (cm, mx) = chacha_encrypt_bytes junk (chacha_ivsetup (main_ctx ctx) seqbuf (Some [1, 0, 0, 0, 0, 0, 0, 0])) m
     in (ca @ cm, ctx\<lparr>main_ctx := mx, header_ctx := hx\<rparr>))"

definition chachapoly_crypt ::
    "byte list \<Rightarrow> chachapoly_ctx \<Rightarrow> u32 \<Rightarrow> byte list \<Rightarrow> nat \<Rightarrow> nat \<Rightarrow> bool \<Rightarrow> byte list res \<times> chachapoly_ctx" where
  "chachapoly_crypt junk ctx seqnr src len aadlen do_encrypt =
    (let seqbuf = POKE_U64 (ucast seqnr);
         (poly_key, ctx1) = poly_key_for junk seqbuf ctx;
         aad = take aadlen src; m = take len (drop aadlen src);
         tag = take POLY1305_TAGLEN (drop (aadlen + len) src)
     in if \<not> do_encrypt \<and> poly1305_auth (take (aadlen + len) src) poly_key \<noteq> tag then (Inl SSH_ERR_MAC_INVALID, ctx1)
        else let (dest, ctx2) = crypt_parts junk seqbuf aad m ctx1
          in (Inr (if do_encrypt then dest @ poly1305_auth dest poly_key else dest), ctx2))"

definition chachapoly_get_length :: "byte list \<Rightarrow> chachapoly_ctx \<Rightarrow> u32 \<Rightarrow> byte list \<Rightarrow> u32 res \<times> chachapoly_ctx" where
  "chachapoly_get_length junk ctx seqnr cp =
    (if length cp < 4 then (Inl SSH_ERR_MESSAGE_INCOMPLETE, ctx)
     else let seqbuf = POKE_U64 (ucast seqnr);
              (buf, hx) = chacha_encrypt_bytes junk (chacha_ivsetup (header_ctx ctx) seqbuf None) (take 4 cp)
       in (Inr (PEEK_U32 buf), ctx\<lparr>header_ctx := hx\<rparr>))"

section \<open>Contexts with the same keys\<close>

text \<open>The nonce set-up overwrites words 12 to 15, so a packet only depends on the first twelve.\<close>

definition same_chacha_key :: "chacha_ctx \<Rightarrow> chacha_ctx \<Rightarrow> bool" where
  "same_chacha_key x y \<longleftrightarrow> chacha_wf x \<and> chacha_wf y \<and> take 12 (input x) = take 12 (input y)"

definition same_keys :: "chachapoly_ctx \<Rightarrow> chachapoly_ctx \<Rightarrow> bool" where
  "same_keys c d \<longleftrightarrow> same_chacha_key (main_ctx c) (main_ctx d) \<and> same_chacha_key (header_ctx c) (header_ctx d)"

lemma list12:
  assumes "length (xs :: 'a list) = 16" "length ys = 16" "take 12 xs = take 12 ys"
  shows "xs[12 := a, 13 := b, 14 := c, 15 := d] = ys[12 := a, 13 := b, 14 := c, 15 := d]"
proof (rule nth_equalityI)
  fix i assume "i < length (xs[12 := a, 13 := b, 14 := c, 15 := d])"
  then have "i < 12 \<or> i = 12 \<or> i = 13 \<or> i = 14 \<or> i = 15" using assms(1) by auto
  moreover have "xs ! i = ys ! i" if "i < 12" using that assms(3) by (metis nth_take)
  ultimately show "xs[12 := a, 13 := b, 14 := c, 15 := d] ! i = ys[12 := a, 13 := b, 14 := c, 15 := d] ! i"
    using assms(1,2) by auto
qed (use assms in simp)

lemma ivsetup_same_key: "same_chacha_key x y \<Longrightarrow> input (chacha_ivsetup x iv c) = input (chacha_ivsetup y iv c)"
  by (auto simp: chacha_ivsetup_def same_chacha_key_def chacha_wf_def intro!: list12)

lemma ivsetup_ctx_eq: "same_chacha_key x y \<Longrightarrow> chacha_ivsetup x iv c = chacha_ivsetup y iv c"
  using ivsetup_same_key [of x y iv c] by (cases "chacha_ivsetup x iv c"; cases "chacha_ivsetup y iv c") simp

lemma ivsetup_key: "take 12 (input (chacha_ivsetup x iv c)) = take 12 (input x)"
  by (simp add: chacha_ivsetup_def take_update_cancel)

lemma encrypt_key:
  assumes "chacha_wf x" "length junk = 64" "chacha_encrypt_bytes junk x m = (c, x')"
  shows "take 12 (input x') = take 12 (input x)"
proof -
  have "x' = x\<lparr>input := (next_counter ^^ blocks (length m)) (input x)\<rparr>"
    using chacha_encrypt_bytes_stream [OF assms(1,2), of m] assms(3) by simp
  then show ?thesis using next_counters by (intro nth_equalityI) simp_all
qed

lemma same_key_refl [simp]: "chacha_wf x \<Longrightarrow> same_chacha_key x x"
  by (simp add: same_chacha_key_def)

text \<open>After any use with any nonce the context still has the same key.\<close>

lemma same_key_after:
  assumes "same_chacha_key x y" "length junk = 64" "chacha_encrypt_bytes junk (chacha_ivsetup x iv c) m = (r, x')"
  shows "same_chacha_key x' y"
  using assms encrypt_key [OF _ assms(2,3)] chacha_encrypt_wf [OF _ assms(2,3)]
  by (auto simp: same_chacha_key_def ivsetup_key)

text \<open>The result does not depend on which context with the key was used, nor on the uninitialised block.\<close>

lemma use_same_key:
  assumes "same_chacha_key x y" "length junk = 64" "length junk' = 64"
  shows "chacha_encrypt_bytes junk (chacha_ivsetup x iv c) m = chacha_encrypt_bytes junk' (chacha_ivsetup y iv c) m"
  using assms ivsetup_ctx_eq [OF assms(1)]
  by (simp add: chacha_encrypt_bytes_stream same_chacha_key_def del: chacha_setup_wf(1))

lemma poly_key_same:
  assumes "same_keys s r" "length junk = 64" "length junk' = 64"
    and "poly_key_for junk q s = (k, s')" "poly_key_for junk' q r = (k', r')"
  shows "k' = k" "same_keys s' r'" "length k = 32" "same_keys s' r" "same_keys s r'"
proof -
  let ?m = "replicate POLY1305_KEYLEN 0" and ?x = "chacha_ivsetup (main_ctx s) q None"
  have mk: "same_chacha_key (main_ctx s) (main_ctx r)" and hk: "same_chacha_key (header_ctx s) (header_ctx r)"
    using assms(1) by (auto simp: same_keys_def)
  obtain x where x: "chacha_encrypt_bytes junk ?x ?m = (k, x)" "s' = s\<lparr>main_ctx := x\<rparr>"
    using assms(4) by (auto simp: poly_key_for_def split: prod.splits)
  then have y: "k' = k" "r' = r\<lparr>main_ctx := x\<rparr>"
    using assms(5) use_same_key [OF mk assms(2,3), of q None ?m] by (auto simp: poly_key_for_def split: prod.splits)
  have kx: "same_chacha_key x (main_ctx r)" using mk assms(2) x(1) by (rule same_key_after)
  then have "same_chacha_key x x" "same_chacha_key (main_ctx s) x" using mk by (auto simp: same_chacha_key_def)
  then show "k' = k" "same_keys s' r'" "same_keys s' r" "same_keys s r'" using x(2) y hk kx by (auto simp: same_keys_def)
  have "chacha_wf ?x" using mk by (simp add: same_chacha_key_def)
  from chacha_encrypt_bytes_involution [OF this assms(2,2) x(1)] show "length k = 32" by (simp add: POLY1305_KEYLEN_def)
qed

text \<open>One key stream applied twice, on the two sides of a connection.\<close>

lemma crypt_part_twice:
  assumes "same_chacha_key x y" "length junk = 64" "length junk' = 64"
    and "chacha_encrypt_bytes junk (chacha_ivsetup x q c) m = (e, x')"
  shows "chacha_encrypt_bytes junk' (chacha_ivsetup y q c) e = (m, x')" "length e = length m" "same_chacha_key x' x'"
    "same_chacha_key x y'  \<Longrightarrow> same_chacha_key x' y'"
proof -
  have "chacha_wf (chacha_ivsetup x q c)" using assms(1) by (simp add: same_chacha_key_def)
  from chacha_encrypt_bytes_involution [OF this assms(2,3,4)]
  show "chacha_encrypt_bytes junk' (chacha_ivsetup y q c) e = (m, x')" "length e = length m"
    using ivsetup_ctx_eq [OF assms(1)] by simp_all
  show "same_chacha_key x' x'" using same_key_after [OF assms(1,2,4)] by (simp add: same_chacha_key_def)
  show "same_chacha_key x y' \<Longrightarrow> same_chacha_key x' y'" using same_key_after assms(2,4) by blast
qed

lemma crypt_parts_twice:
  assumes keys: "same_keys s r" and junk: "length junk = 64" "length junk' = 64"
    and enc: "crypt_parts junk q aad m s = (e, s')"
  shows "\<exists>r'. crypt_parts junk' q (take (length aad) e) (drop (length aad) e) r = (aad @ m, r') \<and> same_keys s' r'
    \<and> length e = length aad + length m"
proof -
  have mk: "same_chacha_key (main_ctx s) (main_ctx r)" and hk: "same_chacha_key (header_ctx s) (header_ctx r)"
    using keys by (auto simp: same_keys_def)
  obtain ca hx where h: "(if aad \<noteq> [] then chacha_encrypt_bytes junk (chacha_ivsetup (header_ctx s) q None) aad
      else ([], header_ctx s)) = (ca, hx)" by fastforce
  obtain cm mx where m: "chacha_encrypt_bytes junk (chacha_ivsetup (main_ctx s) q (Some [1, 0, 0, 0, 0, 0, 0, 0])) m = (cm, mx)"
    by fastforce
  have e: "e = ca @ cm" "s' = s\<lparr>main_ctx := mx, header_ctx := hx\<rparr>" using enc h m by (auto simp: crypt_parts_def)
  note m' = crypt_part_twice [OF mk junk m]
  have "\<exists>hy. (if ca \<noteq> [] then chacha_encrypt_bytes junk' (chacha_ivsetup (header_ctx r) q None) ca
      else ([], header_ctx r)) = (aad, hy) \<and> same_chacha_key hx hy \<and> length ca = length aad"
  proof (cases "aad = []")
    case True
    then show ?thesis using h hk by auto
  next
    case False
    then have h': "chacha_encrypt_bytes junk (chacha_ivsetup (header_ctx s) q None) aad = (ca, hx)" using h by simp
    note p = crypt_part_twice [OF hk junk h']
    have "ca \<noteq> []" using False p(2) by auto
    then show ?thesis using p by simp
  qed
  then obtain hy where hy: "(if ca \<noteq> [] then chacha_encrypt_bytes junk' (chacha_ivsetup (header_ctx r) q None) ca
      else ([], header_ctx r)) = (aad, hy)" "same_chacha_key hx hy" "length ca = length aad" by blast
  have "crypt_parts junk' q ca cm r = (aad @ m, r\<lparr>main_ctx := mx, header_ctx := hy\<rparr>)"
    using hy(1) m'(1) unfolding crypt_parts_def Let_def by (simp only: prod.case)
  moreover have "same_keys s' (r\<lparr>main_ctx := mx, header_ctx := hy\<rparr>)"
    using e(2) hy(2) m'(3) by (simp add: same_keys_def)
  ultimately show ?thesis using e(1) hy(3) m'(2) by (intro exI [of _ "r\<lparr>main_ctx := mx, header_ctx := hy\<rparr>"]) simp
qed


lemma length_poly1305_auth [simp]: "length (poly1305_auth m k) = 16"
  by (simp add: poly1305_auth_def donna_out_def Let_def U32TO8_LE_def split: prod.splits)

lemma crypt_roundtrip:
  assumes keys: "same_keys s r" and junk: "length junk = 64" "length junk' = 64" and src: "length src = aadlen + len"
    and enc: "chachapoly_crypt junk s q src len aadlen True = (x, s')"
  shows "\<exists>ct r'. x = Inr ct \<and> length ct = aadlen + len + POLY1305_TAGLEN \<and> same_keys s' r' \<and>
    chachapoly_crypt junk' r q (ct @ rest) len aadlen False = (Inr src, r')"
proof -
  let ?q = "POKE_U64 (ucast q)"
  obtain k s1 k' r1 where k: "poly_key_for junk ?q s = (k, s1)" "poly_key_for junk' ?q r = (k', r1)" by fastforce
  note kk = poly_key_same [OF keys junk k]
  obtain e s2 where e: "crypt_parts junk ?q (take aadlen src) (drop aadlen src) s1 = (e, s2)" by fastforce
  from crypt_parts_twice [OF kk(2) junk e] src obtain r' where
    r': "crypt_parts junk' ?q (take aadlen e) (drop aadlen e) r1 = (src, r')" "same_keys s2 r'" "length e = aadlen + len"
    by auto
  have tl: "drop aadlen src = take len (drop aadlen src)" using src by simp
  have x: "x = Inr (e @ poly1305_auth e k)" "s' = s2"
    using enc k(1) e tl by (auto simp: chachapoly_crypt_def Let_def)
  have "chachapoly_crypt junk' r q ((e @ poly1305_auth e k) @ rest) len aadlen False = (Inr src, r')"
    unfolding chachapoly_crypt_def Let_def using k(2) kk(1) r' by (simp add: POLY1305_TAGLEN_def)
  then show ?thesis using x r'(2,3) by (intro exI [of _ "e @ poly1305_auth e k"] exI [of _ r']) (simp add: POLY1305_TAGLEN_def)
qed

lemma get_length_reads:
  assumes keys: "same_keys s r" and junk: "length junk = 64" "length junk' = 64" and src: "length src = aadlen + len"
    and enc: "chachapoly_crypt junk s q src len aadlen True = (Inr ct, s')" and aad: "aadlen = 4"
  shows "\<exists>r'. chachapoly_get_length junk' r q (ct @ rest) = (Inr (PEEK_U32 src), r') \<and> same_keys s r'"
proof -
  let ?q = "POKE_U64 (ucast q)"
  obtain k s1 where k: "poly_key_for junk ?q s = (k, s1)" by fastforce
  have h1: "header_ctx s1 = header_ctx s" using k by (auto simp: poly_key_for_def split: prod.splits)
  have hk: "same_chacha_key (header_ctx s) (header_ctx r)" and mk: "same_chacha_key (main_ctx s) (main_ctx r)"
    using keys by (simp_all add: same_keys_def)
  have ne: "take 4 src \<noteq> []" "length (take 4 src) = 4" using src aad by auto
  obtain ca hx where c: "chacha_encrypt_bytes junk (chacha_ivsetup (header_ctx s) ?q None) (take 4 src) = (ca, hx)" by fastforce
  obtain cm mx where m: "chacha_encrypt_bytes junk (chacha_ivsetup (main_ctx s1) ?q (Some [1, 0, 0, 0, 0, 0, 0, 0])) (take len (drop 4 src)) = (cm, mx)"
    by fastforce
  note cc = crypt_part_twice [OF hk junk c]
  have "ct = (ca @ cm) @ poly1305_auth (ca @ cm) k"
    using enc k c m ne(1) h1 aad by (simp add: chachapoly_crypt_def crypt_parts_def Let_def)
  moreover have "length ca = 4" using cc(2) ne(2) by simp
  ultimately have "chachapoly_get_length junk' r q (ct @ rest) = (Inr (PEEK_U32 (take 4 src)), r\<lparr>header_ctx := hx\<rparr>)"
    using cc(1) by (simp add: chachapoly_get_length_def Let_def)
  moreover have "same_keys s (r\<lparr>header_ctx := hx\<rparr>)"
    using mk hk cc(3,4) by (auto simp: same_keys_def same_chacha_key_def)
  moreover have "PEEK_U32 (take 4 src) = PEEK_U32 src" by (simp add: PEEK_U32_def)
  ultimately show ?thesis by auto
qed


section \<open>A sequence of packets\<close>

text \<open>The two ends of a connection: one encrypts packets whose first four bytes are their length field, the other reads
  the length and then decrypts, as \<^verbatim>\<open>packet.c\<close> does. A packet carries its sequence number.\<close>

fun encrypt_all :: "byte list \<Rightarrow> chachapoly_ctx \<Rightarrow> (u32 \<times> byte list) list \<Rightarrow> (u32 \<times> byte list res) list" where
  "encrypt_all junk s [] = []"
| "encrypt_all junk s ((q, p) # ps) =
    (case chachapoly_crypt junk s q p (length p - 4) 4 True of (ct, s') \<Rightarrow> (q, ct) # encrypt_all junk s' ps)"

fun decrypt_all :: "byte list \<Rightarrow> chachapoly_ctx \<Rightarrow> (u32 \<times> byte list res) list \<Rightarrow> (u32 res \<times> byte list res) list" where
  "decrypt_all junk r [] = []"
| "decrypt_all junk r ((q, Inl e) # cts) = (Inl e, Inl e) # decrypt_all junk r cts"
| "decrypt_all junk r ((q, Inr ct) # cts) =
    (case chachapoly_get_length junk r q ct of (n, r1) \<Rightarrow>
     case chachapoly_crypt junk r1 q ct (length ct - 4 - POLY1305_TAGLEN) 4 False of (p, r2) \<Rightarrow>
       (n, p) # decrypt_all junk r2 cts)"

lemma new_same_keys:
  assumes "chachapoly_new A key = Some s" "chachapoly_new B key = Some r"
  shows "same_keys s r"
proof -
  have "chacha_wf zero_ctx" by (simp add: zero_ctx_def chacha_wf_def)
  moreover have "s = r" using assms by (auto simp: chachapoly_new_def split: if_splits)
  ultimately show ?thesis using assms by (auto simp: chachapoly_new_def same_keys_def split: if_splits)
qed

lemma crypt_all:
  assumes "same_keys s r" "length junk = 64" "length junk' = 64" "\<forall>(q, p) \<in> set ps. 4 \<le> length p"
  shows "decrypt_all junk' r (encrypt_all junk s ps) = map (\<lambda>(q, p). (Inr (PEEK_U32 p), Inr p)) ps"
  using assms(1,4)
proof (induction ps arbitrary: s r)
  case (Cons x ps)
  obtain q p where x: "x = (q, p)" by fastforce
  have len: "length p = 4 + (length p - 4)" using Cons.prems(2) x by auto
  obtain y s' where e: "chachapoly_crypt junk s q p (length p - 4) 4 True = (y, s')" by fastforce
  from crypt_roundtrip [OF Cons.prems(1) assms(2,3) len e]
  obtain ct where ct: "y = Inr ct" "length ct = 4 + (length p - 4) + POLY1305_TAGLEN" by blast
  from get_length_reads [OF Cons.prems(1) assms(2,3) len e [unfolded ct(1)] refl, of "[]"] obtain r1 where
    r1: "chachapoly_get_length junk' r q ct = (Inr (PEEK_U32 p), r1)" "same_keys s r1" by auto
  from crypt_roundtrip [OF r1(2) assms(2,3) len e, of "[]"] ct(1) obtain r2 where
    r2: "same_keys s' r2" "chachapoly_crypt junk' r1 q ct (length p - 4) 4 False = (Inr p, r2)" by auto
  have "length ct - 4 - POLY1305_TAGLEN = length p - 4" using ct(2) by simp
  then show ?case using Cons.IH [OF r2(1)] Cons.prems(2) by (simp add: x e ct(1) r1(1) r2(2))
qed simp

text \<open>
  C8. Two contexts set up from the same 64-byte key (\<^verbatim>\<open>chachapoly_new\<close>) carry any sequence of packets: what one end
  encrypts with \<^verbatim>\<open>chachapoly_crypt\<close>, under any sequence numbers, the other end decrypts to the same packets, every tag
  accepted, and \<^verbatim>\<open>chachapoly_get_length\<close> reads each packet's length field before the packet is decrypted. The
  contexts stay in step from packet to packet, and the uninitialised memory of neither side matters.
\<close>

theorem chachapoly_stream:
  assumes "chachapoly_new A key = Some s" "chachapoly_new B key = Some r"
    and "length junk = 64" "length junk' = 64" "\<forall>(q, p) \<in> set ps. 4 \<le> length p"
  shows "decrypt_all junk' r (encrypt_all junk s ps) = map (\<lambda>(q, p). (Inr (PEEK_U32 p), Inr p)) ps"
  using crypt_all [OF new_same_keys [OF assms(1,2)] assms(3-5)] .

definition ex_cp_alloc :: allocator where
  "ex_cp_alloc = \<lparr>malloc_ok = \<lambda>n. True, pagesize = 4096\<rparr>"

definition ex_cp :: chachapoly_ctx where
  "ex_cp = the (chachapoly_new ex_cp_alloc (replicate 64 7))"

lemma ex_cp: "chachapoly_new ex_cp_alloc (replicate 64 7) = Some ex_cp"
  by (simp add: ex_cp_def chachapoly_new_def ex_cp_alloc_def)

theorem chachapoly_stream_witness:
  "decrypt_all (replicate 64 0) ex_cp (encrypt_all (replicate 64 9) ex_cp [(3, [0, 0, 0, 2, 5, 6]), (4, [0, 0, 0, 1, 8])])
    = [(Inr 2, Inr [0, 0, 0, 2, 5, 6]), (Inr 1, Inr [0, 0, 0, 1, 8])]"
  using chachapoly_stream [OF ex_cp ex_cp, of "replicate 64 9" "replicate 64 0" "[(3, [0, 0, 0, 2, 5, 6]), (4, [0, 0, 0, 1, 8])]"]
  by (simp add: PEEK_U32_def)


end
