(* ===== verification/Cipher.thy ===== *)
theory Cipher
  imports Chachapoly Match
begin

text \<open>
  The packet ciphers of \<^verbatim>\<open>cipher.c\<close>, built with OpenSSL (with DES and GCM): the table of ciphers, names and lists of
  names, \<^verbatim>\<open>cipher_init\<close>, \<^verbatim>\<open>cipher_crypt\<close> and \<^verbatim>\<open>cipher_get_length\<close>. The functions of OpenSSL are the fields of
  the argument \<open>evp_ops\<close>; \<open>None\<close> is their failure. The locale \<open>packet_cipher\<close> is what \<^verbatim>\<open>packet.c\<close> relies on.
\<close>

unbundle bit_operations_syntax

section \<open>The table\<close>

record sshcipher =
  cname :: string
  block_size :: nat
  key_len :: nat
  iv_len :: nat
  auth_len :: nat
  cflags :: u32
  evptype :: "string option"

definition CFLAG_CBC :: u32 where "CFLAG_CBC = 1"
definition CFLAG_CHACHAPOLY :: u32 where "CFLAG_CHACHAPOLY = 2"
definition CFLAG_AESCTR :: u32 where "CFLAG_AESCTR = 4"
definition CFLAG_NONE :: u32 where "CFLAG_NONE = 8"
definition CFLAG_INTERNAL :: u32 where "CFLAG_INTERNAL = CFLAG_NONE"

lemmas cflags_defs = CFLAG_CBC_def CFLAG_CHACHAPOLY_def CFLAG_AESCTR_def CFLAG_NONE_def CFLAG_INTERNAL_def

definition entry_of :: "string \<Rightarrow> nat \<Rightarrow> nat \<Rightarrow> nat \<Rightarrow> nat \<Rightarrow> u32 \<Rightarrow> string option \<Rightarrow> sshcipher" where
  "entry_of n b k i a f e =
    \<lparr>cname = n, block_size = b, key_len = k, iv_len = i, auth_len = a, cflags = f, evptype = e\<rparr>"

definition ciphers :: "sshcipher list" where
  "ciphers =
    [entry_of ''3des-cbc'' 8 24 0 0 CFLAG_CBC (Some ''EVP_des_ede3_cbc''),
     entry_of ''aes128-cbc'' 16 16 0 0 CFLAG_CBC (Some ''EVP_aes_128_cbc''),
     entry_of ''aes192-cbc'' 16 24 0 0 CFLAG_CBC (Some ''EVP_aes_192_cbc''),
     entry_of ''aes256-cbc'' 16 32 0 0 CFLAG_CBC (Some ''EVP_aes_256_cbc''),
     entry_of ''rijndael-cbc@lysator.liu.se'' 16 32 0 0 CFLAG_CBC (Some ''EVP_aes_256_cbc''),
     entry_of ''aes128-ctr'' 16 16 0 0 0 (Some ''EVP_aes_128_ctr''),
     entry_of ''aes192-ctr'' 16 24 0 0 0 (Some ''EVP_aes_192_ctr''),
     entry_of ''aes256-ctr'' 16 32 0 0 0 (Some ''EVP_aes_256_ctr''),
     entry_of ''aes128-gcm@openssh.com'' 16 16 12 16 0 (Some ''EVP_aes_128_gcm''),
     entry_of ''aes256-gcm@openssh.com'' 16 32 12 16 0 (Some ''EVP_aes_256_gcm''),
     entry_of ''chacha20-poly1305@openssh.com'' 8 64 0 16 CFLAG_CHACHAPOLY None,
     entry_of ''none'' 8 0 0 0 CFLAG_NONE None]"

text \<open>\<open>fips\<close> is \<open>None\<close> outside FIPS mode; otherwise it says which ciphers of OpenSSL carry the FIPS flag.\<close>

definition cipher_allowed :: "(string \<Rightarrow> bool) option \<Rightarrow> sshcipher \<Rightarrow> bool" where
  "cipher_allowed fips c = (case fips of None \<Rightarrow> True
     | Some ok \<Rightarrow> (case evptype c of None \<Rightarrow> False | Some e \<Rightarrow> ok e))"

text \<open>A list of names grows one name at a time, with a separator before all but the first; NULL is \<open>None\<close>.\<close>

fun alg_list_loop :: "allocator \<Rightarrow> char \<Rightarrow> string list \<Rightarrow> string option \<Rightarrow> string option" where
  "alg_list_loop A sep [] ret = ret"
| "alg_list_loop A sep (n # ns) ret =
    (let r = (case ret of None \<Rightarrow> [] | Some s \<Rightarrow> s @ [sep])
     in if malloc_ok A (length r + length n + 2) then alg_list_loop A sep ns (Some (r @ n)) else None)"

definition cipher_alg_list :: "allocator \<Rightarrow> (string \<Rightarrow> bool) option \<Rightarrow> char \<Rightarrow> bool \<Rightarrow> string option" where
  "cipher_alg_list A fips sep auth_only =
    alg_list_loop A sep (map cname (filter (\<lambda>c. cflags c AND CFLAG_INTERNAL = 0 \<and> \<not> (auth_only \<and> auth_len c = 0) \<and>
      cipher_allowed fips c) ciphers)) None"

definition compression_alg_list :: "bool \<Rightarrow> bool \<Rightarrow> string" where
  "compression_alg_list with_zlib compression =
    (if with_zlib then if compression then ''zlib@openssh.com,zlib,none'' else ''none,zlib@openssh.com,zlib'' else ''none'')"

definition cipher_blocksize :: "sshcipher \<Rightarrow> nat" where
  "cipher_blocksize c = block_size c"

definition cipher_keylen :: "sshcipher \<Rightarrow> nat" where
  "cipher_keylen c = key_len c"

definition cipher_seclen :: "sshcipher \<Rightarrow> nat" where
  "cipher_seclen c = (if cname c = ''3des-cbc'' then 14 else cipher_keylen c)"

definition cipher_authlen :: "sshcipher \<Rightarrow> nat" where
  "cipher_authlen c = auth_len c"

definition cipher_ivlen :: "sshcipher \<Rightarrow> nat" where
  "cipher_ivlen c = (if iv_len c \<noteq> 0 \<or> cflags c AND CFLAG_CHACHAPOLY \<noteq> 0 then iv_len c else block_size c)"

definition cipher_is_cbc :: "sshcipher \<Rightarrow> bool" where
  "cipher_is_cbc c \<longleftrightarrow> cflags c AND CFLAG_CBC \<noteq> 0"

definition cipher_none :: "sshcipher option" where
  "cipher_none = find (\<lambda>c. cname c = ''none'') ciphers"

definition cipher_by_name :: "(string \<Rightarrow> bool) option \<Rightarrow> string \<Rightarrow> sshcipher option" where
  "cipher_by_name fips nm = find (\<lambda>c. cname c = nm \<and> cipher_allowed fips c) ciphers"

text \<open>The loop over the entries of a list of names that several validators share: it ends at NULL and at an empty
  entry.\<close>

function names_loop :: "(string \<Rightarrow> bool) \<Rightarrow> string option \<Rightarrow> bool" where
  "names_loop ok cp =
    (case strsep cp of (None, _) \<Rightarrow> True
     | (Some p, cp') \<Rightarrow> if p = [] then True else if ok p then names_loop ok cp' else False)"
  by pat_completeness auto
termination
  by (relation "measure (\<lambda>(ok, cp). sep_size cp)") (auto dest: strsep_size [OF sym])

declare names_loop.simps [simp del]

text \<open>\<open>strdup\<close> says whether the copy succeeds.\<close>

definition ciphers_valid :: "bool \<Rightarrow> (string \<Rightarrow> bool) option \<Rightarrow> string option \<Rightarrow> bool" where
  "ciphers_valid strdup fips nms = (case nms of None \<Rightarrow> False
     | Some s \<Rightarrow> s \<noteq> [] \<and> strdup \<and>
         names_loop (\<lambda>p. case cipher_by_name fips p of None \<Rightarrow> False | Some c \<Rightarrow> cflags c AND CFLAG_INTERNAL = 0) (Some s))"

section \<open>Contexts\<close>

record 'e evp_ops =
  evp_ctx_new :: "'e option"
  evp_init_type :: "'e \<Rightarrow> string \<Rightarrow> byte list option \<Rightarrow> bool \<Rightarrow> 'e option"
  evp_set_iv_fixed :: "'e \<Rightarrow> byte list option \<Rightarrow> 'e option"
  evp_key_length :: "'e \<Rightarrow> int"
  evp_set_key_length :: "'e \<Rightarrow> nat \<Rightarrow> 'e option"
  evp_init_key :: "'e \<Rightarrow> byte list \<Rightarrow> 'e option"
  evp_iv_gen :: "'e \<Rightarrow> 'e option"
  evp_set_tag :: "'e \<Rightarrow> byte list \<Rightarrow> 'e option"
  evp_aad :: "'e \<Rightarrow> byte list \<Rightarrow> 'e option"
  evp_cipher :: "'e \<Rightarrow> byte list \<Rightarrow> (byte list \<times> 'e) option"
  evp_final :: "'e \<Rightarrow> 'e option"
  evp_get_tag :: "'e \<Rightarrow> nat \<Rightarrow> (byte list \<times> 'e) option"

record 'e sshcipher_ctx =
  plaintext :: bool
  cencrypt :: bool
  evp :: "'e option"
  cp_ctx :: "chachapoly_ctx option"
  ccipher :: sshcipher

definition or_err :: "ssh_err \<Rightarrow> 'a option \<Rightarrow> ('a \<Rightarrow> 'b res) \<Rightarrow> 'b res" where
  "or_err e x k = (case x of None \<Rightarrow> Inl e | Some a \<Rightarrow> k a)"

lemma or_err_simps [simp]: "or_err e None k = Inl e" "or_err e (Some a) k = k a"
  by (simp_all add: or_err_def)

lemma or_err_Inr: "or_err e x k = Inr y \<longleftrightarrow> (\<exists>a. x = Some a \<and> k a = Inr y)"
  by (cases x) simp_all

definition cipher_ctx_is_plaintext :: "'e sshcipher_ctx \<Rightarrow> bool" where
  "cipher_ctx_is_plaintext cc = plaintext cc"

text \<open>The OpenSSL part of \<^verbatim>\<open>cipher_init\<close>.\<close>

definition evp_start :: "'e evp_ops \<Rightarrow> sshcipher \<Rightarrow> byte list \<Rightarrow> byte list option \<Rightarrow> bool \<Rightarrow> 'e res" where
  "evp_start E c key iv do_encrypt =
    or_err SSH_ERR_ALLOC_FAIL (evp_ctx_new E) (\<lambda>e0.
    or_err SSH_ERR_LIBCRYPTO_ERROR (evp_init_type E e0 (the (evptype c)) iv do_encrypt) (\<lambda>e1.
    or_err SSH_ERR_LIBCRYPTO_ERROR (if cipher_authlen c \<noteq> 0 then evp_set_iv_fixed E e1 iv else Some e1) (\<lambda>e2.
    or_err SSH_ERR_LIBCRYPTO_ERROR
      (if evp_key_length E e2 > 0 \<and> int (length key) \<noteq> evp_key_length E e2 then evp_set_key_length E e2 (length key)
       else Some e2) (\<lambda>e3.
    or_err SSH_ERR_LIBCRYPTO_ERROR (evp_init_key E e3 key) Inr))))"

definition cipher_init ::
    "allocator \<Rightarrow> 'e evp_ops \<Rightarrow> sshcipher \<Rightarrow> byte list \<Rightarrow> byte list option \<Rightarrow> bool \<Rightarrow> 'e sshcipher_ctx res" where
  "cipher_init A E c key iv do_encrypt =
    (let cc = \<lparr>plaintext = cflags c AND CFLAG_NONE \<noteq> 0, cencrypt = do_encrypt, evp = None, cp_ctx = None, ccipher = c\<rparr>
     in if \<not> malloc_ok A 320 then Inl SSH_ERR_ALLOC_FAIL
        else if length key < key_len c \<or> (case iv of None \<Rightarrow> False | Some v \<Rightarrow> length v < cipher_ivlen c)
        then Inl SSH_ERR_INVALID_ARGUMENT
        else if cflags c AND CFLAG_CHACHAPOLY \<noteq> 0 then
          or_err SSH_ERR_ALLOC_FAIL (chachapoly_new A key) (\<lambda>x. Inr (cc\<lparr>cp_ctx := Some x\<rparr>))
        else if cflags c AND CFLAG_NONE \<noteq> 0 then Inr cc
        else (case evp_start E c key iv do_encrypt of Inl e \<Rightarrow> Inl e | Inr x \<Rightarrow> Inr (cc\<lparr>evp := Some x\<rparr>)))"

text \<open>The OpenSSL part of \<^verbatim>\<open>cipher_crypt\<close>: the nonce and the tag, the additional data, the data, and the tag at the end.\<close>

definition evp_begin :: "'e evp_ops \<Rightarrow> 'e sshcipher_ctx \<Rightarrow> byte list \<Rightarrow> nat \<Rightarrow> 'e \<Rightarrow> 'e res" where
  "evp_begin E cc tag authlen e =
    (if authlen = 0 then Inr e
     else if authlen \<noteq> cipher_authlen (ccipher cc) then Inl SSH_ERR_INVALID_ARGUMENT
     else or_err SSH_ERR_LIBCRYPTO_ERROR (evp_iv_gen E e) (\<lambda>e1.
       or_err SSH_ERR_LIBCRYPTO_ERROR (if \<not> cencrypt cc then evp_set_tag E e1 tag else Some e1) Inr))"

definition evp_finish :: "'e evp_ops \<Rightarrow> bool \<Rightarrow> nat \<Rightarrow> 'e \<Rightarrow> (byte list \<times> 'e) res" where
  "evp_finish E enc authlen e =
    (if authlen = 0 then Inr ([], e)
     else or_err (if enc then SSH_ERR_LIBCRYPTO_ERROR else SSH_ERR_MAC_INVALID) (evp_final E e) (\<lambda>e1.
       or_err SSH_ERR_LIBCRYPTO_ERROR (if enc then evp_get_tag E e1 authlen else Some ([], e1)) Inr))"

definition evp_crypt ::
    "'e evp_ops \<Rightarrow> 'e sshcipher_ctx \<Rightarrow> byte list \<Rightarrow> nat \<Rightarrow> nat \<Rightarrow> nat \<Rightarrow> 'e \<Rightarrow> (byte list \<times> 'e) res" where
  "evp_crypt E cc src len aadlen authlen e =
    (case evp_begin E cc (take authlen (drop (aadlen + len) src)) authlen e of Inl x \<Rightarrow> Inl x | Inr e1 \<Rightarrow>
     or_err SSH_ERR_LIBCRYPTO_ERROR (if aadlen \<noteq> 0 \<and> authlen \<noteq> 0 then evp_aad E e1 (take aadlen src) else Some e1) (\<lambda>e2.
     if len mod block_size (ccipher cc) \<noteq> 0 then Inl SSH_ERR_INVALID_ARGUMENT
     else or_err SSH_ERR_LIBCRYPTO_ERROR (evp_cipher E e2 (take len (drop aadlen src))) (\<lambda>(d, e3).
       case evp_finish E (cencrypt cc) authlen e3 of Inl x \<Rightarrow> Inl x | Inr (t, e4) \<Rightarrow> Inr (take aadlen src @ d @ t, e4))))"

text \<open>\<open>src\<close> is the memory from \<^verbatim>\<open>src\<close> on. A missing inner context is a NULL pointer that \<^verbatim>\<open>cipher_init\<close> never
  leaves; it is an error here. After an error the context is not used again.\<close>

definition cipher_crypt ::
    "'e evp_ops \<Rightarrow> byte list \<Rightarrow> 'e sshcipher_ctx \<Rightarrow> u32 \<Rightarrow> byte list \<Rightarrow> nat \<Rightarrow> nat \<Rightarrow> nat \<Rightarrow> (byte list \<times> 'e sshcipher_ctx) res"
where
  "cipher_crypt E junk cc seqnr src len aadlen authlen =
    (if cflags (ccipher cc) AND CFLAG_CHACHAPOLY \<noteq> 0 then
       or_err SSH_ERR_INTERNAL_ERROR (cp_ctx cc) (\<lambda>x.
         case chachapoly_crypt junk x seqnr src len aadlen (cencrypt cc) of
           (Inl e, _) \<Rightarrow> Inl e | (Inr dest, x') \<Rightarrow> Inr (dest, cc\<lparr>cp_ctx := Some x'\<rparr>))
     else if cflags (ccipher cc) AND CFLAG_NONE \<noteq> 0 then Inr (take (aadlen + len) src, cc)
     else or_err SSH_ERR_INTERNAL_ERROR (evp cc) (\<lambda>x.
       case evp_crypt E cc src len aadlen authlen x of Inl e \<Rightarrow> Inl e | Inr (dest, x') \<Rightarrow> Inr (dest, cc\<lparr>evp := Some x'\<rparr>)))"

definition cipher_get_length :: "byte list \<Rightarrow> 'e sshcipher_ctx \<Rightarrow> u32 \<Rightarrow> byte list \<Rightarrow> u32 res \<times> 'e sshcipher_ctx" where
  "cipher_get_length junk cc seqnr cp =
    (if cflags (ccipher cc) AND CFLAG_CHACHAPOLY \<noteq> 0 then
       (case cp_ctx cc of None \<Rightarrow> (Inl SSH_ERR_INTERNAL_ERROR, cc)
        | Some x \<Rightarrow> (case chachapoly_get_length junk x seqnr cp of (r, x') \<Rightarrow> (r, cc\<lparr>cp_ctx := Some x'\<rparr>)))
     else if length cp < 4 then (Inl SSH_ERR_MESSAGE_INCOMPLETE, cc)
     else (Inr (PEEK_U32 cp), cc))"

section \<open>The contract of a packet cipher\<close>

text \<open>
  What the packet layer relies on. \<open>sync s r\<close> relates the encrypting context \<open>s\<close> to the decrypting context \<open>r\<close> of the
  other end; \<open>auth\<close> and \<open>bsize\<close> are the length of the tag and the block size. A whole packet decrypts to what was
  encrypted; without a tag it may be decrypted in two parts, under any sequence numbers; and the length, the first four
  bytes, can be read as soon as they have arrived.
\<close>

locale packet_cipher =
  fixes enc dec :: "'s \<Rightarrow> u32 \<Rightarrow> byte list \<Rightarrow> nat \<Rightarrow> nat \<Rightarrow> nat \<Rightarrow> (byte list \<times> 's) res"
    and get_length :: "'s \<Rightarrow> u32 \<Rightarrow> byte list \<Rightarrow> u32 res \<times> 's"
    and sync :: "'s \<Rightarrow> 's \<Rightarrow> bool"
    and auth bsize :: "'s \<Rightarrow> nat"
  assumes attr: "sync s r \<Longrightarrow> auth r = auth s \<and> bsize r = bsize s \<and> 0 < bsize s"
    and enc_attr: "enc s q src len aad a = Inr (c, s') \<Longrightarrow> auth s' = auth s \<and> bsize s' = bsize s"
    and whole: "sync s r \<Longrightarrow> length src = aad + len \<Longrightarrow> bsize s dvd len \<Longrightarrow> auth s = 0 \<or> aad \<noteq> 0 \<Longrightarrow>
      enc s q src len aad (auth s) = Inr (c, s') \<Longrightarrow>
      length c = aad + len + auth s \<and> (\<exists>r'. dec r q (c @ rest) len aad (auth s) = Inr (src, r') \<and> sync s' r')"
    and split: "sync s r \<Longrightarrow> auth s = 0 \<Longrightarrow> length src = len \<Longrightarrow> bsize s dvd n \<Longrightarrow> bsize s dvd len \<Longrightarrow> n \<le> len \<Longrightarrow>
      enc s q src len 0 0 = Inr (c, s') \<Longrightarrow>
      length c = len \<and> (\<exists>r1 r'. dec r q1 (take n c @ rest1) n 0 0 = Inr (take n src, r1) \<and>
        dec r1 q2 (drop n c @ rest2) (len - n) 0 0 = Inr (drop n src, r') \<and> sync s' r')"
    and length_read: "sync s r \<Longrightarrow> length src = 4 + len \<Longrightarrow> enc s q src len 4 (auth s) = Inr (c, s') \<Longrightarrow>
      4 \<le> length inp \<Longrightarrow> take 4 inp = take 4 c \<Longrightarrow>
      \<exists>r'. get_length r q inp = (Inr (PEEK_U32 src), r') \<and> sync s r'"
    and length_short: "sync s r \<Longrightarrow> length inp < 4 \<Longrightarrow> \<exists>e. get_length r q inp = (Inl e, r)"

text \<open>
  The documented behaviour of the OpenSSL contexts that \<^verbatim>\<open>EVP_CipherInit\<close> sets up for encryption and decryption with one key and
  nonce: data decrypts to what was encrypted and the contexts stay in step; the data of a cipher without tag may be
  passed in parts of whole blocks; with a tag, the nonce, the tag, the additional data, the data and the end have to
  follow in this order.
\<close>

definition evp_stream :: "'e evp_ops \<Rightarrow> nat \<Rightarrow> ('e \<Rightarrow> 'e \<Rightarrow> bool) \<Rightarrow> bool" where
  "evp_stream E bs R \<longleftrightarrow>
    (\<forall>s r m c s'. R s r \<and> bs dvd length m \<and> evp_cipher E s m = Some (c, s') \<longrightarrow>
      length c = length m \<and> (\<exists>r'. evp_cipher E r c = Some (m, r') \<and> R s' r')) \<and>
    (\<forall>s m n c s'. bs dvd length m \<and> bs dvd length n \<and> evp_cipher E s (m @ n) = Some (c, s') \<longrightarrow>
      (\<exists>c1 s1 c2. evp_cipher E s m = Some (c1, s1) \<and> evp_cipher E s1 n = Some (c2, s') \<and> c = c1 @ c2))"

definition evp_aead :: "'e evp_ops \<Rightarrow> nat \<Rightarrow> ('e \<Rightarrow> 'e \<Rightarrow> bool) \<Rightarrow> bool" where
  "evp_aead E al R \<longleftrightarrow>
    (\<forall>s r a m c t s1 s2 s3 s4 s5. R s r \<and> evp_iv_gen E s = Some s1 \<and> evp_aad E s1 a = Some s2 \<and>
      evp_cipher E s2 m = Some (c, s3) \<and> evp_final E s3 = Some s4 \<and> evp_get_tag E s4 al = Some (t, s5) \<longrightarrow>
      length c = length m \<and> length t = al \<and>
      (\<exists>r1 r2 r3 r4 r5. evp_iv_gen E r = Some r1 \<and> evp_set_tag E r1 t = Some r2 \<and> evp_aad E r2 a = Some r3 \<and>
        evp_cipher E r3 c = Some (m, r4) \<and> evp_final E r4 = Some r5 \<and> R s5 r5))"

definition evp_pair :: "'e evp_ops \<Rightarrow> sshcipher \<Rightarrow> 'e \<Rightarrow> 'e \<Rightarrow> bool" where
  "evp_pair E c x y \<longleftrightarrow>
    (\<exists>R. R x y \<and> (if auth_len c = 0 then evp_stream E (block_size c) R else evp_aead E (auth_len c) R))"

definition cipher_sync :: "'e evp_ops \<Rightarrow> byte list \<Rightarrow> byte list \<Rightarrow> 'e sshcipher_ctx \<Rightarrow> 'e sshcipher_ctx \<Rightarrow> bool" where
  "cipher_sync E junk junk' s r \<longleftrightarrow>
    length junk = 64 \<and> length junk' = 64 \<and> ccipher r = ccipher s \<and> cencrypt s \<and> \<not> cencrypt r \<and> 0 < block_size (ccipher s) \<and>
    (if cflags (ccipher s) AND CFLAG_CHACHAPOLY \<noteq> 0 then
       auth_len (ccipher s) = POLY1305_TAGLEN \<and> (\<exists>x y. cp_ctx s = Some x \<and> cp_ctx r = Some y \<and> same_keys x y)
     else if cflags (ccipher s) AND CFLAG_NONE \<noteq> 0 then auth_len (ccipher s) = 0
     else (\<exists>x y. evp s = Some x \<and> evp r = Some y \<and> evp_pair E (ccipher s) x y))"

lemma evp_stream_twice:
  assumes "evp_pair E c x y" "auth_len c = 0" "block_size c dvd length m" "evp_cipher E x m = Some (e, x')"
  shows "length e = length m \<and> (\<exists>y'. evp_cipher E y e = Some (m, y') \<and> evp_pair E c x' y')"
proof -
  obtain R where R: "R x y" "evp_stream E (block_size c) R" using assms(1,2) by (auto simp: evp_pair_def)
  then have "length e = length m \<and> (\<exists>y'. evp_cipher E y e = Some (m, y') \<and> R x' y')"
    using assms(3,4) unfolding evp_stream_def by blast
  then show ?thesis using R(2) assms(2) unfolding evp_pair_def by auto
qed

lemma evp_stream_parts:
  assumes "evp_pair E c x y" "auth_len c = 0" "block_size c dvd length m" "block_size c dvd length n"
    and "evp_cipher E x (m @ n) = Some (e, x')"
  shows "\<exists>c1 x1 c2. evp_cipher E x m = Some (c1, x1) \<and> evp_cipher E x1 n = Some (c2, x') \<and> e = c1 @ c2"
proof -
  obtain R where "evp_stream E (block_size c) R" using assms(1,2) by (auto simp: evp_pair_def)
  then show ?thesis using assms(3-5) unfolding evp_stream_def by blast
qed

lemma evp_aead_twice:
  assumes "evp_pair E c x y" "auth_len c \<noteq> 0" "evp_iv_gen E x = Some s1" "evp_aad E s1 a = Some s2"
    "evp_cipher E s2 m = Some (e, s3)" "evp_final E s3 = Some s4" "evp_get_tag E s4 (auth_len c) = Some (t, s5)"
  shows "length e = length m \<and> length t = auth_len c \<and>
      (\<exists>r1 r2 r3 r4 r5. evp_iv_gen E y = Some r1 \<and> evp_set_tag E r1 t = Some r2 \<and> evp_aad E r2 a = Some r3 \<and>
        evp_cipher E r3 e = Some (m, r4) \<and> evp_final E r4 = Some r5 \<and> evp_pair E c s5 r5)"
proof -
  obtain R where R: "R x y" "evp_aead E (auth_len c) R" using assms(1,2) by (auto simp: evp_pair_def)
  then have "length e = length m \<and> length t = auth_len c \<and>
      (\<exists>r1 r2 r3 r4 r5. evp_iv_gen E y = Some r1 \<and> evp_set_tag E r1 t = Some r2 \<and> evp_aad E r2 a = Some r3 \<and>
        evp_cipher E r3 e = Some (m, r4) \<and> evp_final E r4 = Some r5 \<and> R s5 r5)"
    using assms(3-7) unfolding evp_aead_def by blast
  then show ?thesis using R(2) assms(2) unfolding evp_pair_def by auto
qed


section \<open>The contract holds\<close>

lemma crypt_none:
  "cflags (ccipher cc) AND CFLAG_CHACHAPOLY = 0 \<Longrightarrow> cflags (ccipher cc) AND CFLAG_NONE \<noteq> 0 \<Longrightarrow>
   cipher_crypt E junk cc q src len aad a = Inr (take (aad + len) src, cc)"
  by (simp add: cipher_crypt_def)

lemma crypt_evp:
  assumes "cflags (ccipher cc) AND CFLAG_CHACHAPOLY = 0" "cflags (ccipher cc) AND CFLAG_NONE = 0" "evp cc = Some x"
  shows "cipher_crypt E junk cc q src len aad a = Inr (d, cc') \<longleftrightarrow>
    (\<exists>x'. evp_crypt E cc src len aad a x = Inr (d, x') \<and> cc' = cc\<lparr>evp := Some x'\<rparr>)"
  using assms by (auto simp: cipher_crypt_def split: sum.splits)

lemma crypt_chachapoly:
  assumes "cflags (ccipher cc) AND CFLAG_CHACHAPOLY \<noteq> 0" "cp_ctx cc = Some x"
  shows "cipher_crypt E junk cc q src len aad a = Inr (d, cc') \<longleftrightarrow>
    (\<exists>x'. chachapoly_crypt junk x q src len aad (cencrypt cc) = (Inr d, x') \<and> cc' = cc\<lparr>cp_ctx := Some x'\<rparr>)"
  using assms by (auto simp: cipher_crypt_def split: sum.splits prod.splits)

text \<open>The OpenSSL part without and with a tag.\<close>

lemma evp_crypt_plain:
  "evp_crypt E cc src len aad 0 x = Inr (d, x') \<longleftrightarrow> block_size (ccipher cc) dvd len \<and>
    (\<exists>e. evp_cipher E x (take len (drop aad src)) = Some (e, x') \<and> d = take aad src @ e)"
  by (auto simp: evp_crypt_def evp_begin_def evp_finish_def or_err_Inr mod_eq_0_iff_dvd split: if_splits)

lemma evp_crypt_enc:
  assumes "a \<noteq> 0" "aad \<noteq> 0" "cencrypt cc" "evp_crypt E cc src len aad a x = Inr (d, x5)"
  obtains e t x1 x2 x3 x4 where "a = auth_len (ccipher cc)" "block_size (ccipher cc) dvd len" "evp_iv_gen E x = Some x1"
    "evp_aad E x1 (take aad src) = Some x2" "evp_cipher E x2 (take len (drop aad src)) = Some (e, x3)"
    "evp_final E x3 = Some x4" "evp_get_tag E x4 a = Some (t, x5)" "d = take aad src @ e @ t"
  using assms
  by (auto simp: evp_crypt_def evp_begin_def evp_finish_def or_err_def mod_eq_0_iff_dvd cipher_authlen_def
      split: if_splits sum.splits option.splits prod.splits)

lemma evp_crypt_dec:
  assumes "a = auth_len (ccipher cc)" "a \<noteq> 0" "aad \<noteq> 0" "\<not> cencrypt cc" "block_size (ccipher cc) dvd len"
    and "evp_iv_gen E y = Some r1" "evp_set_tag E r1 (take a (drop (aad + len) src)) = Some r2"
    and "evp_aad E r2 (take aad src) = Some r3" "evp_cipher E r3 (take len (drop aad src)) = Some (m, r4)" "evp_final E r4 = Some r5"
  shows "evp_crypt E cc src len aad a y = Inr (take aad src @ m, r5)"
  using assms by (simp add: evp_crypt_def evp_begin_def evp_finish_def cipher_authlen_def mod_eq_0_iff_dvd)

lemma evp_whole:
  assumes p: "evp_pair E (ccipher s) x y" and c: "ccipher r = ccipher s" "cencrypt s" "\<not> cencrypt r"
    and src: "length src = aad + len" and aad: "auth_len (ccipher s) = 0 \<or> aad \<noteq> 0"
    and enc: "evp_crypt E s src len aad (auth_len (ccipher s)) x = Inr (d, x')"
  shows "length d = aad + len + auth_len (ccipher s) \<and>
    (\<exists>y'. evp_crypt E r (d @ rest) len aad (auth_len (ccipher s)) y = Inr (src, y') \<and> evp_pair E (ccipher s) x' y')"
proof (cases "auth_len (ccipher s) = 0")
  case True
  then obtain e where e: "block_size (ccipher s) dvd len" "evp_cipher E x (drop aad src) = Some (e, x')" "d = take aad src @ e"
    using enc src by (auto simp: evp_crypt_plain)
  from evp_stream_twice [OF p True _ e(2)] e(1) src obtain y' where
    y: "length e = len" "evp_cipher E y e = Some (drop aad src, y')" "evp_pair E (ccipher s) x' y'" by auto
  then show ?thesis using True e src c(1) by (auto simp: evp_crypt_plain)
next
  case False
  then have a: "aad \<noteq> 0" using aad by simp
  have tk: "take len (drop aad src) = drop aad src" using src by simp
  from evp_crypt_enc [OF False a c(2) enc, unfolded tk] obtain e t x1 x2 x3 x4 where e: "block_size (ccipher s) dvd len" "evp_iv_gen E x = Some x1" "evp_aad E x1 (take aad src) = Some x2"
      "evp_cipher E x2 (drop aad src) = Some (e, x3)" "evp_final E x3 = Some x4"
      "evp_get_tag E x4 (auth_len (ccipher s)) = Some (t, x')" and d: "d = take aad src @ e @ t"
    by metis
  from evp_aead_twice [OF p False e(2-6)] obtain r1 r2 r3 r4 r5 where
    l: "length e = length (drop aad src)" "length t = auth_len (ccipher s)" and
    r: "evp_iv_gen E y = Some r1" "evp_set_tag E r1 t = Some r2" "evp_aad E r2 (take aad src) = Some r3"
      "evp_cipher E r3 e = Some (drop aad src, r4)" "evp_final E r4 = Some r5" "evp_pair E (ccipher s) x' r5" by blast
  have "evp_crypt E r (d @ rest) len aad (auth_len (ccipher s)) y = Inr (take aad (d @ rest) @ drop aad src, r5)"
    by (rule evp_crypt_dec) (use c False aad e(1) l r src d in simp_all)
  then show ?thesis using r(6) l src d by auto
qed


lemma cipher_whole:
  assumes sy: "cipher_sync E junk junk' s r" and src: "length src = aad + len" and aad: "auth_len (ccipher s) = 0 \<or> aad \<noteq> 0"
    and enc: "cipher_crypt E junk s q src len aad (auth_len (ccipher s)) = Inr (c, s')"
  shows "length c = aad + len + auth_len (ccipher s) \<and>
    (\<exists>r'. cipher_crypt E junk' r q (c @ rest) len aad (auth_len (ccipher s)) = Inr (src, r') \<and> cipher_sync E junk junk' s' r')"
proof -
  have sr: "length junk = 64" "length junk' = 64" "ccipher r = ccipher s" "cencrypt s" "\<not> cencrypt r" "0 < block_size (ccipher s)"
    using sy by (simp_all add: cipher_sync_def)
  consider (cp) "cflags (ccipher s) AND CFLAG_CHACHAPOLY \<noteq> 0"
    | (none) "cflags (ccipher s) AND CFLAG_CHACHAPOLY = 0" "cflags (ccipher s) AND CFLAG_NONE \<noteq> 0"
    | (evp) "cflags (ccipher s) AND CFLAG_CHACHAPOLY = 0" "cflags (ccipher s) AND CFLAG_NONE = 0" by blast
  then show ?thesis
  proof cases
    case cp
    then obtain x y where xy: "cp_ctx s = Some x" "cp_ctx r = Some y" "same_keys x y" and al: "auth_len (ccipher s) = POLY1305_TAGLEN"
      using sy by (auto simp: cipher_sync_def)
    obtain x' where x': "chachapoly_crypt junk x q src len aad True = (Inr c, x')" "s' = s\<lparr>cp_ctx := Some x'\<rparr>"
      using enc crypt_chachapoly [OF cp xy(1)] sr(4) by auto
    from crypt_roundtrip [OF xy(3) sr(1,2) src x'(1), of rest] obtain y' where
      y': "length c = aad + len + POLY1305_TAGLEN" "same_keys x' y'" "chachapoly_crypt junk' y q (c @ rest) len aad False = (Inr src, y')"
      by auto
    then show ?thesis using crypt_chachapoly [of r y] cp xy x' sr al
      by (auto simp: cipher_sync_def intro!: exI [of _ "r\<lparr>cp_ctx := Some y'\<rparr>"])
  next
    case none
    then have al: "auth_len (ccipher s) = 0" using sy by (simp add: cipher_sync_def)
    have "c = src" "s' = s" using enc crypt_none [OF none] src by auto
    then show ?thesis using al crypt_none [of r] none src sr(3) sy by auto
  next
    case evp
    then obtain x y where xy: "evp s = Some x" "evp r = Some y" "evp_pair E (ccipher s) x y"
      using sy by (auto simp: cipher_sync_def)
    obtain x' where x': "evp_crypt E s src len aad (auth_len (ccipher s)) x = Inr (c, x')" "s' = s\<lparr>evp := Some x'\<rparr>"
      using enc crypt_evp [OF evp xy(1)] by auto
    from evp_whole [OF xy(3) sr(3-5) src aad x'(1), of rest] obtain y' where
      y': "length c = aad + len + auth_len (ccipher s)"
        "evp_crypt E r (c @ rest) len aad (auth_len (ccipher s)) y = Inr (src, y')" "evp_pair E (ccipher s) x' y'"
      by blast
    then show ?thesis using crypt_evp [of r y] evp xy x' sr
      by (auto simp: cipher_sync_def intro!: exI [of _ "r\<lparr>evp := Some y'\<rparr>"])
  qed
qed

lemma cipher_split:
  assumes sy: "cipher_sync E junk junk' s r" and al: "auth_len (ccipher s) = 0" and src: "length src = len"
    and n: "block_size (ccipher s) dvd n" "block_size (ccipher s) dvd len" "n \<le> len"
    and enc: "cipher_crypt E junk s q src len 0 0 = Inr (c, s')"
  shows "length c = len \<and> (\<exists>r1 r'. cipher_crypt E junk' r q1 (take n c @ rest1) n 0 0 = Inr (take n src, r1) \<and>
    cipher_crypt E junk' r1 q2 (drop n c @ rest2) (len - n) 0 0 = Inr (drop n src, r') \<and> cipher_sync E junk junk' s' r')"
proof -
  have sr: "length junk = 64" "length junk' = 64" "ccipher r = ccipher s" "cencrypt s" "\<not> cencrypt r" "0 < block_size (ccipher s)"
    using sy by (simp_all add: cipher_sync_def)
  have cp: "cflags (ccipher s) AND CFLAG_CHACHAPOLY = 0" using sy al by (auto simp: cipher_sync_def POLY1305_TAGLEN_def split: if_splits)
  show ?thesis
  proof (cases "cflags (ccipher s) AND CFLAG_NONE = 0")
    case False
    then have "c = src" "s' = s" using enc crypt_none [OF cp False] src by auto
    then show ?thesis using crypt_none [of r] cp False src sr(3) sy n(3) by auto
  next
    case True
    then obtain x y where xy: "evp s = Some x" "evp r = Some y" "evp_pair E (ccipher s) x y"
      using sy cp by (auto simp: cipher_sync_def)
    obtain x' where x': "evp_cipher E x (take n src @ drop n src) = Some (c, x')" "s' = s\<lparr>evp := Some x'\<rparr>"
      using enc crypt_evp [OF cp True xy(1)] src by (auto simp: evp_crypt_plain)
    have dv: "block_size (ccipher s) dvd length (take n src)" "block_size (ccipher s) dvd length (drop n src)"
      using n src by (simp_all add: dvd_diff_nat)
    from evp_stream_parts [OF xy(3) al dv x'(1)] obtain c1 x1 c2 where
      p: "evp_cipher E x (take n src) = Some (c1, x1)" "evp_cipher E x1 (drop n src) = Some (c2, x')" "c = c1 @ c2" by blast
    from evp_stream_twice [OF xy(3) al dv(1) p(1)] obtain y1 where
      y1: "length c1 = length (take n src)" "evp_cipher E y c1 = Some (take n src, y1)" "evp_pair E (ccipher s) x1 y1" by blast
    from evp_stream_twice [OF y1(3) al dv(2) p(2)] obtain y2 where
      y2: "length c2 = length (drop n src)" "evp_cipher E y1 c2 = Some (drop n src, y2)" "evp_pair E (ccipher s) x' y2" by blast
    let ?r1 = "r\<lparr>evp := Some y1\<rparr>"
    have "cipher_crypt E junk' r q1 (take n c @ rest1) n 0 0 = Inr (take n src, ?r1)"
      using crypt_evp [of r y] cp True xy(2) sr(3) y1 p(3) n src by (simp add: evp_crypt_plain)
    moreover have "cipher_crypt E junk' ?r1 q2 (drop n c @ rest2) (len - n) 0 0 = Inr (drop n src, ?r1\<lparr>evp := Some y2\<rparr>)"
      using crypt_evp [of ?r1 y1] cp True sr(3) y1(1) y2 p(3) n src by (simp add: evp_crypt_plain dvd_diff_nat)
    moreover have "cipher_sync E junk junk' s' (?r1\<lparr>evp := Some y2\<rparr>)"
      using sr cp True x'(2) y2(3) by (simp add: cipher_sync_def)
    moreover have "length c = len" using p(3) y1(1) y2(1) src n(3) by simp
    ultimately show ?thesis by blast
  qed
qed


lemma get_length_prefix:
  "4 \<le> length inp \<Longrightarrow> 4 \<le> length c \<Longrightarrow> take 4 inp = take 4 c \<Longrightarrow>
   chachapoly_get_length junk x q inp = chachapoly_get_length junk x q c"
  by (simp add: chachapoly_get_length_def)

lemma PEEK_U32_prefix: "4 \<le> length a \<Longrightarrow> 4 \<le> length b \<Longrightarrow> take 4 a = take 4 b \<Longrightarrow> PEEK_U32 a = PEEK_U32 b"
proof -
  assume a: "take 4 a = take 4 b"
  have "a ! i = b ! i" if "i < 4" for i using a that by (metis nth_take)
  then show ?thesis by (simp add: PEEK_U32_def)
qed

lemma cipher_length:
  assumes sy: "cipher_sync E junk junk' s r" and src: "length src = 4 + len"
    and enc: "cipher_crypt E junk s q src len 4 (auth_len (ccipher s)) = Inr (c, s')"
    and inp: "4 \<le> length inp" "take 4 inp = take 4 c"
  shows "\<exists>r'. cipher_get_length junk' r q inp = (Inr (PEEK_U32 src), r') \<and> cipher_sync E junk junk' s r'"
proof -
  have sr: "length junk = 64" "length junk' = 64" "ccipher r = ccipher s" "cencrypt s"
    using sy by (simp_all add: cipher_sync_def)
  have lc: "4 \<le> length c" using cipher_whole [OF sy src _ enc] by simp
  show ?thesis
  proof (cases "cflags (ccipher s) AND CFLAG_CHACHAPOLY = 0")
    case False
    then obtain x y where xy: "cp_ctx s = Some x" "cp_ctx r = Some y" "same_keys x y" using sy by (auto simp: cipher_sync_def)
    obtain x' where x': "chachapoly_crypt junk x q src len 4 True = (Inr c, x')"
      using enc crypt_chachapoly [OF False xy(1)] sr(4) by auto
    from get_length_reads [OF xy(3) sr(1,2) src x' refl, of "[]"] obtain y' where
      y': "chachapoly_get_length junk' y q c = (Inr (PEEK_U32 src), y')" "same_keys x y'" by auto
    then have "cipher_get_length junk' r q inp = (Inr (PEEK_U32 src), r\<lparr>cp_ctx := Some y'\<rparr>)"
      using False sr(3) xy(2) get_length_prefix [OF inp(1) lc inp(2)] by (simp add: cipher_get_length_def)
    then show ?thesis using sy False xy y'(2) by (auto simp: cipher_sync_def)
  next
    case True
    have "take 4 c = take 4 src"
    proof (cases "cflags (ccipher s) AND CFLAG_NONE = 0")
      case n: True
      then obtain x where x: "evp s = Some x" using sy True by (auto simp: cipher_sync_def)
      from enc crypt_evp [OF True n x] obtain x' where "evp_crypt E s src len 4 (auth_len (ccipher s)) x = Inr (c, x')" by auto
      then have "\<exists>e. c = take 4 src @ e" using evp_crypt_enc [of "auth_len (ccipher s)" 4 s E src len x c x'] sr(4)
        by (cases "auth_len (ccipher s) = 0") (auto simp: evp_crypt_plain)
      then show ?thesis using src by auto
    qed (use enc crypt_none [OF True] src in auto)
    then have "PEEK_U32 inp = PEEK_U32 src" using PEEK_U32_prefix [OF inp(1), of src] inp(2) src by simp
    then show ?thesis using True sr(3) inp(1) sy by (simp add: cipher_get_length_def)
  qed
qed

lemma cipher_crypt_cipher: "cipher_crypt E junk s q src len aad a = Inr (c, s') \<Longrightarrow> ccipher s' = ccipher s"
  by (auto simp: cipher_crypt_def or_err_def split: if_splits option.splits sum.splits prod.splits)

interpretation pc: packet_cipher "cipher_crypt E junk" "cipher_crypt E junk'" "cipher_get_length junk'" "cipher_sync E junk junk'"
    "\<lambda>cc. cipher_authlen (ccipher cc)" "\<lambda>cc. block_size (ccipher cc)" for E junk junk'
proof (unfold_locales, goal_cases)
  case 1
  then show ?case by (simp add: cipher_sync_def)
next
  case 2
  then show ?case by (simp add: cipher_crypt_cipher)
next
  case (3 s r src aad len q c s' rest)
  show ?case using cipher_whole [of E junk junk' s r src aad len q c s' rest] 3 by (simp add: cipher_authlen_def)
next
  case (4 s r src len n q c s' q1 rest1 q2 rest2)
  show ?case using cipher_split [of E junk junk' s r src len n q c s'] 4 by (simp add: cipher_authlen_def)
next
  case (5 s r src len q c s' inp)
  show ?case using cipher_length [of E junk junk' s r src len q c s' inp] 5 by (simp add: cipher_authlen_def)
next
  case (6 s r inp q)
  show ?case using 6 by (auto simp: cipher_sync_def cipher_get_length_def chachapoly_get_length_def split: if_splits)
qed


section \<open>Set-up and lists of names\<close>

text \<open>OpenSSL sets up contexts that work together for both directions.\<close>

definition evp_keyed :: "'e evp_ops \<Rightarrow> bool" where
  "evp_keyed E \<longleftrightarrow> (\<forall>c key iv x y. evp_start E c key iv True = Inr x \<and> evp_start E c key iv False = Inr y \<longrightarrow> evp_pair E c x y)"

lemma table_shape:
  assumes "c \<in> set ciphers"
  shows "0 < block_size c" "block_size c \<in> {8, 16}" "auth_len c \<in> {0, 16}"
    "cflags c AND CFLAG_CHACHAPOLY \<noteq> 0 \<Longrightarrow> auth_len c = POLY1305_TAGLEN"
    "cflags c AND CFLAG_CHACHAPOLY = 0 \<Longrightarrow> cflags c AND CFLAG_NONE \<noteq> 0 \<Longrightarrow> auth_len c = 0"
    "CHR '','' \<notin> set (cname c)" "cname c \<noteq> []"
  using assms by (auto simp: ciphers_def entry_of_def cflags_defs POLY1305_TAGLEN_def)

lemma cipher_init_sync:
  assumes "c \<in> set ciphers" "evp_keyed E" "length junk = 64" "length junk' = 64"
    and "cipher_init A E c key iv True = Inr s" "cipher_init B E c key iv False = Inr r"
  shows "cipher_sync E junk junk' s r" "ccipher s = c" "ccipher r = c"
proof -
  note t = table_shape [OF assms(1)]
  show "ccipher s = c" "ccipher r = c"
    using assms(5,6) by (auto simp: cipher_init_def or_err_def Let_def split: if_splits option.splits sum.splits)
  show "cipher_sync E junk junk' s r"
  proof (cases "cflags c AND CFLAG_CHACHAPOLY = 0")
    case False
    then obtain x y where "chachapoly_new A key = Some x" "chachapoly_new B key = Some y" "cp_ctx s = Some x" "cp_ctx r = Some y"
        "ccipher s = c" "ccipher r = c" "cencrypt s" "\<not> cencrypt r"
      using assms(5,6) by (auto simp: cipher_init_def or_err_def Let_def split: if_splits option.splits)
    then show ?thesis using new_same_keys [of A key x B y] t(1,4) False assms(3,4) by (simp add: cipher_sync_def)
  next
    case True
    have "cencrypt s" "\<not> cencrypt r" "ccipher s = c" "ccipher r = c"
        "cflags c AND CFLAG_NONE \<noteq> 0 \<or> (\<exists>x y. evp s = Some x \<and> evp r = Some y \<and> evp_pair E c x y)"
      using assms(2,5,6) True
      by (auto simp: cipher_init_def evp_keyed_def Let_def split: if_splits sum.splits)
    then show ?thesis using t(1,5) True assms(3,4) by (auto simp: cipher_sync_def)
  qed
qed

lemma names_loop_None [simp]: "names_loop ok None"
  by (subst names_loop.simps) (simp add: strsep_def)

lemma names_loop_step:
  "names_loop ok (Some s) \<longleftrightarrow> takeWhile (\<lambda>c. c \<noteq> CHR '','') s = [] \<or> ok (takeWhile (\<lambda>c. c \<noteq> CHR '','') s) \<and>
    (case dropWhile (\<lambda>c. c \<noteq> CHR '','') s of [] \<Rightarrow> True | _ # r \<Rightarrow> names_loop ok (Some r))"
  by (subst names_loop.simps) (auto simp: strsep_def simp del: takeWhile_eq_Nil_iff dropWhile_eq_Nil_conv split: list.split)

lemma names_loop_split:
  "names_loop ok (Some s) \<longleftrightarrow> (\<forall>p \<in> set (takeWhile (\<lambda>p. p \<noteq> []) (comma_split s)). ok p)"
proof (induction "length s" arbitrary: s rule: less_induct)
  case less
  define t where "t = takeWhile (\<lambda>c. c \<noteq> CHR '','') s"
  show ?case
  proof (cases "dropWhile (\<lambda>c. c \<noteq> CHR '','') s")
    case Nil
    have "comma_split s = [t]" unfolding comma_split_rec [of s] Nil t_def by simp
    moreover have "names_loop ok (Some s) \<longleftrightarrow> t = [] \<or> ok t" unfolding names_loop_step [of ok s] Nil t_def by simp
    ultimately show ?thesis by auto
  next
    case (Cons a r)
    then have "length r < length s" using length_dropWhile_le [of "\<lambda>c. c \<noteq> CHR '',''" s] by simp
    note IH = less [OF this]
    have "comma_split s = t # comma_split r" unfolding comma_split_rec [of s] Cons t_def by simp
    moreover have "names_loop ok (Some s) \<longleftrightarrow> t = [] \<or> ok t \<and> names_loop ok (Some r)"
      unfolding names_loop_step [of ok s] Cons t_def by simp
    ultimately show ?thesis using IH by auto
  qed
qed

lemma alg_list_loop_join:
  assumes "\<forall>n. malloc_ok A n" "ns \<noteq> []"
  shows "alg_list_loop A CHR '','' ns ret =
    Some ((case ret of None \<Rightarrow> [] | Some s \<Rightarrow> s @ '','') @ comma_join ns)"
  using assms(2)
proof (induction ns arbitrary: ret)
  case (Cons n ns)
  show ?case
  proof (cases "ns = []")
    case False
    then show ?thesis using assms(1) Cons.IH [OF False, of "Some ((case ret of None \<Rightarrow> [] | Some s \<Rightarrow> s @ '','') @ n)"]
      by (simp add: comma_join_Cons)
  qed (use assms(1) in simp)
qed simp

lemma alg_list_valid:
  assumes "\<forall>n. malloc_ok A n" "ns \<noteq> []" "\<forall>n \<in> set ns. CHR '','' \<notin> set n \<and> n \<noteq> [] \<and> ok n"
  shows "\<exists>s. alg_list_loop A CHR '','' ns None = Some s \<and> s \<noteq> [] \<and> comma_split s = ns \<and> names_loop ok (Some s)"
proof -
  let ?s = "comma_join ns"
  have s: "comma_split ?s = ns" using assms(2,3) by (intro comma_split_join) auto
  have "?s \<noteq> []"
  proof
    assume "?s = []"
    then have "ns = [[]]" using s by simp
    then show False using assms(3) by simp
  qed
  moreover have "names_loop ok (Some ?s)"
    unfolding names_loop_split s using assms(3) by (blast dest: set_takeWhileD)
  ultimately show ?thesis using alg_list_loop_join [OF assms(1,2), of None] s by simp
qed

lemma find_distinct: "distinct (map f xs) \<Longrightarrow> x \<in> set xs \<Longrightarrow> P x \<Longrightarrow> find (\<lambda>y. f y = f x \<and> P y) xs = Some x"
  by (induction xs) (auto simp: image_iff)

text \<open>The names that are advertised are all accepted and resolve to the entries of the table.\<close>

lemma cipher_alg_list_valid:
  assumes "\<forall>n. malloc_ok A n" "cipher_alg_list A fips CHR '','' auth_only = Some s"
  shows "ciphers_valid True fips (Some s) \<and> (\<forall>p \<in> set (comma_split s). \<exists>c. cipher_by_name fips p = Some c \<and> cname c = p \<and>
    cflags c AND CFLAG_INTERNAL = 0 \<and> (auth_only \<longrightarrow> auth_len c \<noteq> 0))"
proof -
  define cs where "cs = filter (\<lambda>c. cflags c AND CFLAG_INTERNAL = 0 \<and> \<not> (auth_only \<and> auth_len c = 0) \<and> cipher_allowed fips c) ciphers"
  have l: "cipher_alg_list A fips CHR '','' auth_only = alg_list_loop A CHR '','' (map cname cs) None"
    by (simp add: cipher_alg_list_def cs_def)
  have ne: "map cname cs \<noteq> []" using assms(2) l by (cases "map cname cs") auto
  have "distinct (map cname ciphers)" by (simp add: ciphers_def entry_of_def)
  then have by_name: "cipher_by_name fips (cname c) = Some c" if "c \<in> set cs" for c
    using that find_distinct [of cname ciphers c "cipher_allowed fips"] by (simp add: cipher_by_name_def cs_def)
  have "\<forall>n \<in> set (map cname cs). CHR '','' \<notin> set n \<and> n \<noteq> [] \<and>
      (case cipher_by_name fips n of None \<Rightarrow> False | Some c \<Rightarrow> cflags c AND CFLAG_INTERNAL = 0)"
    using by_name table_shape(6,7) by (auto simp: cs_def)
  from alg_list_valid [OF assms(1) ne this] l assms(2) have "comma_split s = map cname cs" "ciphers_valid True fips (Some s)"
    by (auto simp: ciphers_valid_def)
  then show ?thesis using by_name by (auto simp: cs_def)
qed

text \<open>What follows an empty entry of a list is never looked at.\<close>

lemma ciphers_valid_after_empty:
  "ciphers_valid True None (Some ''aes128-ctr,,not-a-cipher'')"
  by (simp add: ciphers_valid_def names_loop_split cipher_by_name_def ciphers_def entry_of_def cipher_allowed_def cflags_defs)


end
