(* ===== verification/Mac.thy ===== *)
theory Mac
  imports Digest Cipher
begin

text \<open>
  Message authentication codes of packets (\<^verbatim>\<open>mac.c\<close>): the table, names and lists of names, set-up, computation and
  check. UMAC (\<^verbatim>\<open>umac.c\<close>) is the argument \<open>umac_ops\<close>, whose first argument says whether the 128-bit variant is meant. The
  static union that holds a digest keeps its bytes between calls: it is the argument \<open>um\<close>.
\<close>

section \<open>The table\<close>

definition SSH_DIGEST :: nat where "SSH_DIGEST = 1"
definition SSH_UMAC :: nat where "SSH_UMAC = 2"
definition SSH_UMAC128 :: nat where "SSH_UMAC128 = 3"

lemmas mac_types = SSH_DIGEST_def SSH_UMAC_def SSH_UMAC128_def

record macalg =
  maname :: string
  matype :: nat
  maalg :: int
  truncatebits :: nat
  makey_len :: nat
  malen :: nat
  maetm :: bool

definition mac_entry :: "string \<Rightarrow> nat \<Rightarrow> int \<Rightarrow> nat \<Rightarrow> nat \<Rightarrow> nat \<Rightarrow> bool \<Rightarrow> macalg" where
  "mac_entry n t a b k l e =
    \<lparr>maname = n, matype = t, maalg = a, truncatebits = b, makey_len = k, malen = l, maetm = e\<rparr>"

definition macs :: "macalg list" where
  "macs =
    [mac_entry ''hmac-sha1'' SSH_DIGEST SSH_DIGEST_SHA1 0 0 0 False,
     mac_entry ''hmac-sha1-96'' SSH_DIGEST SSH_DIGEST_SHA1 96 0 0 False,
     mac_entry ''hmac-sha2-256'' SSH_DIGEST SSH_DIGEST_SHA256 0 0 0 False,
     mac_entry ''hmac-sha2-512'' SSH_DIGEST SSH_DIGEST_SHA512 0 0 0 False,
     mac_entry ''hmac-md5'' SSH_DIGEST SSH_DIGEST_MD5 0 0 0 False,
     mac_entry ''hmac-md5-96'' SSH_DIGEST SSH_DIGEST_MD5 96 0 0 False,
     mac_entry ''umac-64@openssh.com'' SSH_UMAC 0 0 128 64 False,
     mac_entry ''umac-128@openssh.com'' SSH_UMAC128 0 0 128 128 False,
     mac_entry ''hmac-sha1-etm@openssh.com'' SSH_DIGEST SSH_DIGEST_SHA1 0 0 0 True,
     mac_entry ''hmac-sha1-96-etm@openssh.com'' SSH_DIGEST SSH_DIGEST_SHA1 96 0 0 True,
     mac_entry ''hmac-sha2-256-etm@openssh.com'' SSH_DIGEST SSH_DIGEST_SHA256 0 0 0 True,
     mac_entry ''hmac-sha2-512-etm@openssh.com'' SSH_DIGEST SSH_DIGEST_SHA512 0 0 0 True,
     mac_entry ''hmac-md5-etm@openssh.com'' SSH_DIGEST SSH_DIGEST_MD5 0 0 0 True,
     mac_entry ''hmac-md5-96-etm@openssh.com'' SSH_DIGEST SSH_DIGEST_MD5 96 0 0 True,
     mac_entry ''umac-64-etm@openssh.com'' SSH_UMAC 0 0 128 64 True,
     mac_entry ''umac-128-etm@openssh.com'' SSH_UMAC128 0 0 128 128 True]"

definition macalg_allowed :: "'d md_ops \<Rightarrow> macalg \<Rightarrow> bool" where
  "macalg_allowed M m \<longleftrightarrow> md_fips M = None \<or> matype m = SSH_DIGEST \<and> ssh_digest_bytes M (maalg m) \<noteq> 0"

definition mac_alg_list :: "allocator \<Rightarrow> 'd md_ops \<Rightarrow> char \<Rightarrow> string option" where
  "mac_alg_list A M sep = alg_list_loop A sep (map maname (filter (macalg_allowed M) macs)) None"

section \<open>Set-up\<close>

record 'u umac_ops =
  umac_new :: "bool \<Rightarrow> byte list \<Rightarrow> 'u option"
  umac_update :: "bool \<Rightarrow> 'u \<Rightarrow> byte list \<Rightarrow> 'u"
  umac_final :: "bool \<Rightarrow> 'u \<Rightarrow> byte list \<Rightarrow> byte list \<times> 'u"

record ('d, 'u) sshmac =
  mname :: "string option"
  menabled :: bool
  mac_len :: nat
  mkey :: "byte list option"
  mkey_len :: nat
  mtype :: nat
  metm :: bool
  hmac_ctx :: "'d ssh_hmac_ctx option"
  umac_ctx :: "'u option"

definition mac_setup_by_alg :: "allocator \<Rightarrow> 'd md_ops \<Rightarrow> ('d, 'u) sshmac \<Rightarrow> macalg \<Rightarrow> ('d, 'u) sshmac res" where
  "mac_setup_by_alg A M mac m =
    (let mac1 = mac\<lparr>mtype := matype m\<rparr>;
         fin = (\<lambda>x. Inr ((if truncatebits m \<noteq> 0 then x\<lparr>mac_len := truncatebits m div 8\<rparr> else x)\<lparr>metm := maetm m\<rparr>))
     in if matype m = SSH_DIGEST then
          or_err SSH_ERR_ALLOC_FAIL (ssh_hmac_start A M (maalg m)) (\<lambda>h.
            fin (mac1\<lparr>hmac_ctx := Some h, mac_len := ssh_hmac_bytes M (maalg m), mkey_len := ssh_hmac_bytes M (maalg m)\<rparr>))
        else fin (mac1\<lparr>mac_len := malen m div 8, mkey_len := makey_len m div 8, umac_ctx := None\<rparr>))"

text \<open>With a NULL \<^verbatim>\<open>mac\<close> only the name is looked up.\<close>

definition mac_lookup :: "'d md_ops \<Rightarrow> string \<Rightarrow> macalg option" where
  "mac_lookup M nm = find (\<lambda>m. maname m = nm \<and> macalg_allowed M m) macs"

definition mac_setup ::
    "allocator \<Rightarrow> 'd md_ops \<Rightarrow> ('d, 'u) sshmac option \<Rightarrow> string \<Rightarrow> ('d, 'u) sshmac option res" where
  "mac_setup A M mac nm =
    or_err SSH_ERR_INVALID_ARGUMENT (mac_lookup M nm) (\<lambda>m.
      case mac of None \<Rightarrow> Inr None
      | Some x \<Rightarrow> (case mac_setup_by_alg A M x m of Inl e \<Rightarrow> Inl e | Inr y \<Rightarrow> Inr (Some y)))"

definition mac_init :: "'d md_ops \<Rightarrow> 'u umac_ops \<Rightarrow> ('d, 'u) sshmac \<Rightarrow> ('d, 'u) sshmac res" where
  "mac_init M U mac =
    or_err SSH_ERR_INVALID_ARGUMENT (mkey mac) (\<lambda>key.
      if mtype mac = SSH_DIGEST then
        or_err SSH_ERR_INVALID_ARGUMENT (hmac_ctx mac) (\<lambda>h.
        or_err SSH_ERR_INVALID_ARGUMENT (ssh_hmac_init M h (Some (take (mkey_len mac) key))) (\<lambda>h1. Inr (mac\<lparr>hmac_ctx := Some h1\<rparr>)))
      else if mtype mac = SSH_UMAC \<or> mtype mac = SSH_UMAC128 then
        or_err SSH_ERR_ALLOC_FAIL (umac_new U (mtype mac = SSH_UMAC128) key) (\<lambda>u. Inr (mac\<lparr>umac_ctx := Some u\<rparr>))
      else Inl SSH_ERR_INVALID_ARGUMENT)"

section \<open>Computation and check\<close>

text \<open>The digest of one packet. A missing context is a NULL pointer, which \<^verbatim>\<open>mac_init\<close> excludes.\<close>

definition mac_digest :: "'d md_ops \<Rightarrow> 'u umac_ops \<Rightarrow> ('d, 'u) sshmac \<Rightarrow> u32 \<Rightarrow> byte list \<Rightarrow> (byte list \<times> ('d, 'u) sshmac) res" where
  "mac_digest M U mac seqno data =
    (if mtype mac = SSH_DIGEST then
       or_err SSH_ERR_LIBCRYPTO_ERROR
         (do { h \<leftarrow> hmac_ctx mac;
               h1 \<leftarrow> ssh_hmac_init M h None;
               h2 \<leftarrow> ssh_hmac_update M h1 (POKE_U32 seqno);
               h3 \<leftarrow> ssh_hmac_update M h2 data;
               ssh_hmac_final M h3 SSH_DIGEST_MAX_LENGTH })
         (\<lambda>(d, h4). Inr (d, mac\<lparr>hmac_ctx := Some h4\<rparr>))
     else if mtype mac = SSH_UMAC \<or> mtype mac = SSH_UMAC128 then
       or_err SSH_ERR_INTERNAL_ERROR (umac_ctx mac) (\<lambda>u.
         let b = (mtype mac = SSH_UMAC128); (d, u1) = umac_final U b (umac_update U b u data) (POKE_U64 (ucast seqno))
         in Inr (d, mac\<lparr>umac_ctx := Some u1\<rparr>))
     else Inl SSH_ERR_INVALID_ARGUMENT)"

definition mac_compute ::
    "'d md_ops \<Rightarrow> 'u umac_ops \<Rightarrow> byte list \<Rightarrow> ('d, 'u) sshmac \<Rightarrow> u32 \<Rightarrow> byte list \<Rightarrow> nat \<Rightarrow> (byte list \<times> ('d, 'u) sshmac) res" where
  "mac_compute M U um mac seqno data dlen =
    (if mac_len mac > SSH_DIGEST_MAX_LENGTH then Inl SSH_ERR_INTERNAL_ERROR
     else (case mac_digest M U mac seqno data of Inl e \<Rightarrow> Inl e
       | Inr (d, mac1) \<Rightarrow> Inr (take (min dlen (mac_len mac)) (write_at 0 d um), mac1)))"

definition mac_check ::
    "'d md_ops \<Rightarrow> 'u umac_ops \<Rightarrow> byte list \<Rightarrow> ('d, 'u) sshmac \<Rightarrow> u32 \<Rightarrow> byte list \<Rightarrow> byte list \<Rightarrow> nat \<Rightarrow> ('d, 'u) sshmac res" where
  "mac_check M U um mac seqno data theirmac mlen =
    (if mac_len mac > mlen then Inl SSH_ERR_INVALID_ARGUMENT
     else (case mac_compute M U um mac seqno data SSH_DIGEST_MAX_LENGTH of Inl e \<Rightarrow> Inl e
       | Inr (ourmac, mac1) \<Rightarrow>
           if take (mac_len mac) ourmac \<noteq> take (mac_len mac) theirmac then Inl SSH_ERR_MAC_INVALID else Inr mac1))"

definition mac_valid :: "allocator \<Rightarrow> bool \<Rightarrow> 'd md_ops \<Rightarrow> string option \<Rightarrow> bool" where
  "mac_valid A strdup M nms = (case nms of None \<Rightarrow> False
     | Some s \<Rightarrow> s \<noteq> [] \<and> strdup \<and>
         names_loop (\<lambda>p. case mac_setup A M (None :: ('d, unit) sshmac option) p of Inl _ \<Rightarrow> False | Inr _ \<Rightarrow> True) (Some s))"

section \<open>The contract of a packet MAC\<close>

text \<open>
  What the packet layer relies on: the code that one end computes, cut to \<open>mlen\<close> bytes, is accepted by the other end when
  it is in the same state, and both ends move to the same state; what is accepted is the code that would have been
  computed. \<open>ok\<close> is the invariant of a context that is ready for use.
\<close>

locale packet_mac =
  fixes compute :: "'m \<Rightarrow> u32 \<Rightarrow> byte list \<Rightarrow> nat \<Rightarrow> (byte list \<times> 'm) res"
    and check :: "'m \<Rightarrow> u32 \<Rightarrow> byte list \<Rightarrow> byte list \<Rightarrow> nat \<Rightarrow> 'm res"
    and mlen :: "'m \<Rightarrow> nat"
    and ok :: "'m \<Rightarrow> bool"
  assumes small: "ok m \<Longrightarrow> mlen m \<le> SSH_DIGEST_MAX_LENGTH"
    and computed: "ok m \<Longrightarrow> compute m q d SSH_DIGEST_MAX_LENGTH = Inr (t, m') \<Longrightarrow> length t = mlen m \<and> ok m' \<and> mlen m' = mlen m"
    and accepted: "ok m \<Longrightarrow> compute m q d SSH_DIGEST_MAX_LENGTH = Inr (t, m') \<Longrightarrow> check m q d (t @ rest) (mlen m) = Inr m'"
    and authentic: "ok m \<Longrightarrow> check m q d t (mlen m) = Inr m' \<Longrightarrow>
      compute m q d SSH_DIGEST_MAX_LENGTH = Inr (take (mlen m) t, m')"

text \<open>What UMAC writes: 8 bytes, or 16 for the 128-bit variant.\<close>

definition umac_sized :: "'u umac_ops \<Rightarrow> bool" where
  "umac_sized U \<longleftrightarrow> (\<forall>b u n. length (fst (umac_final U b u n)) = (if b then 16 else 8))"

definition mac_ok :: "'d md_ops \<Rightarrow> 'u umac_ops \<Rightarrow> byte list \<Rightarrow> byte list \<Rightarrow> ('d, 'u) sshmac \<Rightarrow> bool" where
  "mac_ok M U um um' mac \<longleftrightarrow> length um = 64 \<and> length um' = 64 \<and> mac_len mac \<le> 64 \<and>
    (mtype mac = SSH_DIGEST \<and> (\<exists>h. hmac_ctx mac = Some h \<and> dalg (hdigest h) = halg h \<and> mac_len mac \<le> ssh_digest_bytes M (halg h)) \<or>
     mtype mac = SSH_UMAC \<and> umac_sized U \<and> mac_len mac \<le> 8 \<or>
     mtype mac = SSH_UMAC128 \<and> umac_sized U \<and> mac_len mac \<le> 16)"

lemma digest_update_alg: "ssh_digest_update M c m = Inr c' \<Longrightarrow> dalg c' = dalg c"
  by (auto simp: ssh_digest_update_def split: option.splits)

lemma hmac_final_shape:
  assumes "ssh_hmac_final M c n = Some (d, c')" "dalg (hdigest c) = halg c"
  shows "length d = ssh_digest_bytes M (halg c)" "halg c' = halg c" "dalg (hdigest c') = halg c'"
  using assms
  by (auto simp: ssh_hmac_final_def ok_of_def ssh_digest_final_def ssh_digest_copy_state_def ssh_digest_bytes_def Let_def
      dest!: digest_update_alg split: if_splits option.splits sum.splits bind_splits)

lemma hmac_step_shape:
  "ssh_hmac_init M c None = Some c' \<Longrightarrow> halg c' = halg c \<and> dalg (hdigest c') = dalg (hdigest c)"
  "ssh_hmac_update M c m = Some c' \<Longrightarrow> halg c' = halg c \<and> dalg (hdigest c') = dalg (hdigest c)"
  by (auto simp: ssh_hmac_init_def ssh_hmac_update_def ok_of_def ssh_digest_copy_state_def ssh_digest_update_def
      split: if_splits option.splits sum.splits bind_splits)

lemma mac_digest_shape:
  assumes ok: "mac_ok M U um um' mac" and d: "mac_digest M U mac q data = Inr (d, mac')"
  shows "mac_len mac \<le> length d" "mac_ok M U um um' mac'" "mac_len mac' = mac_len mac" "metm mac' = metm mac"
    "menabled mac' = menabled mac"
proof -
  consider (h) "mtype mac = SSH_DIGEST" | (u) "mtype mac = SSH_UMAC \<or> mtype mac = SSH_UMAC128" "mtype mac \<noteq> SSH_DIGEST"
    using ok by (auto simp: mac_ok_def mac_types)
  then have "mac_len mac \<le> length d \<and> mac_ok M U um um' mac' \<and> mac_len mac' = mac_len mac \<and> metm mac' = metm mac \<and>
      menabled mac' = menabled mac"
  proof cases
    case h
    then obtain c where c: "hmac_ctx mac = Some c" "dalg (hdigest c) = halg c" "mac_len mac \<le> ssh_digest_bytes M (halg c)"
      using ok by (auto simp: mac_ok_def mac_types)
    obtain c1 c2 c3 c4 where s: "ssh_hmac_init M c None = Some c1" "ssh_hmac_update M c1 (POKE_U32 q) = Some c2"
        "ssh_hmac_update M c2 data = Some c3" "ssh_hmac_final M c3 SSH_DIGEST_MAX_LENGTH = Some (d, c4)" "mac' = mac\<lparr>hmac_ctx := Some c4\<rparr>"
      using d h c(1) by (auto simp: mac_digest_def or_err_Inr Option.bind_eq_Some_conv)
    have a: "halg c3 = halg c" "dalg (hdigest c3) = halg c3" using hmac_step_shape s(1-3) c(2) by metis+
    from hmac_final_shape [OF s(4) a(2)] show ?thesis using a c h ok s(5) by (simp add: mac_ok_def mac_types)
  next
    case u
    let ?b = "mtype mac = SSH_UMAC128"
    obtain c where c: "umac_ctx mac = Some c" using u d by (cases "umac_ctx mac") (auto simp: mac_digest_def)
    obtain d0 u1 where f0: "umac_final U ?b (umac_update U ?b c data) (POKE_U64 (ucast q)) = (d0, u1)" by fastforce
    then have f: "umac_final U ?b (umac_update U ?b c data) (POKE_U64 (ucast q)) = (d, u1)" and m: "mac' = mac\<lparr>umac_ctx := Some u1\<rparr>"
      using u d c by (simp_all add: mac_digest_def)
    have sz: "umac_sized U" and le: "mac_len mac \<le> (if ?b then 16 else 8)" using ok u by (auto simp: mac_ok_def mac_types)
    have "length d = (if ?b then 16 else 8)" using sz f unfolding umac_sized_def by (metis fst_conv)
    then show ?thesis using le m ok by (simp add: mac_ok_def)
  qed
  then show "mac_len mac \<le> length d" "mac_ok M U um um' mac'" "mac_len mac' = mac_len mac" "metm mac' = metm mac"
    "menabled mac' = menabled mac" by blast+
qed


lemma take_write_at: "n \<le> length d \<Longrightarrow> take n (write_at 0 d um) = take n d"
  by (simp add: write_at_def)

lemma mac_compute_digest:
  assumes "mac_ok M U um um' mac"
  shows "mac_compute M U um mac q data SSH_DIGEST_MAX_LENGTH = Inr (t, mac') \<longleftrightarrow>
    (\<exists>d. mac_digest M U mac q data = Inr (d, mac') \<and> t = take (mac_len mac) d)"
proof (cases "mac_digest M U mac q data")
  case (Inr x)
  obtain d m1 where x: "x = (d, m1)" by fastforce
  have n: "\<not> SSH_DIGEST_MAX_LENGTH < mac_len mac" "min SSH_DIGEST_MAX_LENGTH (mac_len mac) = mac_len mac"
    using assms by (auto simp: mac_ok_def SSH_DIGEST_MAX_LENGTH_def)
  have "mac_len mac \<le> length d" using mac_digest_shape(1) [OF assms] Inr x by simp
  then show ?thesis using Inr x n by (auto simp: mac_compute_def take_write_at)
qed (simp add: mac_compute_def)

lemma mac_ok_swap: "mac_ok M U um um' mac \<Longrightarrow> mac_ok M U um' um mac"
  by (auto simp: mac_ok_def)

lemma mac_check_digest:
  assumes "mac_ok M U um um' mac"
  shows "mac_check M U um mac q data t (mac_len mac) = Inr mac' \<longleftrightarrow>
    (\<exists>d. mac_digest M U mac q data = Inr (d, mac') \<and> take (mac_len mac) t = take (mac_len mac) d)"
proof (cases "mac_compute M U um mac q data SSH_DIGEST_MAX_LENGTH")
  case (Inl e)
  then have "\<nexists>d m1. mac_digest M U mac q data = Inr (d, m1)" using mac_compute_digest [OF assms] by (metis Inl_Inr_False)
  then show ?thesis using Inl by (auto simp: mac_check_def)
next
  case (Inr x)
  then obtain d m1 where d: "mac_digest M U mac q data = Inr (d, m1)" "x = (take (mac_len mac) d, m1)"
    using mac_compute_digest [OF assms] by (cases x) auto
  then show ?thesis using Inr by (auto simp: mac_check_def)
qed

interpretation pm: packet_mac "mac_compute M U um" "mac_check M U um'" mac_len "mac_ok M U um um'" for M U um um'
proof (unfold_locales, goal_cases)
  case (1 m)
  then show ?case by (simp add: mac_ok_def SSH_DIGEST_MAX_LENGTH_def)
next
  case (2 m q d t m')
  then obtain x where "mac_digest M U m q d = Inr (x, m')" "t = take (mac_len m) x" using mac_compute_digest by blast
  then show ?case using mac_digest_shape [OF 2(1)] by simp
next
  case (3 m q d t m' rest)
  then obtain x where x: "mac_digest M U m q d = Inr (x, m')" "t = take (mac_len m) x" using mac_compute_digest by blast
  then have "length t = mac_len m" using mac_digest_shape(1) [OF 3(1)] by simp
  then show ?case using mac_check_digest [OF mac_ok_swap [OF 3(1)], of q d "t @ rest" m'] x by simp
next
  case (4 m q d t m')
  then obtain x where "mac_digest M U m q d = Inr (x, m')" "take (mac_len m) t = take (mac_len m) x"
    using mac_check_digest [OF mac_ok_swap] by blast
  then show ?case using mac_compute_digest [OF 4(1)] by simp
qed


section \<open>HMAC packets\<close>

definition mac_keyed ::
    "'d md_ops \<Rightarrow> ('d \<Rightarrow> string \<Rightarrow> byte list \<Rightarrow> bool) \<Rightarrow> ssh_digest \<Rightarrow> nat \<Rightarrow> byte list \<Rightarrow> nat \<Rightarrow> ('d, 'u) sshmac \<Rightarrow> bool" where
  "mac_keyed M ab d n kb l mac \<longleftrightarrow> mtype mac = SSH_DIGEST \<and> mac_len mac = l \<and> (\<exists>h. hmac_ctx mac = Some h \<and> hmac_keyed M ab d n kb h)"

lemma mac_digest_hmac:
  assumes "mtype mac = SSH_DIGEST" "hmac_ctx mac = Some c"
  shows "mac_digest M U mac q data =
    or_err SSH_ERR_LIBCRYPTO_ERROR (hmac_message M SSH_DIGEST_MAX_LENGTH [POKE_U32 q, data] c) (\<lambda>(d, h). Inr (d, mac\<lparr>hmac_ctx := Some h\<rparr>))"
  using assms by (simp add: mac_digest_def hmac_message_def)

lemma mac_keyed_digest:
  assumes g: "md_good M H B ab" and k: "mac_keyed M ab d (B (mdfunc d)) (hmac_block (H (mdfunc d)) (B (mdfunc d)) key) l mac"
    and d: "digest_len d \<le> 64"
  shows "\<exists>mac'. mac_digest M U mac q data = Inr (hmac (H (mdfunc d)) (B (mdfunc d)) key (POKE_U32 q @ data), mac') \<and>
    mac_keyed M ab d (B (mdfunc d)) (hmac_block (H (mdfunc d)) (B (mdfunc d)) key) l mac'"
proof -
  obtain h where h: "mtype mac = SSH_DIGEST" "mac_len mac = l" "hmac_ctx mac = Some h"
      "hmac_keyed M ab d (B (mdfunc d)) (hmac_block (H (mdfunc d)) (B (mdfunc d)) key) h"
    using k by (auto simp: mac_keyed_def)
  from hmac_message_good [OF g h(4), of SSH_DIGEST_MAX_LENGTH "[POKE_U32 q, data]"] d h show ?thesis
    by (auto simp: mac_digest_hmac mac_keyed_def SSH_DIGEST_MAX_LENGTH_def)
qed

text \<open>The context after the given packets.\<close>

fun mac_after :: "'d md_ops \<Rightarrow> 'u umac_ops \<Rightarrow> byte list \<Rightarrow> (u32 \<times> byte list) list \<Rightarrow> ('d, 'u) sshmac \<Rightarrow> ('d, 'u) sshmac option" where
  "mac_after M U um [] mac = Some mac"
| "mac_after M U um ((q, data) # ps) mac =
    (case mac_compute M U um mac q data SSH_DIGEST_MAX_LENGTH of Inl e \<Rightarrow> None | Inr (t, mac1) \<Rightarrow> mac_after M U um ps mac1)"

lemma mac_after_keyed:
  assumes g: "md_good M H B ab" and d: "digest_len d \<le> 64" and l: "l \<le> 64"
    and k: "mac_keyed M ab d (B (mdfunc d)) (hmac_block (H (mdfunc d)) (B (mdfunc d)) key) l mac"
  shows "\<exists>mac'. mac_after M U um ps mac = Some mac' \<and>
    mac_keyed M ab d (B (mdfunc d)) (hmac_block (H (mdfunc d)) (B (mdfunc d)) key) l mac'"
  using k
proof (induction ps arbitrary: mac)
  case (Cons p ps)
  obtain q data where p: "p = (q, data)" by fastforce
  obtain mac1 where m: "mac_digest M U mac q data = Inr (hmac (H (mdfunc d)) (B (mdfunc d)) key (POKE_U32 q @ data), mac1)"
      "mac_keyed M ab d (B (mdfunc d)) (hmac_block (H (mdfunc d)) (B (mdfunc d)) key) l mac1"
    using mac_keyed_digest [OF g Cons.prems d] by blast
  have "mac_len mac = l" using Cons.prems by (simp add: mac_keyed_def)
  then show ?case using Cons.IH [OF m(2)] m(1) l p by (simp add: mac_compute_def SSH_DIGEST_MAX_LENGTH_def)
qed simp

lemma mac_table:
  assumes "m \<in> set macs"
  shows "matype m = SSH_DIGEST \<Longrightarrow> truncatebits m \<in> {0, 96}" "matype m = SSH_DIGEST \<Longrightarrow> maalg m \<in> {0, 1, 2, 4}"
  using assms by (auto simp: macs_def mac_entry_def mac_types digest_ids)

lemma digest_lens: "d \<in> set digests \<Longrightarrow> 12 \<le> digest_len d \<and> digest_len d \<le> 64"
  by (auto simp: digests_def)

lemma mac_setup_keyed:
  assumes g: "md_good M H B ab" and al: "\<forall>n. malloc_ok A n" and m: "mac_lookup M nm = Some m" "matype m = SSH_DIGEST"
    and d: "ssh_digest_by_alg M (maalg m) = Some d" and key: "length key = digest_len d"
  shows "\<exists>m1 m2. mac_setup A M (Some mac0) nm = Inr (Some m1) \<and> mac_init M U (m1\<lparr>mkey := Some key\<rparr>) = Inr m2 \<and>
    metm m2 = maetm m \<and> mac_keyed M ab d (B (mdfunc d)) (hmac_block (H (mdfunc d)) (B (mdfunc d)) key)
      (if truncatebits m \<noteq> 0 then 12 else digest_len d) m2"
proof -
  have in_m: "m \<in> set macs" using m(1) by (auto simp: mac_lookup_def find_Some_iff)
  have tr: "truncatebits m \<noteq> 0 \<Longrightarrow> truncatebits m div 8 = 12" using mac_table(1) [OF in_m m(2)] by auto
  obtain c0 c1 where c: "ssh_hmac_start A M (maalg m) = Some c0" "ssh_hmac_init M c0 (Some key) = Some c1"
      "hmac_keyed M ab d (B (mdfunc d)) (hmac_block (H (mdfunc d)) (B (mdfunc d)) key) c1"
    using hmac_init_keyed [OF g al d, of key] by blast
  have b: "ssh_hmac_bytes M (maalg m) = digest_len d" using d by (simp add: ssh_hmac_bytes_def ssh_digest_bytes_def)
  let ?m0 = "mac0\<lparr>mtype := SSH_DIGEST, hmac_ctx := Some c0, mac_len := digest_len d, mkey_len := digest_len d\<rparr>"
  let ?m1 = "(if truncatebits m \<noteq> 0 then ?m0\<lparr>mac_len := 12\<rparr> else ?m0)\<lparr>metm := maetm m\<rparr>"
  have s: "mac_setup A M (Some mac0) nm = Inr (Some ?m1)"
    using m c(1) b tr by (simp add: mac_setup_def mac_setup_by_alg_def Let_def)
  have "mac_init M U (?m1\<lparr>mkey := Some key\<rparr>) = Inr (?m1\<lparr>mkey := Some key, hmac_ctx := Some c1\<rparr>)"
    using c(2) key by (simp add: mac_init_def)
  with s show ?thesis using c(3) by (intro exI [of _ ?m1] exI [of _ "?m1\<lparr>mkey := Some key, hmac_ctx := Some c1\<rparr>"])
    (simp add: mac_keyed_def)
qed

text \<open>
  C40. The check of a packet's HMAC. A MAC of the table that is set up and keyed by \<^verbatim>\<open>mac_setup\<close> and \<^verbatim>\<open>mac_init\<close> keeps
  working whatever packets were processed before: \<^verbatim>\<open>mac_check\<close> accepts a packet exactly when the received code starts with
  the HMAC of its sequence number and its data, cut to the length of the algorithm, and otherwise reports
  \<^verbatim>\<open>SSH_ERR_MAC_INVALID\<close>.
\<close>

theorem mac_check_exact:
  assumes "md_good M H B ab" "\<forall>n. malloc_ok A n" "mac_lookup M nm = Some m" "matype m = SSH_DIGEST"
    and "ssh_digest_by_alg M (maalg m) = Some d" "length key = digest_len d"
  shows "\<exists>m1 m2. mac_setup A M (Some mac0) nm = Inr (Some m1) \<and> mac_init M U (m1\<lparr>mkey := Some key\<rparr>) = Inr m2 \<and>
    mac_len m2 = (if truncatebits m \<noteq> 0 then 12 else digest_len d) \<and>
    (\<forall>ps. \<exists>m3. mac_after M U um ps m2 = Some m3 \<and>
      (\<forall>q data t. if take (mac_len m2) t = take (mac_len m2) (hmac (H (mdfunc d)) (B (mdfunc d)) key (POKE_U32 q @ data))
         then \<exists>m4. mac_check M U um m3 q data t (mac_len m2) = Inr m4
         else mac_check M U um m3 q data t (mac_len m2) = Inl SSH_ERR_MAC_INVALID))"
proof -
  let ?l = "if truncatebits m \<noteq> 0 then 12 else digest_len d"
  have dl: "12 \<le> digest_len d" "digest_len d \<le> 64" using digest_lens by_alg_in [OF assms(5)] by blast+
  then have l: "?l \<le> 64" "?l \<le> digest_len d" by auto
  obtain m1 m2 where s: "mac_setup A M (Some mac0) nm = Inr (Some m1)" "mac_init M U (m1\<lparr>mkey := Some key\<rparr>) = Inr m2"
      and k: "mac_keyed M ab d (B (mdfunc d)) (hmac_block (H (mdfunc d)) (B (mdfunc d)) key) ?l m2"
    using mac_setup_keyed [OF assms, of mac0 U] by blast
  have m2: "mac_len m2 = ?l" using k by (simp add: mac_keyed_def)
  have "\<exists>m3. mac_after M U um ps m2 = Some m3 \<and>
      (\<forall>q data t. if take (mac_len m2) t = take (mac_len m2) (hmac (H (mdfunc d)) (B (mdfunc d)) key (POKE_U32 q @ data))
         then \<exists>m4. mac_check M U um m3 q data t (mac_len m2) = Inr m4
         else mac_check M U um m3 q data t (mac_len m2) = Inl SSH_ERR_MAC_INVALID)" for ps
  proof -
    obtain m3 where m3: "mac_after M U um ps m2 = Some m3"
        "mac_keyed M ab d (B (mdfunc d)) (hmac_block (H (mdfunc d)) (B (mdfunc d)) key) ?l m3"
      using mac_after_keyed [OF assms(1) dl(2) l(1) k] by blast
    have len: "mac_len m3 = ?l" using m3(2) by (simp add: mac_keyed_def)
    have "mac_check M U um m3 q data t ?l = (if take ?l t = take ?l h then Inr m4 else Inl SSH_ERR_MAC_INVALID)"
      if "mac_digest M U m3 q data = Inr (h, m4)" "length h = digest_len d" for q data t h m4
      using that l len by (auto simp: mac_check_def mac_compute_def SSH_DIGEST_MAX_LENGTH_def take_write_at)
    moreover have "length (hmac (H (mdfunc d)) (B (mdfunc d)) key x) = digest_len d" for x
      using md_goodD(8) [OF assms(1)] by_alg_in [OF assms(5)] by (simp add: hmac_def)
    ultimately show ?thesis using m3(1) mac_keyed_digest [OF assms(1) m3(2) dl(2)] unfolding m2 by metis
  qed
  then show ?thesis using s m2 by blast
qed

definition ex_umac :: "unit umac_ops" where
  "ex_umac = \<lparr>umac_new = \<lambda>b k. Some (), umac_update = \<lambda>b u m. (), umac_final = \<lambda>b u n. (replicate (if b then 16 else 8) 0, ())\<rparr>"

definition ex_mac :: "(string \<times> byte list, unit) sshmac" where
  "ex_mac = \<lparr>mname = None, menabled = False, mac_len = 0, mkey = None, mkey_len = 0, mtype = 0, metm = False,
     hmac_ctx = None, umac_ctx = None\<rparr>"

theorem mac_check_exact_witness:
  "\<exists>m1 m2. mac_setup \<lparr>malloc_ok = \<lambda>n. True, pagesize = 4096\<rparr> ex_md (Some ex_mac) ''hmac-sha1-96'' = Inr (Some m1) \<and>
    mac_init ex_md ex_umac (m1\<lparr>mkey := Some (replicate 20 1)\<rparr>) = Inr m2 \<and> mac_len m2 = 12"
proof -
  have l: "mac_lookup ex_md ''hmac-sha1-96'' = Some (mac_entry ''hmac-sha1-96'' SSH_DIGEST SSH_DIGEST_SHA1 96 0 0 False)"
    by (simp add: mac_lookup_def macs_def mac_entry_def macalg_allowed_def ex_md_def)
  have d: "ssh_digest_by_alg ex_md SSH_DIGEST_SHA1 = Some \<lparr>did = SSH_DIGEST_SHA1, dname = ''SHA1'', digest_len = 20, mdfunc = ''EVP_sha1''\<rparr>"
    by (simp add: ssh_digest_by_alg_def ex_md_def digests_def digest_ids)
  show ?thesis
    using mac_check_exact [OF ex_md_good _ l, of "\<lparr>malloc_ok = \<lambda>n. True, pagesize = 4096\<rparr>"
        "\<lparr>did = SSH_DIGEST_SHA1, dname = ''SHA1'', digest_len = 20, mdfunc = ''EVP_sha1''\<rparr>" "replicate 20 1" ex_mac ex_umac "replicate 64 0"] d
    by (simp add: mac_entry_def) blast
qed


end
