(* ===== verification/Packet.thy ===== *)
theory Packet
  imports Mac Sshbuf_Getput
begin

text \<open>
  The packet protocol (\<^verbatim>\<open>packet.c\<close>): building, padding, authenticating and encrypting outgoing packets, taking them
  apart again on the other side, switching to new keys, and the queue of packets during a key exchange. \<^verbatim>\<open>struct ssh\<close>,
  its \<^verbatim>\<open>session_state\<close> and the parts of its \<^verbatim>\<open>kex\<close> that the packet layer uses are one record. The loops around
  \<^verbatim>\<open>deflate\<close> and \<^verbatim>\<open>inflate\<close>, the loop of \<^verbatim>\<open>ssh_packet_write_wait\<close> around \<^verbatim>\<open>select\<close> and \<^verbatim>\<open>write\<close>, the random
  bytes and the clock are fields of the argument \<open>pkt_env\<close>.
\<close>

unbundle bit_operations_syntax

section \<open>State\<close>

type_synonym u64 = "64 word"

definition PACKET_MAX_SIZE :: nat where "PACKET_MAX_SIZE = 256 * 1024"

definition SSH_MSG_NONE :: byte where "SSH_MSG_NONE = 0"
definition SSH2_MSG_TRANSPORT_MIN :: byte where "SSH2_MSG_TRANSPORT_MIN = 1"
definition SSH2_MSG_TRANSPORT_MAX :: byte where "SSH2_MSG_TRANSPORT_MAX = 49"
definition SSH2_MSG_CONNECTION_MIN :: byte where "SSH2_MSG_CONNECTION_MIN = 80"
definition SSH2_MSG_CONNECTION_MAX :: byte where "SSH2_MSG_CONNECTION_MAX = 127"
definition SSH2_MSG_MIN :: byte where "SSH2_MSG_MIN = 1"
definition SSH2_MSG_LOCAL_MIN :: byte where "SSH2_MSG_LOCAL_MIN = 192"
definition SSH2_MSG_DISCONNECT :: byte where "SSH2_MSG_DISCONNECT = 1"
definition SSH2_MSG_IGNORE :: byte where "SSH2_MSG_IGNORE = 2"
definition SSH2_MSG_UNIMPLEMENTED :: byte where "SSH2_MSG_UNIMPLEMENTED = 3"
definition SSH2_MSG_DEBUG :: byte where "SSH2_MSG_DEBUG = 4"
definition SSH2_MSG_SERVICE_REQUEST :: byte where "SSH2_MSG_SERVICE_REQUEST = 5"
definition SSH2_MSG_SERVICE_ACCEPT :: byte where "SSH2_MSG_SERVICE_ACCEPT = 6"
definition SSH2_MSG_EXT_INFO :: byte where "SSH2_MSG_EXT_INFO = 7"
definition SSH2_MSG_KEXINIT :: byte where "SSH2_MSG_KEXINIT = 20"
definition SSH2_MSG_NEWKEYS :: byte where "SSH2_MSG_NEWKEYS = 21"
definition SSH2_MSG_USERAUTH_SUCCESS :: byte where "SSH2_MSG_USERAUTH_SUCCESS = 52"
definition SSH2_DISCONNECT_PROTOCOL_ERROR :: u32 where "SSH2_DISCONNECT_PROTOCOL_ERROR = 2"

lemmas msg_types = SSH_MSG_NONE_def SSH2_MSG_TRANSPORT_MIN_def SSH2_MSG_TRANSPORT_MAX_def SSH2_MSG_CONNECTION_MIN_def
  SSH2_MSG_CONNECTION_MAX_def SSH2_MSG_MIN_def SSH2_MSG_LOCAL_MIN_def SSH2_MSG_DISCONNECT_def SSH2_MSG_IGNORE_def
  SSH2_MSG_UNIMPLEMENTED_def SSH2_MSG_DEBUG_def SSH2_MSG_SERVICE_REQUEST_def SSH2_MSG_SERVICE_ACCEPT_def
  SSH2_MSG_EXT_INFO_def SSH2_MSG_KEXINIT_def SSH2_MSG_NEWKEYS_def SSH2_MSG_USERAUTH_SUCCESS_def

definition COMP_NONE :: nat where "COMP_NONE = 0"
definition COMP_ZLIB :: nat where "COMP_ZLIB = 1"
definition COMP_DELAYED :: nat where "COMP_DELAYED = 2"

record packet_state =
  seqnr :: u32
  packets :: u32
  blocks_done :: u64
  bytes_done :: u64

record sshenc =
  ename :: string
  ecipher :: sshcipher
  eenabled :: bool
  ekey_len :: nat
  eiv_len :: nat
  eblock_size :: nat
  ekey :: "byte list"
  eiv :: "byte list"

record sshcomp =
  comp_type :: nat
  comp_enabled :: bool
  comp_name :: string

record ('d, 'u) newkeys =
  nenc :: sshenc
  nmac :: "('d, 'u) sshmac"
  ncomp :: sshcomp

text \<open>\<open>z_compress\<close> and \<open>z_uncompress\<close> are the loops that feed a whole packet to zlib; a started stream is \<open>Some\<close>.\<close>

record 'z zlib_ops =
  z_deflate_init :: "'z res"
  z_inflate_init :: "'z res"
  z_compress :: "'z \<Rightarrow> byte list \<Rightarrow> (byte list \<times> 'z) res"
  z_uncompress :: "'z \<Rightarrow> byte list \<Rightarrow> (byte list \<times> 'z) res"

record ('e, 'd, 'u, 'z) pkt_env =
  env_alloc :: allocator
  env_evp :: "'e evp_ops"
  env_md :: "'d md_ops"
  env_umac :: "'u umac_ops"
  env_zlib :: "'z zlib_ops"
  env_junk :: "byte list"
  env_um :: "byte list"
  env_random :: "u32 \<Rightarrow> nat \<Rightarrow> byte list"
  env_cookie :: "byte list"
  env_now :: int
  env_write_wait :: "sshbuf \<Rightarrow> unit res \<times> sshbuf"

text \<open>\<open>packet_discard_mac\<close> points to the MAC of the incoming keys or is NULL. A queued packet is its type and its buffer.
  The contexts of the ciphers are NULL only before \<^verbatim>\<open>ssh_packet_set_connection\<close>, which starts the cipher
  \<^verbatim>\<open>none\<close> in both directions, and after a failed change of keys; using one then is \<open>SSH_ERR_INTERNAL_ERROR\<close>.\<close>

record ('e, 'd, 'u, 'z) session_state =
  receive_context :: "'e sshcipher_ctx option"
  send_context :: "'e sshcipher_ctx option"
  pinput :: sshbuf
  poutput :: sshbuf
  outgoing_packet :: sshbuf
  incoming_packet :: sshbuf
  compression_buffer :: "sshbuf option"
  compression_in :: "'z option"
  compression_out :: "'z option"
  server_side :: bool
  after_authentication :: bool
  newkeys_in :: "('d, 'u) newkeys option"
  newkeys_out :: "('d, 'u) newkeys option"
  p_read :: packet_state
  p_send :: packet_state
  max_blocks_in :: u64
  max_blocks_out :: u64
  rekey_limit :: u64
  rekey_interval :: u32
  rekey_time :: int
  extra_pad :: byte
  packet_discard :: u32
  packet_discard_mac :: bool
  packet_discard_mac_already :: nat
  packlen :: u32
  rekeying :: bool
  pmux :: bool
  outgoing :: "(byte \<times> sshbuf) list"
  kex_newkeys_in :: "('d, 'u) newkeys option"
  kex_newkeys_out :: "('d, 'u) newkeys option"
  kex_done :: bool
  kex_init_sent :: bool
  kex_my :: sshbuf
  norekey :: bool
  keep_alive_timeouts :: nat
  interactive_mode :: bool
  set_maxsize_called :: bool
  max_packet_size :: u32

text \<open>Going on after a step that did not fail.\<close>

definition seq_ok :: "'a res \<times> 's \<Rightarrow> ('a \<Rightarrow> 's \<Rightarrow> 'b res \<times> 's) \<Rightarrow> 'b res \<times> 's" where
  "seq_ok x k = (case x of (Inl e, s) \<Rightarrow> (Inl e, s) | (Inr a, s) \<Rightarrow> k a s)"

lemma seq_ok_simps [simp]: "seq_ok (Inl e, s) k = (Inl e, s)" "seq_ok (Inr a, s) k = k a s"
  by (simp_all add: seq_ok_def)

lemma seq_ok_Inr: "seq_ok x k = (Inr b, s') \<longleftrightarrow> (\<exists>a s. x = (Inr a, s) \<and> k a s = (Inr b, s'))"
  by (cases x) (auto simp: seq_ok_def split: sum.splits)

definition fail :: "ssh_err \<Rightarrow> 's \<Rightarrow> 'a res \<times> 's" where
  "fail e s = (Inl e, s)"

text \<open>An operation on one of the buffers of the state.\<close>

definition on_outgoing where
  "on_outgoing f s = (case f (outgoing_packet s) of (r, b) \<Rightarrow> (r, s\<lparr>outgoing_packet := b\<rparr>))"

definition on_incoming where
  "on_incoming f s = (case f (incoming_packet s) of (r, b) \<Rightarrow> (r, s\<lparr>incoming_packet := b\<rparr>))"

definition on_input where
  "on_input f s = (case f (pinput s) of (r, b) \<Rightarrow> (r, s\<lparr>pinput := b\<rparr>))"

definition on_output where
  "on_output f s = (case f (poutput s) of (r, b) \<Rightarrow> (r, s\<lparr>poutput := b\<rparr>))"

text \<open>The parameters of a direction that both ends compute from its keys: the tag length of the cipher, the MAC unless
  the cipher has a tag, whether it is applied to the ciphertext, the block size and the length of what is not encrypted
  with the payload.\<close>

definition keys_auth :: "('d, 'u) newkeys option \<Rightarrow> nat" where
  "keys_auth nk = (case nk of None \<Rightarrow> 0 | Some k \<Rightarrow> cipher_authlen (ecipher (nenc k)))"

definition keys_mac :: "('d, 'u) newkeys option \<Rightarrow> ('d, 'u) sshmac option" where
  "keys_mac nk = (case nk of None \<Rightarrow> None | Some k \<Rightarrow> if keys_auth nk = 0 \<and> menabled (nmac k) then Some (nmac k) else None)"

definition keys_etm :: "('d, 'u) newkeys option \<Rightarrow> bool" where
  "keys_etm nk \<longleftrightarrow> (case keys_mac nk of None \<Rightarrow> False | Some m \<Rightarrow> metm m)"

definition keys_block :: "('d, 'u) newkeys option \<Rightarrow> nat" where
  "keys_block nk = (case nk of None \<Rightarrow> 8 | Some k \<Rightarrow> eblock_size (nenc k))"

definition keys_aad :: "('d, 'u) newkeys option \<Rightarrow> nat" where
  "keys_aad nk = (if keys_etm nk \<or> keys_auth nk \<noteq> 0 then 4 else 0)"

definition keys_comp :: "('d, 'u) newkeys option \<Rightarrow> bool" where
  "keys_comp nk \<longleftrightarrow> (case nk of None \<Rightarrow> False | Some k \<Rightarrow> comp_enabled (ncomp k))"

definition set_mac :: "('d, 'u) sshmac \<Rightarrow> ('d, 'u) newkeys option \<Rightarrow> ('d, 'u) newkeys option" where
  "set_mac m nk = map_option (\<lambda>k. k\<lparr>nmac := m\<rparr>) nk"

section \<open>Compression and new keys\<close>

definition ssh_packet_init_compression where
  "ssh_packet_init_compression V s =
    (case compression_buffer s of Some b \<Rightarrow> (Inr (), s)
     | None \<Rightarrow> (case sshbuf_new (env_alloc V) True of None \<Rightarrow> fail SSH_ERR_ALLOC_FAIL s
         | Some b \<Rightarrow> (Inr (), s\<lparr>compression_buffer := Some b\<rparr>)))"

definition start_compression_out where
  "start_compression_out V level s =
    (if level < (1 :: nat) \<or> level > 9 then fail SSH_ERR_INVALID_ARGUMENT s
     else (case z_deflate_init (env_zlib V) of Inl e \<Rightarrow> fail e s | Inr z \<Rightarrow> (Inr (), s\<lparr>compression_out := Some z\<rparr>)))"

definition start_compression_in where
  "start_compression_in V s =
    (case z_inflate_init (env_zlib V) of Inl e \<Rightarrow> fail e s | Inr z \<Rightarrow> (Inr (), s\<lparr>compression_in := Some z\<rparr>))"

text \<open>The compression buffer is filled from what is left of the packet and then takes its place after a fresh header.\<close>

definition compress_outgoing where
  "compress_outgoing V s =
    (if \<not> keys_comp (newkeys_out s) then (Inr (), s)
     else seq_ok (on_outgoing (\<lambda>b. sshbuf_consume b 5) s) (\<lambda>_ s.
       case (compression_buffer s, compression_out s) of (Some cb, Some z) \<Rightarrow>
         let data = contents (outgoing_packet s); cb1 = sshbuf_reset (env_alloc V) cb in
         (case (if data = [] then Inr ([], z) else z_compress (env_zlib V) z data) of
            Inl e \<Rightarrow> fail e (s\<lparr>compression_buffer := Some cb1\<rparr>)
          | Inr (zd, z1) \<Rightarrow>
              (case sshbuf_put (env_alloc V) cb1 zd of
                 (Inl e, cb2) \<Rightarrow> fail e (s\<lparr>compression_buffer := Some cb2, compression_out := Some z1\<rparr>)
               | (Inr _, cb2) \<Rightarrow>
                   let s1 = s\<lparr>compression_buffer := Some cb2, compression_out := Some z1,
                              outgoing_packet := sshbuf_reset (env_alloc V) (outgoing_packet s)\<rparr>
                   in seq_ok (on_outgoing (\<lambda>b. sshbuf_put (env_alloc V) b [0, 0, 0, 0, 0]) s1) (\<lambda>_.
                        on_outgoing (\<lambda>b. sshbuf_putb (env_alloc V) b (Some cb2)))))
       | _ \<Rightarrow> fail SSH_ERR_INTERNAL_ERROR s))"

text \<open>The compression that new keys start, in the direction \<open>out\<close>.\<close>

definition newkeys_compression where
  "newkeys_compression V out s =
    seq_ok (ssh_packet_init_compression V s) (\<lambda>_ s. if out then start_compression_out V 6 s else start_compression_in V s)"

definition max_blocks_for :: "nat \<Rightarrow> u64 \<Rightarrow> u64" where
  "max_blocks_for bs limit =
    (let m = (if bs \<ge> 16 then push_bit (bs * 2) 1 else push_bit 30 1 div of_nat bs)
     in if limit \<noteq> 0 then min m (limit div of_nat bs) else m)"

definition with_compression :: "('d, 'u) newkeys \<Rightarrow> ('d, 'u) newkeys" where
  "with_compression k = k\<lparr>ncomp := (ncomp k)\<lparr>comp_enabled := True\<rparr>\<rparr>"

text \<open>The keys of one direction of the session and of the key exchange.\<close>

definition set_keys where
  "set_keys out nk s = (if out then s\<lparr>newkeys_out := nk\<rparr> else s\<lparr>newkeys_in := nk\<rparr>)"

definition get_keys where
  "get_keys out s = (if out then newkeys_out s else newkeys_in s)"

definition take_kex_keys where
  "take_kex_keys out s = (if out
     then s\<lparr>newkeys_out := kex_newkeys_out s, kex_newkeys_out := None, p_send := (p_send s)\<lparr>packets := 0, blocks_done := 0\<rparr>\<rparr>
     else s\<lparr>newkeys_in := kex_newkeys_in s, kex_newkeys_in := None, p_read := (p_read s)\<lparr>packets := 0, blocks_done := 0\<rparr>\<rparr>)"

definition ssh_set_newkeys where
  "ssh_set_newkeys V out s =
    (let s1 = take_kex_keys out s in
     case get_keys out s1 of None \<Rightarrow> fail SSH_ERR_INTERNAL_ERROR s1
     | Some k \<Rightarrow>
         let enc = nenc k in
         (case (if cipher_authlen (ecipher enc) = 0 then mac_init (env_md V) (env_umac V) (nmac k) else Inr (nmac k)) of
            Inl e \<Rightarrow> fail e s1
          | Inr m \<Rightarrow>
              let k1 = k\<lparr>nmac := m\<lparr>menabled := True\<rparr>\<rparr>;
                  s2 = set_keys out (Some k1) s1
              in (case cipher_init (env_alloc V) (env_evp V) (ecipher enc) (take (ekey_len enc) (ekey enc))
                         (Some (take (eiv_len enc) (eiv enc))) out of
                    Inl e \<Rightarrow> fail e (if out then s2\<lparr>send_context := None\<rparr> else s2\<lparr>receive_context := None\<rparr>)
                  | Inr cc \<Rightarrow>
                      let s3 = (if out then s2\<lparr>send_context := Some cc\<rparr> else s2\<lparr>receive_context := Some cc\<rparr>);
                          c = ncomp k1
                      in seq_ok (if (comp_type c = COMP_ZLIB \<or> comp_type c = COMP_DELAYED \<and> after_authentication s) \<and> \<not> comp_enabled c
                                 then seq_ok (newkeys_compression V out s3) (\<lambda>_ s. (Inr (), set_keys out (Some (with_compression k1)) s))
                                 else (Inr (), s3)) (\<lambda>_ s4.
                           let mb = max_blocks_for (eblock_size enc) (rekey_limit s4)
                           in (Inr (), if out then s4\<lparr>max_blocks_out := mb\<rparr> else s4\<lparr>max_blocks_in := mb\<rparr>)))))"

definition delay_compress where
  "delay_compress V out s =
    (case get_keys out s of None \<Rightarrow> (Inr (), s)
     | Some k \<Rightarrow>
         if \<not> comp_enabled (ncomp k) \<and> comp_type (ncomp k) = COMP_DELAYED
         then seq_ok (newkeys_compression V out s) (\<lambda>_ s. (Inr (), set_keys out (Some (with_compression k)) s))
         else (Inr (), s))"

definition ssh_packet_enable_delayed_compress where
  "ssh_packet_enable_delayed_compress V s =
    seq_ok (delay_compress V False (s\<lparr>after_authentication := True\<rparr>)) (\<lambda>_. delay_compress V True)"

section \<open>When to exchange keys\<close>

definition MAX_PACKETS :: u32 where "MAX_PACKETS = push_bit 31 1"

definition ssh_packet_is_rekeying where
  "ssh_packet_is_rekeying s \<longleftrightarrow> rekeying s \<or> \<not> kex_done s"

definition ssh_packet_need_rekeying where
  "ssh_packet_need_rekeying V outlen s \<longleftrightarrow>
    after_authentication s \<and> \<not> ssh_packet_is_rekeying s \<and> \<not> norekey s \<and>
    \<not> (packets (p_send s) = 0 \<and> packets (p_read s) = 0) \<and>
    (rekey_interval s \<noteq> 0 \<and> rekey_time s + int (unat (rekey_interval s)) \<le> env_now V \<or>
     packets (p_send s) > MAX_PACKETS \<or> packets (p_read s) > MAX_PACKETS \<or>
     (let out_blocks = (of_nat (ROUNDUP outlen (keys_block (newkeys_out s))) :: u32)
      in max_blocks_out s \<noteq> 0 \<and> blocks_done (p_send s) + ucast out_blocks > max_blocks_out s \<or>
         max_blocks_in s \<noteq> 0 \<and> blocks_done (p_read s) > max_blocks_in s))"


section \<open>Sending\<close>

text \<open>The number of padding bytes, in \<^verbatim>\<open>u_char\<close> arithmetic, and the new value of \<^verbatim>\<open>extra_pad\<close>. \<open>len\<close> is the length of what
  is encrypted with the payload.\<close>

definition base_pad :: "nat \<Rightarrow> nat \<Rightarrow> byte" where
  "base_pad bs len = (let p = of_nat (bs - len mod bs) in if p < 4 then p + of_nat bs else p)"

definition pad_length :: "nat \<Rightarrow> nat \<Rightarrow> byte \<Rightarrow> byte res \<times> byte" where
  "pad_length bs len extra =
    (let p = base_pad bs len in
     if extra = 0 then (Inr p, 0)
     else let e = of_nat ((unat extra + (bs - 1)) div bs * bs) in
       if e < extra then (Inl SSH_ERR_INVALID_ARGUMENT, e)
       else let t = (of_nat ((len + unat p) mod unat e) :: byte) in
         if t > e then (Inl SSH_ERR_INVALID_ARGUMENT, e)
         else let p1 = p + (e - t) in
           if p1 < p then (Inl SSH_ERR_INVALID_ARGUMENT, e) else (Inr p1, 0))"

definition pad_outgoing where
  "pad_outgoing V s =
    (case pad_length (keys_block (newkeys_out s)) (sshbuf_len (outgoing_packet s) - keys_aad (newkeys_out s)) (extra_pad s) of
       (Inl e, x) \<Rightarrow> fail e (s\<lparr>extra_pad := x\<rparr>)
     | (Inr padlen, x) \<Rightarrow>
         let n = unat padlen;
             pad = (if newkeys_out s \<noteq> None \<and> (case send_context s of None \<Rightarrow> False | Some cc \<Rightarrow> \<not> cipher_ctx_is_plaintext cc)
                    then env_random V (seqnr (p_send s)) n else replicate n 0)
         in seq_ok (on_outgoing (\<lambda>b. case sshbuf_reserve (env_alloc V) b n of (Inl e, b1) \<Rightarrow> (Inl e, b1)
                                    | (Inr p, b1) \<Rightarrow> (Inr (), sshbuf_write b1 p pad)) (s\<lparr>extra_pad := x\<rparr>)) (\<lambda>_ s.
              case sshbuf_mutable_ptr (outgoing_packet s) of None \<Rightarrow> fail SSH_ERR_INTERNAL_ERROR s
              | Some cp \<Rightarrow>
                  (Inr (), s\<lparr>outgoing_packet := sshbuf_write (outgoing_packet s) cp
                      (POKE_U32 (of_nat (sshbuf_len (outgoing_packet s) - 4)) @ [padlen])\<rparr>)))"

text \<open>The MAC over the plaintext comes before the encryption, the one over the ciphertext after it.\<close>

definition crypt_outgoing where
  "crypt_outgoing V s =
    (let nk = newkeys_out s; plain = contents (outgoing_packet s); len = length plain;
         q = seqnr (p_send s); mac = keys_mac nk
     in case (case mac of Some m \<Rightarrow> if metm m then Inr ([], nk)
                 else (case mac_compute (env_md V) (env_umac V) (env_um V) m q plain SSH_DIGEST_MAX_LENGTH of
                         Inl e \<Rightarrow> Inl e | Inr (t, m1) \<Rightarrow> Inr (t, set_mac m1 nk))
               | None \<Rightarrow> Inr ([], nk)) of
          Inl e \<Rightarrow> fail e s
        | Inr (tag, nk1) \<Rightarrow>
            let s1 = s\<lparr>newkeys_out := nk1\<rparr> in
            (case sshbuf_reserve (env_alloc V) (poutput s) (len + keys_auth nk) of
               (Inl e, b) \<Rightarrow> fail e (s1\<lparr>poutput := b\<rparr>)
             | (Inr p, b) \<Rightarrow>
                 (case (case send_context s of None \<Rightarrow> Inl SSH_ERR_INTERNAL_ERROR
                        | Some cc \<Rightarrow> cipher_crypt (env_evp V) (env_junk V) cc q plain (len - keys_aad nk) (keys_aad nk) (keys_auth nk)) of
                    Inl e \<Rightarrow> fail e (s1\<lparr>poutput := b\<rparr>)
                  | Inr (dest, cc1) \<Rightarrow>
                      let s2 = s1\<lparr>send_context := Some cc1, poutput := sshbuf_write b p dest\<rparr> in
                      (case mac of None \<Rightarrow> (Inr (), s2)
                       | Some m \<Rightarrow>
                           (case (if metm m then
                                    (case mac_compute (env_md V) (env_umac V) (env_um V) m q (take len dest) SSH_DIGEST_MAX_LENGTH of
                                       Inl e \<Rightarrow> Inl e | Inr (t, m1) \<Rightarrow> Inr (t, set_mac m1 nk))
                                  else Inr (tag, nk1)) of
                              Inl e \<Rightarrow> fail e s2
                            | Inr (tag, nk2) \<Rightarrow>
                                on_output (\<lambda>b. sshbuf_put (env_alloc V) b (take (mac_len m) tag)) (s2\<lparr>newkeys_out := nk2\<rparr>))))))"

definition count_outgoing where
  "count_outgoing V s =
    (let len = length (contents (outgoing_packet s));
         ps = (p_send s)\<lparr>seqnr := seqnr (p_send s) + 1, packets := packets (p_send s) + 1\<rparr>
     in if packets ps = 0 \<and> \<not> norekey s then fail SSH_ERR_NEED_REKEY (s\<lparr>p_send := ps\<rparr>)
        else (Inr (), s\<lparr>p_send := ps\<lparr>blocks_done := blocks_done ps + of_nat (len div keys_block (newkeys_out s)),
                                    bytes_done := bytes_done ps + of_nat len\<rparr>,
                        outgoing_packet := sshbuf_reset (env_alloc V) (outgoing_packet s)\<rparr>))"

definition ssh_packet_send2_wrapped where
  "ssh_packet_send2_wrapped V s =
    (let typ = contents (outgoing_packet s) ! 5 in
     seq_ok (compress_outgoing V s) (\<lambda>_ s.
     seq_ok (pad_outgoing V s) (\<lambda>_ s.
     seq_ok (crypt_outgoing V s) (\<lambda>_ s.
     seq_ok (count_outgoing V s) (\<lambda>_ s.
       if typ = SSH2_MSG_NEWKEYS then ssh_set_newkeys V True s
       else if typ = SSH2_MSG_USERAUTH_SUCCESS \<and> server_side s then ssh_packet_enable_delayed_compress V s
       else (Inr (), s))))))"

definition ssh_packet_type_is_kex :: "byte \<Rightarrow> bool" where
  "ssh_packet_type_is_kex t \<longleftrightarrow> t \<ge> SSH2_MSG_TRANSPORT_MIN \<and> t \<le> SSH2_MSG_TRANSPORT_MAX \<and>
     t \<noteq> SSH2_MSG_SERVICE_REQUEST \<and> t \<noteq> SSH2_MSG_SERVICE_ACCEPT \<and> t \<noteq> SSH2_MSG_EXT_INFO"

definition sshpkt_start where
  "sshpkt_start V typ s =
    on_outgoing (\<lambda>b. sshbuf_put (env_alloc V) (sshbuf_reset (env_alloc V) b) [0, 0, 0, 0, 0, typ]) s"

definition ssh_packet_send_mux where
  "ssh_packet_send_mux V s =
    (let b = outgoing_packet s; len = sshbuf_len b in
     if len < 6 then fail SSH_ERR_INTERNAL_ERROR s
     else let t = contents b ! 5 in
       if SSH2_MSG_CONNECTION_MIN \<le> t \<and> t \<le> SSH2_MSG_CONNECTION_MAX then
         let b1 = sshbuf_write b (off b) (POKE_U32 (of_nat (len - 4)))
         in seq_ok (on_output (\<lambda>ob. sshbuf_putb (env_alloc V) ob (Some b1)) (s\<lparr>outgoing_packet := b1\<rparr>))
              (\<lambda>_ s. (Inr (), s\<lparr>outgoing_packet := sshbuf_reset (env_alloc V) (outgoing_packet s)\<rparr>))
       else (Inr (), s\<lparr>outgoing_packet := sshbuf_reset (env_alloc V) b\<rparr>))"

text \<open>Sending a KEXINIT never queues and never sends the queue: the part of \<^verbatim>\<open>ssh_packet_send2\<close> that
  \<^verbatim>\<open>kex_send_kexinit\<close> reaches.\<close>

definition send2_kexinit where
  "send2_kexinit V s =
    (if sshbuf_len (outgoing_packet s) < 6 then fail SSH_ERR_INTERNAL_ERROR s
     else ssh_packet_send2_wrapped V (s\<lparr>rekeying := True\<rparr>))"

definition KEX_COOKIE_LEN :: nat where "KEX_COOKIE_LEN = 16"

definition kex_send_kexinit where
  "kex_send_kexinit V s =
    (if kex_init_sent s then (Inr (), s)
     else let s1 = s\<lparr>kex_done := False\<rparr> in
       if sshbuf_len (kex_my s1) < KEX_COOKIE_LEN then fail SSH_ERR_INVALID_FORMAT s1
       else (case sshbuf_mutable_ptr (kex_my s1) of None \<Rightarrow> fail SSH_ERR_INTERNAL_ERROR s1
         | Some p \<Rightarrow>
             let s2 = s1\<lparr>kex_my := sshbuf_write (kex_my s1) p (env_cookie V)\<rparr> in
             seq_ok (sshpkt_start V SSH2_MSG_KEXINIT s2) (\<lambda>_ s.
             seq_ok (on_outgoing (\<lambda>b. sshbuf_putb (env_alloc V) b (Some (kex_my s))) s) (\<lambda>_ s.
             seq_ok (if pmux s then ssh_packet_send_mux V s else send2_kexinit V s) (\<lambda>_ s.
               (Inr (), s\<lparr>kex_init_sent := True\<rparr>))))))"

definition kex_start_rekex where
  "kex_start_rekex V s =
    (if \<not> kex_done s then fail SSH_ERR_INTERNAL_ERROR s else kex_send_kexinit V (s\<lparr>kex_done := False\<rparr>))"

text \<open>After NEWKEYS the queue is sent, unless one of its packets makes a new exchange due. Sending a packet leaves the rest
  of the queue alone (\<open>send2_wrapped_queue\<close> of \<open>Packet_Loop\<close>), so setting it again changes nothing.\<close>

function send_queue where
  "send_queue V s =
    (case outgoing s of [] \<Rightarrow> (Inr (), s)
     | (t, b) # q \<Rightarrow>
         if ssh_packet_need_rekeying V (sshbuf_len b) s then kex_start_rekex V s
         else (case ssh_packet_send2_wrapped V (s\<lparr>outgoing_packet := b, outgoing := q\<rparr>) of
                 (Inl e, s1) \<Rightarrow> (Inl e, s1)
               | (Inr _, s1) \<Rightarrow> send_queue V (s1\<lparr>outgoing := q\<rparr>)))"
  by pat_completeness auto
termination
  by (relation "measure (\<lambda>(V, s). length (outgoing s))") simp_all

declare send_queue.simps [simp del]

definition ssh_packet_send2 where
  "ssh_packet_send2 V s =
    (if sshbuf_len (outgoing_packet s) < 6 then fail SSH_ERR_INTERNAL_ERROR s
     else let t = contents (outgoing_packet s) ! 5;
              kex = ssh_packet_type_is_kex t;
              need = \<not> kex \<and> ssh_packet_need_rekeying V (sshbuf_len (outgoing_packet s)) s
       in if (need \<or> rekeying s) \<and> \<not> kex then
            if \<not> malloc_ok (env_alloc V) 32 then fail SSH_ERR_ALLOC_FAIL s
            else let s1 = s\<lparr>outgoing := outgoing s @ [(t, outgoing_packet s)]\<rparr>
              in (case sshbuf_new (env_alloc V) True of None \<Rightarrow> fail SSH_ERR_ALLOC_FAIL s1
                  | Some nb \<Rightarrow> let s2 = s1\<lparr>outgoing_packet := nb\<rparr> in if need then kex_start_rekex V s2 else (Inr (), s2))
          else seq_ok (ssh_packet_send2_wrapped V (if t = SSH2_MSG_KEXINIT then s\<lparr>rekeying := True\<rparr> else s)) (\<lambda>_ s.
            if t = SSH2_MSG_NEWKEYS then send_queue V (s\<lparr>rekeying := False, rekey_time := env_now V\<rparr>) else (Inr (), s)))"

definition sshpkt_send where
  "sshpkt_send V s = (if pmux s then ssh_packet_send_mux V s else ssh_packet_send2 V s)"

definition sshpkt_disconnect where
  "sshpkt_disconnect V msg s =
    seq_ok (sshpkt_start V SSH2_MSG_DISCONNECT s) (\<lambda>_ s.
    seq_ok (on_outgoing (\<lambda>b. sshbuf_put_u32 (env_alloc V) b SSH2_DISCONNECT_PROTOCOL_ERROR) s) (\<lambda>_ s.
    seq_ok (on_outgoing (\<lambda>b. sshbuf_put_cstring (env_alloc V) b (Some msg)) s) (\<lambda>_ s.
    seq_ok (on_outgoing (\<lambda>b. sshbuf_put_cstring (env_alloc V) b (Some [])) s) (\<lambda>_. sshpkt_send V))))"

definition sshpkt_add_padding where
  "sshpkt_add_padding pad s = s\<lparr>extra_pad := pad\<rparr>"


section \<open>Receiving\<close>

text \<open>The MAC pointer of the receiving code: not NULL even when it is not enabled.\<close>

definition keys_rawmac :: "('d, 'u) newkeys option \<Rightarrow> ('d, 'u) sshmac option" where
  "keys_rawmac nk = (case nk of None \<Rightarrow> None | Some k \<Rightarrow> if keys_auth nk = 0 then Some (nmac k) else None)"

fun discard_fill :: "allocator \<Rightarrow> nat \<Rightarrow> sshbuf \<Rightarrow> unit res \<times> sshbuf" where
  "discard_fill A 0 b = (Inr (), b)"
| "discard_fill A (Suc n) b =
    (case sshbuf_put A b (replicate 1024 97) of (Inl e, b1) \<Rightarrow> (Inl e, b1) | (Inr _, b1) \<Rightarrow> discard_fill A n b1)"

definition ssh_packet_stop_discard where
  "ssh_packet_stop_discard V s =
    (if packet_discard_mac s then
       let dlen = (if PACKET_MAX_SIZE > packet_discard_mac_already s then PACKET_MAX_SIZE - packet_discard_mac_already s
                   else PACKET_MAX_SIZE);
           n = (dlen - sshbuf_len (incoming_packet s) + 1023) div 1024
       in seq_ok (on_incoming (discard_fill (env_alloc V) n) s) (\<lambda>_ s.
            case newkeys_in s of None \<Rightarrow> fail SSH_ERR_MAC_INVALID s
            | Some k \<Rightarrow>
                (case mac_compute (env_md V) (env_umac V) (env_um V) (nmac k) (seqnr (p_read s))
                        (take dlen (contents (incoming_packet s))) 0 of
                   Inl e \<Rightarrow> fail SSH_ERR_MAC_INVALID s
                 | Inr (_, m) \<Rightarrow> fail SSH_ERR_MAC_INVALID (s\<lparr>newkeys_in := set_mac m (newkeys_in s)\<rparr>)))
     else fail SSH_ERR_MAC_INVALID s)"

definition packet_corrupt :: "byte list" where
  "packet_corrupt = [80, 97, 99, 107, 101, 116, 32, 99, 111, 114, 114, 117, 112, 116]"

definition ssh_packet_start_discard where
  "ssh_packet_start_discard V mac_already discard s =
    (let nk = newkeys_in s; mac = keys_rawmac nk in
     if (case nk of None \<Rightarrow> True | Some k \<Rightarrow> \<not> cipher_is_cbc (ecipher (nenc k))) \<or>
        (case mac of None \<Rightarrow> False | Some m \<Rightarrow> metm m)
     then seq_ok (sshpkt_disconnect V packet_corrupt s) (\<lambda>_ s. fail SSH_ERR_MAC_INVALID s)
     else let s1 = (case mac of None \<Rightarrow> s
                    | Some m \<Rightarrow> if menabled m then s\<lparr>packet_discard_mac := True, packet_discard_mac_already := mac_already\<rparr> else s)
       in if sshbuf_len (pinput s1) \<ge> discard then ssh_packet_stop_discard V s1
          else (Inr SSH_MSG_NONE, s1\<lparr>packet_discard := of_nat (discard - sshbuf_len (pinput s1))\<rparr>))"

definition bad_packlen :: "u32 \<Rightarrow> bool" where
  "bad_packlen n \<longleftrightarrow> unat n < 1 + 4 \<or> unat n > PACKET_MAX_SIZE"

text \<open>The first part: finding the length of the packet. The continuation is reached when it is known.\<close>

definition read_length where
  "read_length V s k =
    (let nk = newkeys_in s; bs = keys_block nk in
     if packlen s \<noteq> 0 then k s
     else if keys_aad nk \<noteq> 0 then
       (case receive_context s of None \<Rightarrow> fail SSH_ERR_INTERNAL_ERROR s
        | Some cc \<Rightarrow>
            (case cipher_get_length (env_junk V) cc (seqnr (p_read s)) (contents (pinput s)) of
               (Inl e, cc1) \<Rightarrow> (Inr SSH_MSG_NONE, s\<lparr>receive_context := Some cc1\<rparr>)
             | (Inr n, cc1) \<Rightarrow>
                 let s1 = s\<lparr>receive_context := Some cc1, packlen := n\<rparr> in
                 if bad_packlen n then seq_ok (sshpkt_disconnect V packet_corrupt s1) (\<lambda>_ s. fail SSH_ERR_CONN_CORRUPT s)
                 else k (s1\<lparr>incoming_packet := sshbuf_reset (env_alloc V) (incoming_packet s1)\<rparr>)))
     else if sshbuf_len (pinput s) < bs then (Inr SSH_MSG_NONE, s)
     else let b0 = sshbuf_reset (env_alloc V) (incoming_packet s) in
       (case sshbuf_reserve (env_alloc V) b0 bs of (Inl e, b) \<Rightarrow> fail e (s\<lparr>incoming_packet := b\<rparr>)
        | (Inr p, b) \<Rightarrow>
            (case (case receive_context s of None \<Rightarrow> Inl SSH_ERR_INTERNAL_ERROR
                   | Some cc \<Rightarrow> cipher_crypt (env_evp V) (env_junk V) cc (seqnr (p_send s)) (contents (pinput s)) bs 0 0) of
               Inl e \<Rightarrow> fail e (s\<lparr>incoming_packet := b\<rparr>)
             | Inr (d, cc1) \<Rightarrow>
                 let b1 = sshbuf_write b p d; n = PEEK_U32 (contents b1);
                     s1 = s\<lparr>incoming_packet := b1, receive_context := Some cc1, packlen := n\<rparr>
                 in if bad_packlen n then ssh_packet_start_discard V 0 PACKET_MAX_SIZE s1
                    else seq_ok (on_input (\<lambda>b. sshbuf_consume b bs) s1) (\<lambda>_. k))))"

text \<open>How much of the packet is still encrypted: \<^verbatim>\<open>u_int\<close> arithmetic, which may wrap around.\<close>

definition need_bytes :: "nat \<Rightarrow> nat \<Rightarrow> u32 \<Rightarrow> u32" where
  "need_bytes aad bs n = (if aad \<noteq> 0 then n else 4 + n - of_nat bs)"

text \<open>The second part: once the whole packet has arrived, it is checked and decrypted.\<close>

definition check_mac_in where
  "check_mac_in V m data tag s =
    mac_check (env_md V) (env_umac V) (env_um V) m (seqnr (p_read s)) data tag (mac_len m)"

definition decrypt_incoming where
  "decrypt_incoming V need s k =
    (let nk = newkeys_in s; aad = keys_aad nk; auth = keys_auth nk; inp = contents (pinput s); q = seqnr (p_read s) in
     case (if keys_etm nk then
             (case keys_mac nk of None \<Rightarrow> Inr nk
              | Some m \<Rightarrow> (case check_mac_in V m (take (aad + need) inp) (drop (aad + need + auth) inp) s of
                  Inl e \<Rightarrow> Inl e | Inr m1 \<Rightarrow> Inr (set_mac m1 nk)))
           else Inr nk) of
       Inl e \<Rightarrow> fail e s
     | Inr nk1 \<Rightarrow>
         (case sshbuf_reserve (env_alloc V) (incoming_packet s) (aad + need) of
            (Inl e, b) \<Rightarrow> fail e (s\<lparr>newkeys_in := nk1, incoming_packet := b\<rparr>)
          | (Inr p, b) \<Rightarrow>
              (case (case receive_context s of None \<Rightarrow> Inl SSH_ERR_INTERNAL_ERROR
                     | Some cc \<Rightarrow> cipher_crypt (env_evp V) (env_junk V) cc q inp need aad auth) of
                 Inl e \<Rightarrow> fail e (s\<lparr>newkeys_in := nk1, incoming_packet := b\<rparr>)
               | Inr (d, cc1) \<Rightarrow>
                   seq_ok (on_input (\<lambda>b. sshbuf_consume b (aad + need + auth))
                     (s\<lparr>newkeys_in := nk1, incoming_packet := sshbuf_write b p d, receive_context := Some cc1\<rparr>)) (\<lambda>_. k))))"

definition verify_incoming where
  "verify_incoming V need s k =
    (let nk = newkeys_in s in
     case keys_mac nk of None \<Rightarrow> k s
     | Some m \<Rightarrow>
         if metm m then seq_ok (on_input (\<lambda>b. sshbuf_consume b (mac_len m)) s) (\<lambda>_. k)
         else (case check_mac_in V m (contents (incoming_packet s)) (contents (pinput s)) s of
             Inr m1 \<Rightarrow> seq_ok (on_input (\<lambda>b. sshbuf_consume b (mac_len m)) (s\<lparr>newkeys_in := set_mac m1 nk\<rparr>)) (\<lambda>_. k)
           | Inl e \<Rightarrow>
               if e \<noteq> SSH_ERR_MAC_INVALID then fail e s
               else if need + keys_block nk > PACKET_MAX_SIZE then fail SSH_ERR_INTERNAL_ERROR s
               else ssh_packet_start_discard V (sshbuf_len (incoming_packet s)) (PACKET_MAX_SIZE - need - keys_block nk) s))"

definition count_incoming where
  "count_incoming s k =
    (let ps = (p_read s)\<lparr>seqnr := seqnr (p_read s) + 1, packets := packets (p_read s) + 1\<rparr>; n = unat (packlen s + 4)
     in if packets ps = 0 \<and> \<not> norekey s then fail SSH_ERR_NEED_REKEY (s\<lparr>p_read := ps\<rparr>)
        else k (s\<lparr>p_read := ps\<lparr>blocks_done := blocks_done ps + of_nat (n div keys_block (newkeys_in s)),
                              bytes_done := bytes_done ps + of_nat n\<rparr>\<rparr>))"

definition ssh_packet_write_wait where
  "ssh_packet_write_wait V s = on_output (env_write_wait V) s"

definition uncompress_incoming where
  "uncompress_incoming V s =
    (if \<not> keys_comp (newkeys_in s) then (Inr (), s)
     else (case (compression_buffer s, compression_in s) of (Some cb, Some z) \<Rightarrow>
         let cb1 = sshbuf_reset (env_alloc V) cb in
         (case z_uncompress (env_zlib V) z (contents (incoming_packet s)) of
            Inl e \<Rightarrow> fail e (s\<lparr>compression_buffer := Some cb1\<rparr>)
          | Inr (d, z1) \<Rightarrow>
              (case sshbuf_put (env_alloc V) cb1 d of
                 (Inl e, cb2) \<Rightarrow> fail e (s\<lparr>compression_buffer := Some cb2, compression_in := Some z1\<rparr>)
               | (Inr _, cb2) \<Rightarrow>
                   on_incoming (\<lambda>b. sshbuf_putb (env_alloc V) (sshbuf_reset (env_alloc V) b) (Some cb2))
                     (s\<lparr>compression_buffer := Some cb2, compression_in := Some z1\<rparr>)))
       | _ \<Rightarrow> fail SSH_ERR_INTERNAL_ERROR s))"

text \<open>The third part: the padding is removed and the type is read. The text of the messages to the peer is \<open>msg\<close>.\<close>

definition finish_incoming where
  "finish_incoming V msg s =
    (let padlen = contents (incoming_packet s) ! 4 in
     if padlen < 4 then
       seq_ok (sshpkt_disconnect V msg s) (\<lambda>_ s. seq_ok (ssh_packet_write_wait V s) (\<lambda>_ s. fail SSH_ERR_CONN_CORRUPT s))
     else
       seq_ok (on_incoming (\<lambda>b. sshbuf_consume b (4 + 1)) s) (\<lambda>_ s.
       seq_ok (on_incoming (\<lambda>b. sshbuf_consume_end b (unat padlen)) s) (\<lambda>_ s.
       seq_ok (uncompress_incoming V s) (\<lambda>_ s.
       seq_ok (on_incoming sshbuf_get_u8 s) (\<lambda>t s.
         if t < SSH2_MSG_MIN \<or> t \<ge> SSH2_MSG_LOCAL_MIN then
           seq_ok (sshpkt_disconnect V msg s) (\<lambda>_ s. seq_ok (ssh_packet_write_wait V s) (\<lambda>_ s. fail SSH_ERR_PROTOCOL_ERROR s))
         else
           let (r, s1) = (if t = SSH2_MSG_USERAUTH_SUCCESS \<and> \<not> server_side s then ssh_packet_enable_delayed_compress V s else (Inr (), s));
               s2 = s1\<lparr>packlen := 0\<rparr>
           in if ssh_packet_need_rekeying V 0 s2 then seq_ok (kex_start_rekex V s2) (\<lambda>_ s. (Inr t, s))
              else (case r of Inl e \<Rightarrow> fail e s2 | Inr _ \<Rightarrow> (Inr t, s2)))))))"

text \<open>What is done once the length is known.\<close>

definition read_rest where
  "read_rest V msg s =
    (let nk = newkeys_in s; bs = keys_block nk; aad = keys_aad nk; need = unat (need_bytes aad bs (packlen s));
         maclen = (case keys_mac nk of None \<Rightarrow> 0 | Some m \<Rightarrow> mac_len m)
     in if need mod bs \<noteq> 0 then ssh_packet_start_discard V 0 (PACKET_MAX_SIZE - bs) s
        else if sshbuf_len (pinput s) < aad + need + keys_auth nk + maclen then (Inr SSH_MSG_NONE, s)
        else decrypt_incoming V need s (\<lambda>s. verify_incoming V need s (\<lambda>s. count_incoming s (finish_incoming V msg))))"

definition read_poll2_packet where
  "read_poll2_packet V msg s = read_length V s (read_rest V msg)"

definition ssh_packet_read_poll2_mux where
  "ssh_packet_read_poll2_mux V s =
    (let inp = contents (pinput s);
         k = (\<lambda>s. let n = unat (packlen s); need = n + 4 in
           if sshbuf_len (pinput s) < need then (Inr SSH_MSG_NONE, s)
           else seq_ok (on_incoming (\<lambda>b. sshbuf_put (env_alloc V) (sshbuf_reset (env_alloc V) b) (take n (drop 4 inp))) s) (\<lambda>_ s.
             seq_ok (on_input (\<lambda>b. sshbuf_consume b need) s) (\<lambda>_ s.
             seq_ok (on_incoming sshbuf_get_u8 s) (\<lambda>_ s.
             seq_ok (on_incoming sshbuf_get_u8 s) (\<lambda>t s. (Inr t, s\<lparr>packlen := 0\<rparr>))))))
     in if packlen s \<noteq> 0 then k s
        else if sshbuf_len (pinput s) < 4 + 1 then (Inr SSH_MSG_NONE, s)
        else let n = PEEK_U32 inp in
          if bad_packlen n then fail SSH_ERR_MESSAGE_INCOMPLETE (s\<lparr>packlen := n\<rparr>) else k (s\<lparr>packlen := n\<rparr>))"

definition ssh_packet_read_poll2 where
  "ssh_packet_read_poll2 V msg s =
    (if pmux s then ssh_packet_read_poll2_mux V s
     else if packet_discard s \<noteq> 0 then (Inr SSH_MSG_NONE, s)
     else read_poll2_packet V msg s)"

definition ssh_packet_process_incoming where
  "ssh_packet_process_incoming V buf s =
    (if packet_discard s \<noteq> 0 then
       seq_ok (if length buf \<ge> unat (packet_discard s) then ssh_packet_stop_discard V (s\<lparr>keep_alive_timeouts := 0\<rparr>)
               else (Inr (), s\<lparr>keep_alive_timeouts := 0\<rparr>)) (\<lambda>_ s.
         (Inr (), s\<lparr>packet_discard := packet_discard s - of_nat (length buf)\<rparr>))
     else on_input (\<lambda>b. sshbuf_put (env_alloc V) b buf) s)"


text \<open>Messages that the transport handles itself are taken off one after the other. Each round consumes input; that the loop
  returns is proved in \<open>Packet_Loop\<close>.\<close>

partial_function (option) ssh_packet_read_poll_seqnr where
  [code]: "ssh_packet_read_poll_seqnr V msg s =
    (case ssh_packet_read_poll2 V msg s of
       (Inl e, s) \<Rightarrow> Some (Inl e, s)
     | (Inr t, s) \<Rightarrow>
         let s = (if t \<noteq> 0 then s\<lparr>keep_alive_timeouts := 0\<rparr> else s) in
         if t = SSH2_MSG_IGNORE then ssh_packet_read_poll_seqnr V msg s
         else if t = SSH2_MSG_DEBUG then
           (case seq_ok (on_incoming sshbuf_get_u8 s) (\<lambda>_ s.
                 seq_ok (on_incoming (sshbuf_get_string (env_alloc V) True) s) (\<lambda>_.
                 on_incoming (sshbuf_get_string (env_alloc V) False))) of
              (Inl e, s) \<Rightarrow> Some (Inl e, s)
            | (Inr _, s) \<Rightarrow> ssh_packet_read_poll_seqnr V msg s)
         else if t = SSH2_MSG_DISCONNECT then
           Some (seq_ok (on_incoming sshbuf_get_u32 s) (\<lambda>_ s.
                 seq_ok (on_incoming (sshbuf_get_string (env_alloc V) True) s) (\<lambda>_ s. fail SSH_ERR_DISCONNECTED s)))
         else if t = SSH2_MSG_UNIMPLEMENTED then
           (case on_incoming sshbuf_get_u32 s of
              (Inl e, s) \<Rightarrow> Some (Inl e, s)
            | (Inr _, s) \<Rightarrow> ssh_packet_read_poll_seqnr V msg s)
         else Some (Inr t, s))"

text \<open>The result of \<^verbatim>\<open>write\<close> is an argument: an error that means to try again, another error, or a count.\<close>

datatype write_result = Write_Again | Write_Error | Wrote nat

definition ssh_packet_write_poll where
  "ssh_packet_write_poll w s =
    (if sshbuf_len (poutput s) > 0 then
       (case w of Write_Again \<Rightarrow> (Inr (), s) | Write_Error \<Rightarrow> fail SSH_ERR_SYSTEM_ERROR s
        | Wrote n \<Rightarrow> if n = 0 then fail SSH_ERR_CONN_CLOSED s else on_output (\<lambda>b. sshbuf_consume b n) s)
     else (Inr (), s))"

definition ssh_packet_have_data_to_write where
  "ssh_packet_have_data_to_write s \<longleftrightarrow> sshbuf_len (poutput s) \<noteq> 0"

definition ssh_packet_not_very_much_data_to_write where
  "ssh_packet_not_very_much_data_to_write s \<longleftrightarrow>
    (if interactive_mode s then sshbuf_len (poutput s) < 16384 else sshbuf_len (poutput s) < 128 * 1024)"

definition ssh_packet_remaining where
  "ssh_packet_remaining s = sshbuf_len (incoming_packet s)"

definition ssh_packet_set_maxsize where
  "ssh_packet_set_maxsize n s =
    (if set_maxsize_called s \<or> n < 4 * 1024 \<or> n > 1024 * 1024 then (None, s)
     else (Some n, s\<lparr>set_maxsize_called := True, max_packet_size := n\<rparr>))"

definition ssh_packet_set_rekey_limits where
  "ssh_packet_set_rekey_limits bytes seconds s = s\<lparr>rekey_limit := bytes, rekey_interval := seconds\<rparr>"

definition ssh_packet_set_postauth where
  "ssh_packet_set_postauth V s = ssh_packet_enable_delayed_compress V (s\<lparr>after_authentication := True, rekeying := False\<rparr>)"

text \<open>Padding against traffic analysis: the bytes come from successive words \<open>rnd i\<close> of \<^verbatim>\<open>arc4random\<close>.\<close>

fun msg_ignore_loop where
  "msg_ignore_loop V rnd i 0 s = (Inr (), s)"
| "msg_ignore_loop V rnd i (Suc n) s =
    seq_ok (on_outgoing (\<lambda>b. sshbuf_put_u8 (env_alloc V) b (ucast (drop_bit (8 * (i mod 4)) (rnd (i div 4) :: u32)))) s)
      (\<lambda>_. msg_ignore_loop V rnd (Suc i) n)"

definition sshpkt_msg_ignore where
  "sshpkt_msg_ignore V rnd nbytes s =
    seq_ok (sshpkt_start V SSH2_MSG_IGNORE s) (\<lambda>_ s.
    seq_ok (on_outgoing (\<lambda>b. sshbuf_put_u32 (env_alloc V) b nbytes) s) (\<lambda>_. msg_ignore_loop V rnd 0 (unat nbytes)))"


end
