(* ===== verification/Packet_Stream.thy ===== *)
theory Packet_Stream
  imports Packet
begin

text \<open>
  Two ends of the packet protocol of \<open>Packet\<close> joined by a network that delivers the bytes in order and in arbitrary
  pieces: what one end sends under one set of keys is what the other end receives, for every cipher and MAC that keeps
  the contracts \<open>packet_cipher\<close> and \<open>packet_mac\<close>. Compression, a change of keys and packets queued for a key exchange are not
  part of the step relation.
\<close>

unbundle bit_operations_syntax

section \<open>Buffers\<close>

lemma reserve_write_put:
  assumes "sshbuf_reserve A b n = (Inr p, b1)" "length v = n"
  shows "sshbuf_put A b v = (Inr (), sshbuf_write b1 p v)"
  using assms by (simp add: sshbuf_put_write)

lemma reserve_write:
  assumes wf: "sshbuf_wf b" and "sshbuf_reserve A b n = (Inr p, b1)" "length v = n"
  shows "sshbuf_wf (sshbuf_write b1 p v)" "contents (sshbuf_write b1 p v) = contents b @ v" "same_header b (sshbuf_write b1 p v)"
  using sshbuf_put_correct [OF wf reserve_write_put [OF assms(2,3)]] by simp_all

lemma reserve_ok:
  assumes "sshbuf_wf b" "\<forall>k. malloc_ok A k" "writable b" "length (contents b) + n \<le> max_size b"
  obtains p b1 where "sshbuf_reserve A b n = (Inr p, b1)"
  using sshbuf_reserve_total [OF assms(1,2), of n] assms(3,4) by (metis prod.collapse)

lemma reset_header [simp]: "same_header b (sshbuf_reset A b)"
  by (auto simp: same_header_def sshbuf_reset_def set_bytes_def Let_def split: option.splits bufmem.splits)

section \<open>Padding\<close>

lemma unat_lt2p_byte: "unat (p :: byte) < 256"
  using unsigned_less [of p, where 'a = nat] by simp

lemma unat_of_nat_byte: "unat (of_nat n :: byte) = n mod 256"
  by (simp only: unat_of_nat) simp

lemma base_pad_nat:
  assumes "bs \<in> {8, 16}"
  shows "unat (base_pad bs len) = (if bs - len mod bs < 4 then bs + bs - len mod bs else bs - len mod bs)"
proof -
  have l: "len mod bs < bs" "bs \<le> 16" using assms by auto
  then have u: "unat (of_nat (bs - len mod bs) :: byte) = bs - len mod bs"
    by (simp only: unat_of_nat_byte) simp
  have "(of_nat (bs - len mod bs) :: byte) < 4 \<longleftrightarrow> bs - len mod bs < 4"
    using u by (simp add: word_less_nat_alt)
  moreover have "unat (of_nat (bs - len mod bs) + of_nat bs :: byte) = bs - len mod bs + bs"
    using l u by (simp only: unat_word_ariths unat_of_nat_byte) simp
  ultimately show ?thesis using u l by (simp add: base_pad_def)
qed

lemma base_pad_ok:
  assumes "bs \<in> {8, 16}"
  shows "bs dvd len + unat (base_pad bs len)" "4 \<le> unat (base_pad bs len)" "unat (base_pad bs len) < 20"
proof -
  have m: "len mod bs < bs" using assms by auto
  have "len + (bs - len mod bs) = bs + (len - len mod bs)" using m mod_less_eq_dividend [of len bs] by linarith
  then have d: "bs dvd len + (bs - len mod bs)" by (metis dvd_add dvd_refl dvd_minus_mod)
  have "len + (bs + bs - len mod bs) = len + (bs - len mod bs) + bs" using m by simp
  then have "bs dvd len + (bs + bs - len mod bs)" using d by (metis dvd_add dvd_refl)
  then show "bs dvd len + unat (base_pad bs len)" using d
    by (auto simp only: base_pad_nat [OF assms] split: if_split)
  show "4 \<le> unat (base_pad bs len)" "unat (base_pad bs len) < 20"
    using assms m by (auto simp: base_pad_nat [OF assms])
qed

lemma pad_length_ok:
  assumes bs: "bs \<in> {8, 16}" and run: "pad_length bs len extra = (Inr p, x)"
  shows "bs dvd len + unat p" "4 \<le> unat p"
proof -
  note b = base_pad_ok [OF bs, of len]
  let ?b = "base_pad bs len" and ?e = "of_nat ((unat extra + (bs - 1)) div bs * bs) :: byte"
  have e: "bs dvd unat ?e"
    unfolding unat_of_nat_byte using bs by (auto intro: dvd_mod)
  have "(bs dvd len + unat p) \<and> 4 \<le> unat p"
  proof (cases "extra = 0")
    case True
    then show ?thesis using run b by (simp add: pad_length_def)
  next
    case False
    let ?t = "of_nat ((len + unat ?b) mod unat ?e) :: byte"
    have p: "p = ?b + (?e - ?t)" "\<not> ?e < extra" "\<not> ?t > ?e" "\<not> p < ?b"
      using run False by (auto simp: pad_length_def Let_def split: if_splits)
    then have e0: "0 < unat ?e" using False by (metis unat_gt_0 word_gt_0 word_not_simps(1) word_coorder.not_eq_extremum)
    have t: "unat ?t = (len + unat ?b) mod unat ?e"
      using mod_less_divisor [OF e0, of "len + unat ?b"] unsigned_less [of ?e]
      by (simp only: unat_of_nat_byte) simp
    have tb: "bs dvd unat ?t" unfolding t using b(1) e by (rule dvd_mod)
    have sub: "unat (?e - ?t) = unat ?e - unat ?t" using p(3) by (simp add: unat_sub not_less)
    have up: "unat p = unat ?b + (unat ?e - unat ?t)"
      using p(1,4) sub by (metis add.commute not_less unat_plus_simple word_le_plus_either unat_plus_if' )
    have "bs dvd (len + unat ?b) + (unat ?e - unat ?t)" using b(1) e tb by (simp add: dvd_add dvd_diff_nat)
    then show ?thesis using up b(2) by (simp add: add.assoc)
  qed
  then show "bs dvd len + unat p" "4 \<le> unat p" by auto
qed

text \<open>A padded packet: its length, the length of the padding, the payload and the padding.\<close>

definition framed :: "nat \<Rightarrow> nat \<Rightarrow> byte list \<Rightarrow> byte list \<Rightarrow> bool" where
  "framed bs aad pkt plain \<longleftrightarrow>
    (\<exists>p pad. plain = POKE_U32 (of_nat (length plain - 4)) @ p # drop 5 pkt @ pad \<and> length pad = unat p \<and> 4 \<le> unat p \<and>
      bs dvd length plain - aad \<and> length plain = length pkt + unat p)"

lemma framedI:
  assumes plain: "plain = POKE_U32 (of_nat (length pkt + unat p - 4)) @ p # drop 5 pkt @ pad"
    and "length pad = unat p" "4 \<le> unat p" "bs dvd length pkt - aad + unat p" "5 \<le> length pkt" "aad \<le> length pkt"
  shows "framed bs aad pkt plain"
proof -
  have l: "length plain = length pkt + unat p" unfolding plain using assms(2,5) by simp
  have d: "length pkt + unat p - aad = length pkt - aad + unat p" using assms(6) by simp
  show ?thesis unfolding framed_def l d using assms by blast
qed

lemma pad_outgoing_framed:
  assumes run: "pad_outgoing V s = (Inr (), s')" and wf: "sshbuf_wf (outgoing_packet s)" and bs: "keys_block (newkeys_out s) \<in> {8, 16}"
    and len: "6 \<le> length (contents (outgoing_packet s))" and rnd: "\<forall>q n. length (env_random V q n) = n"
  shows "\<exists>x b. s' = s\<lparr>extra_pad := x, outgoing_packet := b\<rparr> \<and> sshbuf_wf b \<and> same_header (outgoing_packet s) b \<and>
    framed (keys_block (newkeys_out s)) (keys_aad (newkeys_out s)) (contents (outgoing_packet s)) (contents b)"
proof -
  let ?b = "outgoing_packet s" and ?pkt = "contents (outgoing_packet s)" and ?nk = "newkeys_out s"
  have ll: "sshbuf_len ?b = length ?pkt" using wf by simp
  obtain p x where px: "pad_length (keys_block ?nk) (length ?pkt - keys_aad ?nk) (extra_pad s) = (Inr p, x)"
    using run ll by (fastforce simp: pad_outgoing_def fail_def split: prod.splits sum.splits)
  define pad where "pad = (if ?nk \<noteq> None \<and> (case send_context s of None \<Rightarrow> False | Some cc \<Rightarrow> \<not> cipher_ctx_is_plaintext cc)
      then env_random V (seqnr (p_send s)) (unat p) else replicate (unat p) 0)"
  have pl: "length pad = unat p" using rnd by (simp add: pad_def)
  obtain r b1 where res: "sshbuf_reserve (env_alloc V) ?b (unat p) = (r, b1)" by force
  obtain q where q: "r = Inr q" using run px res ll by (cases r) (auto simp: pad_outgoing_def Let_def on_outgoing_def)
  define b2 where "b2 = sshbuf_write b1 q pad"
  note w = reserve_write [OF wf res [unfolded q] pl, folded b2_def]
  let ?h = "POKE_U32 (of_nat (sshbuf_len b2 - 4)) @ [p]"
  have ex: "pad_outgoing V s = (case sshbuf_mutable_ptr b2 of None \<Rightarrow> fail SSH_ERR_INTERNAL_ERROR (s\<lparr>extra_pad := x, outgoing_packet := b2\<rparr>)
      | Some cp \<Rightarrow> (Inr (), s\<lparr>extra_pad := x, outgoing_packet := sshbuf_write b2 cp ?h\<rparr>))"
    by (simp only: pad_outgoing_def px ll prod.case sum.case Let_def pad_def [symmetric])
      (simp add: on_outgoing_def res q b2_def [symmetric] split: option.split)
  have s': "s' = s\<lparr>extra_pad := x, outgoing_packet := sshbuf_write b2 (off b2) ?h\<rparr>"
  proof (cases "sshbuf_mutable_ptr b2")
    case (Some cp)
    then have "cp = off b2" by (auto simp: sshbuf_mutable_ptr_def split: sum.splits if_splits)
    with Some run ex show ?thesis by simp
  qed (use run ex in \<open>simp add: fail_def\<close>)
  have hl: "0 + length ?h \<le> length (contents b2)" using w(2) len by simp
  note c = sshbuf_write_contents [OF w(1) hl, simplified]
  have l2: "sshbuf_len b2 = length ?pkt + unat p" using w pl by simp
  have "contents (sshbuf_write b2 (off b2) ?h) = ?h @ drop 5 (?pkt @ pad)"
    using c(1) w(2) by (simp add: write_at_def)
  then have "contents (sshbuf_write b2 (off b2) ?h) = POKE_U32 (of_nat (length ?pkt + unat p - 4)) @ p # drop 5 ?pkt @ pad"
    using len l2 by simp
  moreover have "keys_aad ?nk \<le> length ?pkt" using len by (simp add: keys_aad_def)
  ultimately have "framed (keys_block ?nk) (keys_aad ?nk) ?pkt (contents (sshbuf_write b2 (off b2) ?h))"
    using pad_length_ok [OF bs px] pl len by (intro framedI) simp_all
  then show ?thesis using s' c(2) w(3) same_header_trans [OF w(3) same_header_write] by blast
qed

section \<open>What is on the wire\<close>

text \<open>The cryptographic part of sending a packet: the ciphertext and tag of \<open>plain\<close>, with the keys and the context after it.\<close>

definition sealed where
  "sealed V nk cc q plain wire nk' cc' \<longleftrightarrow>
    (\<exists>c. cipher_crypt (env_evp V) (env_junk V) cc q plain (length plain - keys_aad nk) (keys_aad nk) (keys_auth nk) = Inr (c, cc') \<and>
      (case keys_mac nk of None \<Rightarrow> wire = c \<and> nk' = nk
       | Some m \<Rightarrow> \<exists>t m'. mac_compute (env_md V) (env_umac V) (env_um V) m q (if metm m then take (length plain) c else plain)
             SSH_DIGEST_MAX_LENGTH = Inr (t, m') \<and> wire = c @ take (mac_len m) t \<and> nk' = set_mac m' nk))"


text \<open>The keys of both ends of a direction have the same parameters and the same MAC, and the parameters are those of the cipher
  \<open>c\<close>. Compression is off.\<close>

definition keys_match where
  "keys_match V W nk nk' c \<longleftrightarrow>
    keys_auth nk = cipher_authlen c \<and> keys_auth nk' = cipher_authlen c \<and>
    keys_block nk = block_size c \<and> keys_block nk' = block_size c \<and> block_size c \<in> {8, 16} \<and>
    keys_mac nk' = keys_mac nk \<and> (\<forall>m. keys_mac nk = Some m \<longrightarrow> mac_ok (env_md V) (env_umac V) (env_um V) (env_um W) m) \<and>
    \<not> keys_comp nk \<and> \<not> keys_comp nk'"

text \<open>Both ends agree when moreover the contexts of the cipher are in step.\<close>

definition keys_agree where
  "keys_agree V W nk nk' cs cr \<longleftrightarrow>
    cipher_sync (env_evp V) (env_junk V) (env_junk W) cs cr \<and> keys_match V W nk nk' (ccipher cs)"

lemma keys_match_parts:
  assumes "keys_match V W nk nk' c"
  shows "keys_auth nk = cipher_authlen c" "keys_block nk = block_size c" "keys_auth nk' = cipher_authlen c" "keys_block nk' = block_size c"
    "block_size c \<in> {8, 16}" "keys_mac nk' = keys_mac nk" "keys_aad nk' = keys_aad nk" "keys_etm nk' = keys_etm nk"
    "keys_mac nk = Some m \<Longrightarrow> mac_ok (env_md V) (env_umac V) (env_um V) (env_um W) m" "\<not> keys_comp nk" "\<not> keys_comp nk'"
proof -
  show "keys_aad nk' = keys_aad nk" "keys_etm nk' = keys_etm nk"
    using assms by (auto simp: keys_match_def keys_etm_def keys_aad_def)
qed (use assms in \<open>unfold keys_match_def, blast+\<close>)

lemma keys_aad_le: "keys_aad nk \<le> 4" "keys_auth nk = 0 \<or> keys_aad nk \<noteq> 0"
  by (simp_all add: keys_aad_def)

lemma crypt_length:
  assumes "keys_agree V W nk nk' cs cr" "keys_block nk dvd length plain - keys_aad nk" "4 \<le> length plain"
    and "cipher_crypt (env_evp V) (env_junk V) cs q plain (length plain - keys_aad nk) (keys_aad nk) (keys_auth nk) = Inr (c, cs')"
  shows "length c = length plain + keys_auth nk"
  using pc.whole [of "env_evp V" "env_junk V" "env_junk W" cs cr plain "keys_aad nk" "length plain - keys_aad nk" q c cs' "[]"]
    assms keys_match_parts(1,2) [of V W nk nk' "ccipher cs"] keys_aad_le [of nk] by (simp add: keys_agree_def)

lemma crypt_outgoing_sealed:
  assumes run: "crypt_outgoing V s = (Inr (), s')" and wf: "sshbuf_wf (poutput s)" and cc: "send_context s = Some cs"
    and agree: "keys_agree V W (newkeys_out s) nk' cs cr"
    and fr: "framed (keys_block (newkeys_out s)) (keys_aad (newkeys_out s)) pkt (contents (outgoing_packet s))"
  shows "\<exists>wire nk cs' b. s' = s\<lparr>newkeys_out := nk, send_context := Some cs', poutput := b\<rparr> \<and> sshbuf_wf b \<and> same_header (poutput s) b \<and>
    contents b = contents (poutput s) @ wire \<and> sealed V (newkeys_out s) cs (seqnr (p_send s)) (contents (outgoing_packet s)) wire nk cs'"
proof -
  let ?nk = "newkeys_out s" and ?plain = "contents (outgoing_packet s)" and ?q = "seqnr (p_send s)"
  let ?mc = "mac_compute (env_md V) (env_umac V) (env_um V)"
  have d: "keys_block ?nk dvd length ?plain - keys_aad ?nk" and l: "4 \<le> length ?plain"
    using fr by (auto simp: framed_def)
  obtain r b where res: "sshbuf_reserve (env_alloc V) (poutput s) (length ?plain + keys_auth ?nk) = (r, b)" by force
  define e where "e = (case keys_mac ?nk of Some m \<Rightarrow> if metm m then Inr ([], ?nk)
      else (case ?mc m ?q ?plain SSH_DIGEST_MAX_LENGTH of Inl e \<Rightarrow> Inl e | Inr (t, m1) \<Rightarrow> Inr (t, set_mac m1 ?nk))
    | None \<Rightarrow> Inr ([], ?nk))"
  obtain tag nk1 where e: "e = Inr (tag, nk1)"
  proof (cases e)
    case (Inl x)
    then show ?thesis using run by (simp only: crypt_outgoing_def Let_def e_def [symmetric]) (simp add: fail_def)
  qed (use that in force)
  obtain p where p: "r = Inr p"
  proof (cases r)
    case (Inl x)
    then show ?thesis using run by (simp only: crypt_outgoing_def Let_def e_def [symmetric] e) (simp add: fail_def res)
  qed (use that in force)
  obtain c cs' where
    c: "cipher_crypt (env_evp V) (env_junk V) cs ?q ?plain (length ?plain - keys_aad ?nk) (keys_aad ?nk) (keys_auth ?nk) = Inr (c, cs')"
  proof (cases "cipher_crypt (env_evp V) (env_junk V) cs ?q ?plain (length ?plain - keys_aad ?nk) (keys_aad ?nk) (keys_auth ?nk)")
    case (Inl x)
    then show ?thesis using run by (simp only: crypt_outgoing_def Let_def e_def [symmetric] e) (simp add: fail_def res p cc)
  qed (use that in force)
  define b1 where "b1 = sshbuf_write b p c"
  note w = reserve_write [OF wf res [unfolded p] crypt_length [OF agree d l c], folded b1_def]
  show ?thesis
  proof (cases "keys_mac ?nk")
    case None
    then have "s' = s\<lparr>newkeys_out := ?nk, send_context := Some cs', poutput := b1\<rparr>"
      using run cc res p c by (simp add: crypt_outgoing_def b1_def)
    then show ?thesis using w None c by (fastforce simp: sealed_def)
  next
    case (Some m)
    obtain t m' where t: "?mc m ?q (if metm m then take (length ?plain) c else ?plain) SSH_DIGEST_MAX_LENGTH = Inr (t, m')"
    proof (cases "?mc m ?q (if metm m then take (length ?plain) c else ?plain) SSH_DIGEST_MAX_LENGTH")
      case (Inl x)
      then show ?thesis using run Some by (cases "metm m") (simp_all add: crypt_outgoing_def fail_def res p cc c Let_def)
    qed (use that in force)
    obtain r2 b2 where put: "sshbuf_put (env_alloc V) b1 (take (mac_len m) t) = (r2, b2)" by force
    have "crypt_outgoing V s = (r2, s\<lparr>newkeys_out := set_mac m' ?nk, send_context := Some cs', poutput := b2\<rparr>)"
      using cc res p c Some t put by (cases "metm m") (simp_all add: crypt_outgoing_def Let_def on_output_def b1_def)
    then have s': "r2 = Inr ()" "s' = s\<lparr>newkeys_out := set_mac m' ?nk, send_context := Some cs', poutput := b2\<rparr>" using run by simp_all
    have "sshbuf_wf b2 \<and> same_header (poutput s) b2 \<and> contents b2 = contents (poutput s) @ c @ take (mac_len m) t"
      using sshbuf_put_correct [OF w(1) put] w(2,3) s'(1) same_header_trans by auto
    moreover have "sealed V ?nk cs ?q ?plain (c @ take (mac_len m) t) (set_mac m' ?nk) cs'"
      using c Some t by (auto simp: sealed_def)
    ultimately show ?thesis using s'(2) by blast
  qed
qed


lemma send2_wrapped_sealed:
  assumes run: "ssh_packet_send2_wrapped V s = (Inr (), s')" and wf: "sshbuf_wf (outgoing_packet s)" "sshbuf_wf (poutput s)"
    and cc: "send_context s = Some cs" and agree: "keys_agree V W (newkeys_out s) nk' cs cr"
    and len: "6 \<le> length (contents (outgoing_packet s))" and rnd: "\<forall>q n. length (env_random V q n) = n"
    and ty: "contents (outgoing_packet s) ! 5 \<notin> {SSH2_MSG_NEWKEYS, SSH2_MSG_USERAUTH_SUCCESS}"
    and mx: "SSHBUF_SIZE_INIT \<le> max_size (outgoing_packet s)"
  shows "\<exists>plain wire nk cs' b x o' ps. s' = s\<lparr>extra_pad := x, newkeys_out := nk, send_context := Some cs', poutput := b, p_send := ps, outgoing_packet := o'\<rparr> \<and>
    framed (keys_block (newkeys_out s)) (keys_aad (newkeys_out s)) (contents (outgoing_packet s)) plain \<and>
    sealed V (newkeys_out s) cs (seqnr (p_send s)) plain wire nk cs' \<and> sshbuf_wf b \<and> contents b = contents (poutput s) @ wire \<and>
    seqnr ps = seqnr (p_send s) + 1 \<and> packets ps = packets (p_send s) + 1 \<and> (packets ps \<noteq> 0 \<or> norekey s) \<and>
    sshbuf_wf o' \<and> max_size o' = max_size (outgoing_packet s)"
proof -
  let ?nk = "newkeys_out s"
  have nc: "\<not> keys_comp ?nk" and bs: "keys_block ?nk \<in> {8, 16}"
    using agree keys_match_parts(2,5,10) [of V W ?nk nk' "ccipher cs"] by (auto simp: keys_agree_def)
  obtain s1 where s1: "pad_outgoing V s = (Inr (), s1)"
    using run nc by (auto simp: ssh_packet_send2_wrapped_def compress_outgoing_def Let_def seq_ok_Inr)
  obtain x b1 where p: "s1 = s\<lparr>extra_pad := x, outgoing_packet := b1\<rparr>" "sshbuf_wf b1"
      "framed (keys_block ?nk) (keys_aad ?nk) (contents (outgoing_packet s)) (contents b1)" "same_header (outgoing_packet s) b1"
    using pad_outgoing_framed [OF s1 wf(1) bs len rnd] by blast
  obtain s2 where s2: "crypt_outgoing V s1 = (Inr (), s2)"
    using run nc s1 by (auto simp: ssh_packet_send2_wrapped_def compress_outgoing_def Let_def seq_ok_Inr)
  obtain wire nk cs' b where c: "s2 = s1\<lparr>newkeys_out := nk, send_context := Some cs', poutput := b\<rparr>" "sshbuf_wf b"
      "contents b = contents (poutput s) @ wire" "sealed V ?nk cs (seqnr (p_send s)) (contents b1) wire nk cs'"
    using crypt_outgoing_sealed [OF s2, of cs W nk' cr "contents (outgoing_packet s)"] wf(2) cc agree p by auto
  have last: "count_outgoing V s2 = (Inr (), s')"
    using run nc s1 s2 ty by (auto simp: ssh_packet_send2_wrapped_def compress_outgoing_def Let_def seq_ok_Inr split: if_splits)
  let ?ps = "(p_send s)\<lparr>seqnr := seqnr (p_send s) + 1, packets := packets (p_send s) + 1,
      blocks_done := blocks_done (p_send s) + of_nat (length (contents b1) div keys_block nk),
      bytes_done := bytes_done (p_send s) + of_nat (length (contents b1))\<rparr>"
  have "s' = s\<lparr>extra_pad := x, newkeys_out := nk, send_context := Some cs', poutput := b, p_send := ?ps,
      outgoing_packet := sshbuf_reset (env_alloc V) b1\<rparr> \<and> (packets ?ps \<noteq> 0 \<or> norekey s)"
    using last c(1) p(1) by (auto simp: count_outgoing_def fail_def Let_def split: if_splits)
  moreover have "sshbuf_wf (sshbuf_reset (env_alloc V) b1)" "max_size (sshbuf_reset (env_alloc V) b1) = max_size (outgoing_packet s)"
    using sshbuf_reset_wf(1) [OF p(2)] mx p(4) reset_header [of b1 "env_alloc V"] by (simp_all add: same_header_def)
  ultimately show ?thesis using c(2-4) p(3) by (intro exI [of _ "contents b1"] exI [of _ wire]) (fastforce simp del: of_nat_div)
qed

section \<open>Opening what was sealed\<close>

lemma mac_digest_flags: "mac_digest M U m q d = Inr (t, m') \<Longrightarrow> menabled m' = menabled m \<and> metm m' = metm m \<and> mac_len m' = mac_len m"
  by (auto simp: mac_digest_def or_err_def Let_def split: if_splits option.splits prod.splits)

lemma mac_compute_flags: "mac_compute M U um m q d n = Inr (t, m') \<Longrightarrow> menabled m' = menabled m \<and> metm m' = metm m \<and> mac_len m' = mac_len m"
  using mac_digest_flags by (fastforce simp: mac_compute_def split: if_splits sum.splits prod.splits)

lemma set_mac_keys [simp]: "keys_auth (set_mac m nk) = keys_auth nk" "keys_block (set_mac m nk) = keys_block nk" "keys_comp (set_mac m nk) = keys_comp nk"
  by (auto simp: set_mac_def keys_auth_def keys_block_def keys_comp_def split: option.splits)

lemma keys_mac_set_mac: "keys_mac nk = Some m \<Longrightarrow> menabled m' = menabled m \<Longrightarrow> keys_mac (set_mac m' nk) = Some m'"
  by (auto simp: set_mac_def keys_mac_def keys_auth_def split: option.splits if_splits)

lemma keys_mac_set_mac_etm:
  assumes "keys_mac nk = Some m" "menabled m' = menabled m" "metm m' = metm m"
  shows "keys_etm (set_mac m' nk) = keys_etm nk" "keys_aad (set_mac m' nk) = keys_aad nk"
  using keys_mac_set_mac [OF assms(1,2)] assms by (simp_all add: keys_etm_def keys_aad_def)

lemma keys_match_set_mac:
  assumes m: "keys_match V W nk nk' c" "keys_mac nk = Some m"
    and t: "mac_compute (env_md V) (env_umac V) (env_um V) m q d SSH_DIGEST_MAX_LENGTH = Inr (t, m')"
  shows "keys_match V W (set_mac m' nk) (set_mac m' nk') c"
proof -
  note p = keys_match_parts [OF m(1)]
  have e: "menabled m' = menabled m" using mac_compute_flags [OF t] by simp
  have k: "keys_mac (set_mac m' nk) = Some m'" "keys_mac (set_mac m' nk') = Some m'"
    using keys_mac_set_mac [OF _ e] m(2) p(6) by simp_all
  have "mac_ok (env_md V) (env_umac V) (env_um V) (env_um W) m'" using pm.computed [OF p(9) [OF m(2)] t] by simp
  then show ?thesis using m(1) k by (simp add: keys_match_def)
qed


definition same_ops where
  "same_ops V W \<longleftrightarrow> env_evp W = env_evp V \<and> env_md W = env_md V \<and> env_umac W = env_umac V"

definition keys_maclen :: "('d, 'u) newkeys option \<Rightarrow> nat" where
  "keys_maclen nk = (case keys_mac nk of None \<Rightarrow> 0 | Some m \<Rightarrow> mac_len m)"

text \<open>The receiver's MAC accepts \<open>tag\<close>, whatever follows it, and its keys then are \<open>nk'\<close>.\<close>

definition tag_accepted where
  "tag_accepted W nk q d tag nk' \<longleftrightarrow>
    (case keys_mac nk of None \<Rightarrow> nk' = nk
     | Some m \<Rightarrow> \<exists>m'. (\<forall>rest. mac_check (env_md W) (env_umac W) (env_um W) m q d (tag @ rest) (mac_len m) = Inr m') \<and>
         menabled m' = menabled m \<and> metm m' = metm m \<and> mac_len m' = mac_len m \<and> nk' = set_mac m' nk)"

lemma keys_mac_auth: "keys_mac nk = Some m \<Longrightarrow> keys_auth nk = 0 \<and> menabled m"
  by (auto simp: keys_mac_def split: option.splits if_splits)

lemma sealed_open:
  assumes seal: "sealed V nk cs q plain wire nk1 cs1" and agree: "keys_agree V W nk nk' cs cr" and ops: "same_ops V W"
    and d: "keys_block nk dvd length plain - keys_aad nk" "4 \<le> length plain"
  obtains c tag nk1' where
    "cipher_crypt (env_evp V) (env_junk V) cs q plain (length plain - keys_aad nk) (keys_aad nk) (keys_auth nk) = Inr (c, cs1)"
    "wire = c @ tag" "length c = length plain + keys_auth nk" "length tag = keys_maclen nk"
    "tag_accepted W nk' q (if keys_etm nk then c else plain) tag nk1'" "keys_match V W nk1 nk1' (ccipher cs1)"
proof -
  have m: "keys_match V W nk nk' (ccipher cs)" using agree by (simp add: keys_agree_def)
  note p = keys_match_parts [OF m]
  obtain c where c: "cipher_crypt (env_evp V) (env_junk V) cs q plain (length plain - keys_aad nk) (keys_aad nk) (keys_auth nk) = Inr (c, cs1)"
      and mac: "case keys_mac nk of None \<Rightarrow> wire = c \<and> nk1 = nk
       | Some m \<Rightarrow> \<exists>t m'. mac_compute (env_md V) (env_umac V) (env_um V) m q (if metm m then take (length plain) c else plain)
             SSH_DIGEST_MAX_LENGTH = Inr (t, m') \<and> wire = c @ take (mac_len m) t \<and> nk1 = set_mac m' nk"
    using seal by (auto simp: sealed_def)
  note l = crypt_length [OF agree d c]
  have attr: "cipher_authlen (ccipher cs1) = cipher_authlen (ccipher cs)" "block_size (ccipher cs1) = block_size (ccipher cs)"
    using pc.enc_attr [OF c] by simp_all
  have m1: "keys_match V W a b (ccipher cs1) \<longleftrightarrow> keys_match V W a b (ccipher cs)" for a b
    by (simp add: keys_match_def attr)
  show ?thesis
  proof (cases "keys_mac nk")
    case None
    then show ?thesis using that [of c "[]" nk'] c l mac m m1 p(6) by (simp add: keys_maclen_def tag_accepted_def)
  next
    case (Some k)
    obtain t k' where t: "mac_compute (env_md V) (env_umac V) (env_um V) k q (if metm k then take (length plain) c else plain)
        SSH_DIGEST_MAX_LENGTH = Inr (t, k')" "wire = c @ take (mac_len k) t" "nk1 = set_mac k' nk" using mac Some by auto
    note ok = p(9) [OF Some]
    have tl: "length t = mac_len k" using pm.computed [OF ok t(1)] by simp
    have "(if metm k then take (length plain) c else plain) = (if keys_etm nk then c else plain)"
      using Some l keys_mac_auth [OF Some] by (simp add: keys_etm_def)
    then have "tag_accepted W nk' q (if keys_etm nk then c else plain) t (set_mac k' nk')"
      using pm.accepted [OF ok t(1)] mac_compute_flags [OF t(1)] Some p(6) ops by (auto simp: tag_accepted_def same_ops_def)
    then show ?thesis using that [of c t "set_mac k' nk'"] c l t(2,3) tl m1 keys_match_set_mac [OF m Some t(1)] Some
      by (simp add: keys_maclen_def)
  qed
qed

text \<open>What is left of a packet once its length is known: \<open>k\<close> bytes of it have already been decrypted.\<close>

definition head_len :: "('d, 'u) newkeys option \<Rightarrow> nat" where
  "head_len nk = (if keys_aad nk \<noteq> 0 then 0 else keys_block nk)"

definition tail_opens where
  "tail_opens V W nk cr q plain c cs1 \<longleftrightarrow>
    (\<forall>rest. \<exists>cr1. cipher_crypt (env_evp W) (env_junk W) cr q (drop (head_len nk) c @ rest)
        (length plain - head_len nk - keys_aad nk) (keys_aad nk) (keys_auth nk) = Inr (drop (head_len nk) plain, cr1) \<and>
      cipher_sync (env_evp V) (env_junk V) (env_junk W) cs1 cr1)"

lemma block_le: "bs dvd length plain \<Longrightarrow> 6 \<le> length plain \<Longrightarrow> bs \<le> length plain"
  by (rule dvd_imp_le, assumption, linarith)

lemma head_len_le:
  assumes "keys_block nk dvd length plain - keys_aad nk" "6 \<le> length plain"
  shows "head_len nk + keys_aad nk \<le> length plain"
  using assms block_le [of "keys_block nk" plain] keys_aad_le [of nk] by (auto simp: head_len_def)

lemma whole_opens:
  assumes "keys_agree V W nk nk' cs cr" "same_ops V W" "keys_block nk dvd length plain - keys_aad nk" "6 \<le> length plain" "keys_aad nk \<noteq> 0"
    and "cipher_crypt (env_evp V) (env_junk V) cs q plain (length plain - keys_aad nk) (keys_aad nk) (keys_auth nk) = Inr (c, cs1)"
  shows "tail_opens V W nk cr q plain c cs1"
  using pc.whole [of "env_evp V" "env_junk V" "env_junk W" cs cr plain "keys_aad nk" "length plain - keys_aad nk" q c cs1]
    assms keys_match_parts(1,2) [of V W nk nk' "ccipher cs"] keys_aad_le [of nk]
  by (simp add: tail_opens_def head_len_def keys_agree_def same_ops_def)

lemma first_opens:
  assumes agree: "keys_agree V W nk nk' cs cr" and ops: "same_ops V W" and d: "keys_block nk dvd length plain" "6 \<le> length plain"
    and a: "keys_aad nk = 0"
    and c: "cipher_crypt (env_evp V) (env_junk V) cs q plain (length plain) 0 0 = Inr (c, cs1)"
    and i: "take (keys_block nk) inp = take (keys_block nk) c" "keys_block nk \<le> length inp"
  shows "\<exists>cr1. cipher_crypt (env_evp W) (env_junk W) cr q1 inp (keys_block nk) 0 0 = Inr (take (keys_block nk) plain, cr1) \<and>
    tail_opens V W nk cr1 q plain c cs1"
proof -
  let ?bs = "keys_block nk" and ?E = "env_evp V" and ?j = "env_junk V" and ?j' = "env_junk W"
  have auth: "keys_auth nk = 0" using a keys_aad_le(2) [of nk] by simp
  have inp: "inp = take ?bs c @ drop ?bs inp" using i by (metis append_take_drop_id)
  have s: "cipher_sync ?E ?j ?j' cs cr" "cipher_authlen (ccipher cs) = 0" "block_size (ccipher cs) = ?bs"
    using agree auth keys_match_parts(1,2) [of V W nk nk' "ccipher cs"] by (simp_all add: keys_agree_def)
  have le: "?bs \<le> length plain" using d by (rule block_le)
  have split: "\<exists>r1 r'. cipher_crypt ?E ?j' cr q1 inp ?bs 0 0 = Inr (take ?bs plain, r1) \<and>
      cipher_crypt ?E ?j' r1 q (drop ?bs c @ rest) (length plain - ?bs) 0 0 = Inr (drop ?bs plain, r') \<and>
      cipher_sync ?E ?j ?j' cs1 r'" for rest
    using pc.split [OF s(1,2), of plain "length plain" ?bs q c cs1 q1 "drop ?bs inp" q rest] s(3) d le c inp by simp
  obtain cr1 where "cipher_crypt ?E ?j' cr q1 inp ?bs 0 0 = Inr (take ?bs plain, cr1)" using split by blast
  then show ?thesis using split ops auth a by (simp add: tail_opens_def head_len_def same_ops_def)
qed


section \<open>Receiving\<close>

definition rx_ok where
  "rx_ok r \<longleftrightarrow> sshbuf_wf (pinput r) \<and> sshbuf_wf (incoming_packet r) \<and> writable (incoming_packet r) \<and>
    PACKET_MAX_SIZE + 4 \<le> max_size (incoming_packet r) \<and> \<not> pmux r \<and> packet_discard r = 0 \<and>
    (kex_done r \<longrightarrow> sshbuf_wf (outgoing_packet r) \<and> SSHBUF_SIZE_INIT \<le> max_size (outgoing_packet r))"

text \<open>The receiver waits for a packet of which it knows nothing, or of which it knows the length.\<close>

definition waiting :: "('e, 'd, 'u, 'z) pkt_env \<Rightarrow> ('e, 'd, 'u, 'z) pkt_env \<Rightarrow> ('d, 'u) newkeys option \<Rightarrow> 'e sshcipher_ctx \<Rightarrow> u32 \<Rightarrow> u32 \<Rightarrow>
    ('e, 'd, 'u, 'z) session_state \<Rightarrow> bool" where
  "waiting V W nk cs q pk r \<longleftrightarrow> rx_ok r \<and> packlen r = 0 \<and> seqnr (p_read r) = q \<and> packets (p_read r) = pk \<and>
    (\<exists>cr. receive_context r = Some cr \<and> keys_agree V W nk (newkeys_in r) cs cr)"

definition reading :: "('e, 'd, 'u, 'z) pkt_env \<Rightarrow> ('e, 'd, 'u, 'z) pkt_env \<Rightarrow> ('d, 'u) newkeys option \<Rightarrow> 'e sshcipher_ctx \<Rightarrow> u32 \<Rightarrow> u32 \<Rightarrow>
    byte list \<Rightarrow> byte list \<Rightarrow> 'e sshcipher_ctx \<Rightarrow> ('e, 'd, 'u, 'z) session_state \<Rightarrow> bool" where
  "reading V W nk cs q pk plain c cs1 r \<longleftrightarrow> rx_ok r \<and> packlen r = of_nat (length plain - 4) \<and>
    seqnr (p_read r) = q \<and> packets (p_read r) = pk \<and> contents (incoming_packet r) = take (head_len nk) plain \<and>
    keys_match V W nk (newkeys_in r) (ccipher cs) \<and> (\<exists>cr. receive_context r = Some cr \<and> tail_opens V W nk cr q plain c cs1)"

lemma framed_length:
  assumes "framed bs aad pkt plain" "6 \<le> length pkt"
  shows "10 \<le> length plain" "bs dvd length plain - aad" "plain = POKE_U32 (of_nat (length plain - 4)) @ drop 4 plain"
    "length pkt + 4 \<le> length plain" "length plain \<le> length pkt + 255"
proof -
  obtain p pad where f: "plain = POKE_U32 (of_nat (length plain - 4)) @ p # drop 5 pkt @ pad" "4 \<le> unat p"
      "bs dvd length plain - aad" "length plain = length pkt + unat p"
    using assms(1) unfolding framed_def by blast
  show "10 \<le> length plain" "bs dvd length plain - aad" "length pkt + 4 \<le> length plain" using f(2-4) assms(2) by simp_all
  show "length plain \<le> length pkt + 255" using f(4) unat_lt2p_byte [of p] by simp
  have "drop 4 plain = p # drop 5 pkt @ pad" using arg_cong [OF f(1), of "drop 4"] by simp
  then show "plain = POKE_U32 (of_nat (length plain - 4)) @ drop 4 plain" using f(1) by simp
qed

lemma peek_length:
  assumes "framed bs aad pkt plain" "6 \<le> length pkt" "4 \<le> n"
  shows "PEEK_U32 (take n plain) = of_nat (length plain - 4)" "PEEK_U32 plain = of_nat (length plain - 4)"
proof -
  let ?w = "of_nat (length plain - 4)"
  have e: "plain = POKE_U32 ?w @ drop 4 plain" by (rule framed_length(3) [OF assms(1,2)])
  then have "take n plain = take n (POKE_U32 ?w @ drop 4 plain)" by (rule arg_cong)
  then have "take n plain = POKE_U32 ?w @ take (n - 4) (drop 4 plain)" using assms(3) by simp
  then show "PEEK_U32 (take n plain) = ?w" by (simp only: PEEK_POKE_U32)
  show "PEEK_U32 plain = ?w" by (subst e) (rule PEEK_POKE_U32)
qed

lemma packlen_ok:
  assumes "10 \<le> n" "n \<le> PACKET_MAX_SIZE + 4"
  shows "\<not> bad_packlen (of_nat (n - 4))" "(of_nat (n - 4) :: u32) \<noteq> 0" "unat (of_nat (n - 4) :: u32) = n - 4"
proof -
  show u: "unat (of_nat (n - 4) :: u32) = n - 4"
    using assms by (simp only: unat_of_nat PACKET_MAX_SIZE_def) simp
  show "\<not> bad_packlen (of_nat (n - 4))" unfolding bad_packlen_def u using assms by linarith
  show "(of_nat (n - 4) :: u32) \<noteq> 0"
  proof
    assume z: "(of_nat (n - 4) :: u32) = 0"
    show False using u assms(1) unfolding z by simp
  qed
qed


text \<open>Finding the length: either not enough has arrived, or the receiver gets on to reading the packet.\<close>

lemma read_length_aad:
  assumes wait: "waiting V W nk cs q pk r" and ops: "same_ops V W" and fr: "framed (keys_block nk) (keys_aad nk) pkt plain" "6 \<le> length pkt"
    and big: "length plain \<le> PACKET_MAX_SIZE + 4" and aad: "keys_aad nk \<noteq> 0"
    and c: "cipher_crypt (env_evp V) (env_junk V) cs q plain (length plain - keys_aad nk) (keys_aad nk) (keys_auth nk) = Inr (c, cs1)"
    and inp: "contents (pinput r) @ rest = c @ str"
  shows "(\<exists>r'. read_length W r k = (Inr SSH_MSG_NONE, r') \<and> waiting V W nk cs q pk r' \<and> pinput r' = pinput r \<and> norekey r' = norekey r \<and> length (contents (pinput r)) < 4) \<or>
    (\<exists>r1. read_length W r k = k r1 \<and> reading V W nk cs q pk plain c cs1 r1 \<and> pinput r1 = pinput r \<and> newkeys_in r1 = newkeys_in r \<and> norekey r1 = norekey r)"
proof -
  obtain cr where cr: "receive_context r = Some cr" "keys_agree V W nk (newkeys_in r) cs cr"
      and r: "rx_ok r" "packlen r = 0" "seqnr (p_read r) = q" "packets (p_read r) = pk" using wait by (auto simp: waiting_def)
  have m: "keys_match V W nk (newkeys_in r) (ccipher cs)" and sync: "cipher_sync (env_evp V) (env_junk V) (env_junk W) cs cr"
    using cr(2) by (simp_all add: keys_agree_def)
  note p = keys_match_parts [OF m]
  note f = framed_length [OF fr]
  have a4: "keys_aad nk = 4" using aad by (simp add: keys_aad_def split: if_splits)
  have sync': "keys_agree V W nk (newkeys_in r) cs x" if "cipher_sync (env_evp V) (env_junk V) (env_junk W) cs x" for x
    using m that by (simp add: keys_agree_def)
  show ?thesis
  proof (cases "length (contents (pinput r)) < 4")
    case True
    obtain e where "cipher_get_length (env_junk W) cr q (contents (pinput r)) = (Inl e, cr)"
      using pc.length_short [OF sync True] by blast
    then have "read_length W r k = (Inr SSH_MSG_NONE, r\<lparr>receive_context := Some cr\<rparr>)"
      using r cr(1) aad p(7) by (simp add: read_length_def)
    moreover have "r\<lparr>receive_context := Some cr\<rparr> = r" using cr(1) by simp
    ultimately show ?thesis using wait True by auto
  next
    case False
    have "take 4 (contents (pinput r)) = take 4 (contents (pinput r) @ rest)" using False by simp
    also have "\<dots> = take 4 c" using crypt_length [OF cr(2) f(2) _ c] f(1) unfolding inp by simp
    finally obtain cr' where g: "cipher_get_length (env_junk W) cr q (contents (pinput r)) = (Inr (PEEK_U32 plain), cr')"
        "cipher_sync (env_evp V) (env_junk V) (env_junk W) cs cr'"
      using pc.length_read [OF sync, of plain "length plain - 4" q c cs1 "contents (pinput r)"] c a4 p(1) f(1) False by auto
    note pk = packlen_ok [OF f(1) big] peek_length(2) [OF fr order_refl]
    let ?b = "sshbuf_reset (env_alloc W) (incoming_packet r)"
    let ?r1 = "r\<lparr>receive_context := Some cr', packlen := of_nat (length plain - 4), incoming_packet := ?b\<rparr>"
    have run: "read_length W r k = k ?r1"
      using r cr(1) aad p(7) g(1) pk by (simp add: read_length_def Let_def)
    have b: "sshbuf_wf ?b" "contents ?b = []"
      using sshbuf_reset_wf [of "incoming_packet r" "env_alloc W"] r(1) by (auto simp: rx_ok_def PACKET_MAX_SIZE_def sshbuf_consts)
    have "rx_ok ?r1"
      using r(1) b(1) reset_header [of "incoming_packet r" "env_alloc W"] same_header_writable [of "incoming_packet r" ?b]
      by (simp add: rx_ok_def same_header_def)
    moreover have "tail_opens V W nk cr' q plain c cs1"
      using whole_opens [OF sync' [OF g(2)] ops f(2) _ aad c] f(1) by simp
    ultimately have "reading V W nk cs q pk plain c cs1 ?r1" using r(3,4) b(2) m aad by (simp add: reading_def head_len_def)
    then show ?thesis using run by auto
  qed
qed

lemma read_length_block:
  assumes wait: "waiting V W nk cs q pk r" and ops: "same_ops V W" and fr: "framed (keys_block nk) (keys_aad nk) pkt plain" "6 \<le> length pkt"
    and big: "length plain \<le> PACKET_MAX_SIZE + 4" and aad: "keys_aad nk = 0" and al: "\<forall>n. malloc_ok (env_alloc W) n"
    and c: "cipher_crypt (env_evp V) (env_junk V) cs q plain (length plain - keys_aad nk) (keys_aad nk) (keys_auth nk) = Inr (c, cs1)"
    and inp: "contents (pinput r) @ rest = c @ str"
  shows "(read_length W r k = (Inr SSH_MSG_NONE, r) \<and> length (contents (pinput r)) < keys_block nk) \<or>
    (\<exists>r1. read_length W r k = k r1 \<and> reading V W nk cs q pk plain c cs1 r1 \<and>
      contents (pinput r1) = drop (keys_block nk) (contents (pinput r)) \<and> keys_block nk \<le> length (contents (pinput r)) \<and>
      newkeys_in r1 = newkeys_in r \<and> norekey r1 = norekey r)"
proof -
  let ?bs = "keys_block nk" and ?inp = "contents (pinput r)"
  obtain cr where cr: "receive_context r = Some cr" "keys_agree V W nk (newkeys_in r) cs cr"
      and r: "rx_ok r" "packlen r = 0" "seqnr (p_read r) = q" "packets (p_read r) = pk" using wait by (auto simp: waiting_def)
  have m: "keys_match V W nk (newkeys_in r) (ccipher cs)" using cr(2) by (simp add: keys_agree_def)
  note p = keys_match_parts [OF m]
  note f = framed_length [OF fr]
  have auth: "keys_auth nk = 0" using aad keys_aad_le(2) [of nk] by simp
  have wfi: "sshbuf_wf (pinput r)" using r(1) by (simp add: rx_ok_def)
  have bn: "keys_block (newkeys_in r) = ?bs" "keys_aad (newkeys_in r) = 0" using p(2,4,7) aad by simp_all
  show ?thesis
  proof (cases "length ?inp < ?bs")
    case True
    then have "read_length W r k = (Inr SSH_MSG_NONE, r)"
      using r(2) bn wfi by (simp add: read_length_def Let_def)
    then show ?thesis using True by simp
  next
    case False
    have bsl: "?bs \<le> length plain" using block_le [of ?bs plain] f(1,2) aad by simp
    have "take ?bs ?inp = take ?bs (?inp @ rest)" using False by simp
    also have "\<dots> = take ?bs c" using crypt_length [OF cr(2) f(2) _ c] f(1) bsl unfolding inp by simp
    finally obtain cr1 where d: "cipher_crypt (env_evp W) (env_junk W) cr (seqnr (p_send r)) ?inp ?bs 0 0 = Inr (take ?bs plain, cr1)"
        "tail_opens V W nk cr1 q plain c cs1"
      using first_opens [OF cr(2) ops _ _ aad, of plain q c cs1 ?inp "seqnr (p_send r)"] c aad auth f(1,2) False by auto
    let ?b0 = "sshbuf_reset (env_alloc W) (incoming_packet r)"
    have b0: "sshbuf_wf ?b0" "contents ?b0 = []" "same_header (incoming_packet r) ?b0"
      using sshbuf_reset_wf [of "incoming_packet r" "env_alloc W"] r(1) by (auto simp: rx_ok_def PACKET_MAX_SIZE_def sshbuf_consts)
    have bs16: "?bs \<le> 16" "4 \<le> ?bs" using p(2,5) by auto
    obtain q1 b where res: "sshbuf_reserve (env_alloc W) ?b0 ?bs = (Inr q1, b)"
      using reserve_ok [OF b0(1) al, of ?bs] b0(2,3) r(1) bs16 same_header_writable [OF b0(3)]
      by (auto simp: rx_ok_def same_header_def PACKET_MAX_SIZE_def)
    define b1 where "b1 = sshbuf_write b q1 (take ?bs plain)"
    note w = reserve_write [OF b0(1) res, of "take ?bs plain", folded b1_def]
    have w1: "sshbuf_wf b1" "contents b1 = take ?bs plain" "same_header (incoming_packet r) b1"
      using w b0 bsl same_header_trans [OF b0(3)] by simp_all
    obtain i where i: "sshbuf_consume (pinput r) ?bs = (Inr (), i)" "sshbuf_wf i" "contents i = drop ?bs ?inp"
      using sshbuf_consume_correct [OF wfi, of ?bs] False by auto
    note pl = packlen_ok [OF f(1) big] peek_length(1) [OF fr bs16(2)]
    let ?r1 = "r\<lparr>incoming_packet := b1, receive_context := Some cr1, packlen := of_nat (length plain - 4), pinput := i\<rparr>"
    have run: "read_length W r k = k ?r1"
      using r(2) cr(1) bn wfi res d(1) False pl w1(2) i(1)
      by (simp add: read_length_def Let_def b1_def [symmetric] on_input_def)
    have "rx_ok ?r1" using r(1) w1 i(2) same_header_writable [OF w1(3)] by (simp add: rx_ok_def same_header_def)
    then have "reading V W nk cs q pk plain c cs1 ?r1" using r(3,4) w1(2) m aad d(2) by (simp add: reading_def head_len_def)
    then show ?thesis using run i(3) False by auto
  qed
qed


text \<open>Decrypting and checking a packet that has arrived completely.\<close>

lemma decrypt_verify:
  assumes read: "reading V W nk cs q pk plain c cs1 r" and ops: "same_ops V W" and fr: "framed (keys_block nk) (keys_aad nk) pkt plain" "6 \<le> length pkt"
    and big: "length plain \<le> PACKET_MAX_SIZE + 4" and al: "\<forall>n. malloc_ok (env_alloc W) n"
    and c: "length c = length plain + keys_auth nk" "length tag = keys_maclen nk"
    and tag: "tag_accepted W (newkeys_in r) q (if keys_etm nk then c else plain) tag nk1'"
    and inp: "contents (pinput r) = drop (head_len nk) (c @ tag) @ rest"
    and n: "n = length plain - head_len nk - keys_aad nk"
  shows "\<exists>b i cr1. decrypt_incoming W n r (\<lambda>s. verify_incoming W n s k) =
      k (r\<lparr>newkeys_in := nk1', incoming_packet := b, receive_context := Some cr1, pinput := i\<rparr>) \<and>
    sshbuf_wf b \<and> contents b = plain \<and> same_header (incoming_packet r) b \<and> sshbuf_wf i \<and> contents i = rest \<and>
    cipher_sync (env_evp V) (env_junk V) (env_junk W) cs1 cr1"
proof -
  let ?k = "head_len nk" and ?nk = "newkeys_in r" and ?in = "incoming_packet r"
  have m: "keys_match V W nk ?nk (ccipher cs)" and r: "rx_ok r" "seqnr (p_read r) = q" "contents ?in = take ?k plain"
    using read by (simp_all add: reading_def)
  note p = keys_match_parts [OF m]
  note f = framed_length [OF fr]
  have kl: "?k + keys_aad nk \<le> length plain" using head_len_le [of nk plain] f(1,2) by simp
  obtain cr cr1 where cr: "receive_context r = Some cr" and sync: "cipher_sync (env_evp V) (env_junk V) (env_junk W) cs1 cr1"
      and dec: "cipher_crypt (env_evp W) (env_junk W) cr q (drop ?k c @ tag @ rest) n (keys_aad nk) (keys_auth nk) = Inr (drop ?k plain, cr1)"
    using read unfolding reading_def tail_opens_def n by blast
  have inp': "contents (pinput r) = drop ?k c @ tag @ rest" using inp c(1) kl by simp
  have an: "keys_aad nk + n = length (drop ?k plain)" using kl n by simp
  obtain q1 b0 where res: "sshbuf_reserve (env_alloc W) ?in (keys_aad nk + n) = (Inr q1, b0)"
    using reserve_ok [of ?in "env_alloc W" "keys_aad nk + n"] r al an big kl by (auto simp: rx_ok_def)
  define b where "b = sshbuf_write b0 q1 (drop ?k plain)"
  have "sshbuf_wf ?in" using r(1) by (simp add: rx_ok_def)
  note w = reserve_write [OF this res an [symmetric], folded b_def]
  have w2: "contents b = plain" using w(2) r(3) by simp
  have wfi: "sshbuf_wf (pinput r)" using r(1) by (simp add: rx_ok_def)
  have cl: "keys_aad nk + n + keys_auth nk = length (drop ?k c)" using c(1) kl n by simp
  obtain i where i: "sshbuf_consume (pinput r) (keys_aad nk + n + keys_auth nk) = (Inr (), i)" "sshbuf_wf i" "contents i = tag @ rest"
    using sshbuf_consume_correct [OF wfi, of "keys_aad nk + n + keys_auth nk"] inp' unfolding cl by auto
  obtain j where j: "sshbuf_consume i (length tag) = (Inr (), j)" "sshbuf_wf j" "contents j = rest"
    using sshbuf_consume_correct [OF i(2), of "length tag"] i(3) by auto
  let ?R = "\<lambda>nk i. r\<lparr>newkeys_in := nk, incoming_packet := b, receive_context := Some cr1, pinput := i\<rparr>"
  have pn: "keys_auth ?nk = keys_auth nk" "keys_aad ?nk = keys_aad nk" "keys_etm ?nk = keys_etm nk" using p(1,3,7,8) by simp_all
  note eval = pn cr res dec [folded inp'] i(1) r(2) b_def [symmetric] decrypt_incoming_def verify_incoming_def check_mac_in_def Let_def on_input_def
  show ?thesis
  proof (cases "keys_mac nk")
    case None
    then have e: "nk1' = ?nk" "\<not> keys_etm nk" "tag = []" using tag p(6) c(2) by (simp_all add: tag_accepted_def keys_etm_def keys_maclen_def)
    have "decrypt_incoming W n r (\<lambda>s. verify_incoming W n s k) = k (?R nk1' i)" using None p(6) e(1,2) by (simp add: eval)
    then show ?thesis using w(1,3) w2 i(2,3) e(3) sync by auto
  next
    case (Some mm)
    obtain m' where t: "\<And>rest. mac_check (env_md W) (env_umac W) (env_um W) mm q (if keys_etm nk then c else plain) (tag @ rest) (mac_len mm) = Inr m'"
        "menabled m' = menabled mm" "metm m' = metm mm" "mac_len m' = mac_len mm" "nk1' = set_mac m' ?nk"
      using tag Some p(6) by (auto simp: tag_accepted_def)
    have auth: "keys_auth nk = 0" using keys_mac_auth [OF Some] by simp
    have ml: "length tag = mac_len mm" using c(2) Some by (simp add: keys_maclen_def)
    have km: "keys_mac ?nk = Some mm" "keys_mac nk1' = Some m'" using Some p(6) keys_mac_set_mac [of ?nk mm m'] t by simp_all
    have "decrypt_incoming W n r (\<lambda>s. verify_incoming W n s k) = k (?R nk1' j)"
    proof (cases "metm mm")
      case True
      then have e: "keys_etm nk" "?k = 0" using Some by (simp_all add: keys_etm_def head_len_def keys_aad_def)
      have cc: "take (keys_aad nk + n) (contents (pinput r)) = c" "drop (keys_aad nk + n + keys_auth nk) (contents (pinput r)) = tag @ rest"
        using inp' an e(2) c(1) auth by simp_all
      show ?thesis
        using True e(1) km t ml j(1) by (simp add: eval cc)
    next
      case False
      then have e: "\<not> keys_etm nk" using Some by (simp add: keys_etm_def)
      show ?thesis
        using False e km t ml j(1) i(3) w2
        by (simp add: eval) (intro arg_cong [of _ _ k] session_state.equality, simp_all)
    qed
    then show ?thesis using w(1,3) w2 j(2,3) sync by blast
  qed
qed


lemma get_u8_head:
  assumes "sshbuf_wf b" "contents b = t # rest"
  shows "\<exists>b'. sshbuf_get_u8 b = (Inr t, b') \<and> sshbuf_wf b' \<and> contents b' = rest \<and> same_header b b'"
proof -
  obtain b' where b': "sshbuf_consume b 1 = (Inr (), b')" "sshbuf_wf b'" "contents b' = drop 1 (contents b)" "same_header b b'"
    using sshbuf_consume_correct [OF assms(1), of 1] assms(2) by auto
  have "sshbuf_get_u8 b = (Inr (mem_bytes (bmem b') ! off b), b')" using b'(1) by (simp add: sshbuf_get_u8_def)
  moreover obtain b2 where "sshbuf_get_u8 b = (Inr t, b2)" using q8.get_val_ok [OF assms(1), of t rest] assms(2) by auto
  ultimately show ?thesis using b' assms(2) by auto
qed

text \<open>Taking the payload out of a decrypted packet.\<close>

lemma finish_incoming_framed:
  assumes fr: "framed bs aad pkt plain" "6 \<le> length pkt" and wf: "sshbuf_wf (incoming_packet r)" "contents (incoming_packet r) = plain"
    and nc: "\<not> keys_comp (newkeys_in r)"
    and t: "SSH2_MSG_MIN \<le> pkt ! 5" "pkt ! 5 < SSH2_MSG_LOCAL_MIN" "pkt ! 5 \<noteq> SSH2_MSG_USERAUTH_SUCCESS"
  shows "\<exists>b. sshbuf_wf b \<and> contents b = drop 6 pkt \<and> same_header (incoming_packet r) b \<and>
    finish_incoming W msg r = (let r1 = r\<lparr>incoming_packet := b, packlen := 0\<rparr> in
      if ssh_packet_need_rekeying W 0 r1 then seq_ok (kex_start_rekex W r1) (\<lambda>_ s. (Inr (pkt ! 5), s)) else (Inr (pkt ! 5), r1))"
proof -
  let ?b = "incoming_packet r"
  obtain p pad where f: "plain = POKE_U32 (of_nat (length plain - 4)) @ p # drop 5 pkt @ pad" "length pad = unat p" "4 \<le> unat p"
    using fr(1) unfolding framed_def by blast
  have p4: "contents ?b ! 4 = p" using wf(2) arg_cong [OF f(1), of "\<lambda>l. l ! 4"] by (simp add: nth_append)
  have d5: "drop 5 (contents ?b) = drop 5 pkt @ pad" using wf(2) arg_cong [OF f(1), of "drop 5"] by simp
  have tt: "\<not> pkt ! 5 < SSH2_MSG_MIN" "\<not> SSH2_MSG_LOCAL_MIN \<le> pkt ! 5" using t by (simp_all add: not_less not_le)
  have "\<not> p < 4" using f(3) by (simp add: word_less_nat_alt)
  moreover obtain b1 where b1: "sshbuf_consume ?b (4 + 1) = (Inr (), b1)" "sshbuf_wf b1" "contents b1 = drop 5 pkt @ pad" "same_header ?b b1"
    using sshbuf_consume_correct [OF wf(1), of "4 + 1"] wf(2) framed_length(1) [OF fr] d5 by auto
  moreover obtain b2 where b2: "sshbuf_consume_end b1 (unat p) = (Inr (), b2)" "sshbuf_wf b2" "contents b2 = drop 5 pkt" "same_header b1 b2"
    using sshbuf_consume_end_correct [OF b1(2), of "unat p"] b1(3) f(2) by auto
  moreover obtain b3 where b3: "sshbuf_get_u8 b2 = (Inr (pkt ! 5), b3)" "sshbuf_wf b3" "contents b3 = drop 6 pkt" "same_header b2 b3"
    using get_u8_head [OF b2(2), of "pkt ! 5" "drop 6 pkt"] b2(3) fr(2) Cons_nth_drop_Suc [of 5 pkt] by auto
  ultimately have "finish_incoming W msg r = (let r1 = r\<lparr>incoming_packet := b3, packlen := 0\<rparr> in
      if ssh_packet_need_rekeying W 0 r1 then seq_ok (kex_start_rekex W r1) (\<lambda>_ s. (Inr (pkt ! 5), s)) else (Inr (pkt ! 5), r1))"
    using nc t(3) tt p4 by (simp add: finish_incoming_def Let_def on_incoming_def uncompress_incoming_def)
  then show ?thesis using b3(2,3) same_header_trans [OF b1(4) same_header_trans [OF b2(4) b3(4)]] by blast
qed

section \<open>Starting a key exchange leaves the receiving side alone\<close>

text \<open>What the receiving code depends on, and the flag that a key exchange is complete.\<close>

definition rx_view where
  "rx_view s = (receive_context s, pinput s, incoming_packet s, newkeys_in s, p_read s, packlen s, packet_discard s, pmux s, norekey s, kex_done s)"

lemma rx_view_updates [simp]:
  "rx_view (s\<lparr>compression_buffer := cb\<rparr>) = rx_view s" "rx_view (s\<lparr>compression_out := z\<rparr>) = rx_view s"
  "rx_view (s\<lparr>outgoing_packet := b\<rparr>) = rx_view s" "rx_view (s\<lparr>poutput := b\<rparr>) = rx_view s" "rx_view (s\<lparr>extra_pad := x\<rparr>) = rx_view s"
  "rx_view (s\<lparr>newkeys_out := nk\<rparr>) = rx_view s" "rx_view (s\<lparr>send_context := cc\<rparr>) = rx_view s" "rx_view (s\<lparr>p_send := ps\<rparr>) = rx_view s"
  "rx_view (s\<lparr>rekeying := f\<rparr>) = rx_view s" "rx_view (s\<lparr>kex_my := b\<rparr>) = rx_view s"
  "rx_view (s\<lparr>kex_init_sent := f\<rparr>) = rx_view s"
  by (simp_all add: rx_view_def)

lemma seq_ok_rx:
  assumes "rx_view (snd x) = v" "\<And>a s. rx_view (snd (k a s)) = rx_view s"
  shows "rx_view (snd (seq_ok x k)) = v"
  using assms by (cases x) (auto simp: seq_ok_def split: sum.splits)

lemma seq_ok_rx_run:
  assumes "rx_view (snd x) = v" "\<And>a s. x = (Inr a, s) \<Longrightarrow> rx_view (snd (k a s)) = rx_view s"
  shows "rx_view (snd (seq_ok x k)) = v"
  using assms by (cases x) (auto simp: seq_ok_def split: sum.splits)

lemma on_buffers_rx [simp]: "rx_view (snd (on_outgoing f s)) = rx_view s" "rx_view (snd (on_output f s)) = rx_view s"
  by (simp_all add: on_outgoing_def on_output_def split: prod.splits)

lemma fail_rx [simp]: "snd (fail e s) = s"
  by (simp add: fail_def)

lemma compress_outgoing_rx: "rx_view (snd (compress_outgoing V s)) = rx_view s"
  unfolding compress_outgoing_def
  by (auto simp: Let_def split: option.split sum.split prod.split intro!: seq_ok_rx)

lemma pad_outgoing_rx: "rx_view (snd (pad_outgoing V s)) = rx_view s"
  unfolding pad_outgoing_def
  by (auto simp: Let_def split: option.split sum.split prod.split intro!: seq_ok_rx)

lemma count_outgoing_rx: "rx_view (snd (count_outgoing V s)) = rx_view s"
  by (simp add: count_outgoing_def Let_def)

lemma crypt_outgoing_rx: "rx_view (snd (crypt_outgoing V s)) = rx_view s"
  unfolding crypt_outgoing_def Let_def
  by (auto split: option.split sum.split prod.split)


lemma send2_wrapped_rx:
  assumes "contents (outgoing_packet s) ! 5 \<notin> {SSH2_MSG_NEWKEYS, SSH2_MSG_USERAUTH_SUCCESS}"
  shows "rx_view (snd (ssh_packet_send2_wrapped V s)) = rx_view s"
  using assms unfolding ssh_packet_send2_wrapped_def Let_def
  by (auto intro!: seq_ok_rx compress_outgoing_rx pad_outgoing_rx crypt_outgoing_rx count_outgoing_rx)

lemma send2_kexinit_rx:
  assumes "6 \<le> length (contents (outgoing_packet s)) \<longrightarrow> contents (outgoing_packet s) ! 5 = SSH2_MSG_KEXINIT" "sshbuf_wf (outgoing_packet s)"
  shows "rx_view (snd (send2_kexinit V s)) = rx_view s"
  using assms send2_wrapped_rx [of "s\<lparr>rekeying := True\<rparr>" V] by (auto simp: send2_kexinit_def msg_types)

lemma send_mux_rx: "rx_view (snd (ssh_packet_send_mux V s)) = rx_view s"
  unfolding ssh_packet_send_mux_def by (auto simp: Let_def intro!: seq_ok_rx)

lemma kexinit_packet:
  assumes "sshbuf_wf (outgoing_packet s)" "SSHBUF_SIZE_INIT \<le> max_size (outgoing_packet s)"
    and "sshpkt_start V SSH2_MSG_KEXINIT s = (Inr u, s1)" "on_outgoing (\<lambda>b. sshbuf_putb A b (Some v)) s1 = (Inr u', s2)"
  shows "sshbuf_wf (outgoing_packet s2)" "contents (outgoing_packet s2) ! 5 = SSH2_MSG_KEXINIT"
proof -
  let ?b = "sshbuf_reset (env_alloc V) (outgoing_packet s)"
  obtain b1 where b1: "sshbuf_put (env_alloc V) ?b [0, 0, 0, 0, 0, SSH2_MSG_KEXINIT] = (Inr (), b1)" "s1 = s\<lparr>outgoing_packet := b1\<rparr>"
    using assms(3) by (auto simp: sshpkt_start_def on_outgoing_def split: prod.splits)
  have c: "sshbuf_wf b1" "contents b1 = [0, 0, 0, 0, 0, SSH2_MSG_KEXINIT]"
    using sshbuf_put_correct [OF sshbuf_reset_wf(1) [OF assms(1,2)] b1(1)] sshbuf_reset_wf(2) [OF assms(1,2)] by simp_all
  obtain w where "sshbuf_put A b1 w = (Inr (), outgoing_packet s2)"
    using assms(4) b1(2) by (auto simp: on_outgoing_def sshbuf_putb_def split: prod.splits)
  from sshbuf_put_correct [OF c(1) this]
  show "sshbuf_wf (outgoing_packet s2)" "contents (outgoing_packet s2) ! 5 = SSH2_MSG_KEXINIT" using c(2) by simp_all
qed

lemma kex_start_rekex_rx:
  assumes "sshbuf_wf (outgoing_packet s)" "SSHBUF_SIZE_INIT \<le> max_size (outgoing_packet s)"
  shows "rx_view (snd (kex_start_rekex V s)) = rx_view (s\<lparr>kex_done := False\<rparr>)"
proof (cases "\<not> kex_done s \<or> kex_init_sent s \<or> sshbuf_len (kex_my s) < KEX_COOKIE_LEN \<or> sshbuf_mutable_ptr (kex_my s) = None")
  case True
  then show ?thesis by (auto simp: kex_start_rekex_def kex_send_kexinit_def Let_def rx_view_def)
next
  case False
  then obtain p where p: "sshbuf_mutable_ptr (kex_my s) = Some p" by auto
  let ?s = "s\<lparr>kex_done := False, kex_my := sshbuf_write (kex_my s) p (env_cookie V)\<rparr>"
  have st: "rx_view (snd (sshpkt_start V SSH2_MSG_KEXINIT ?s)) = rx_view (s\<lparr>kex_done := False\<rparr>)" by (simp add: sshpkt_start_def)
  have eq: "kex_start_rekex V s = seq_ok (sshpkt_start V SSH2_MSG_KEXINIT ?s) (\<lambda>_ s.
      seq_ok (on_outgoing (\<lambda>b. sshbuf_putb (env_alloc V) b (Some (kex_my s))) s) (\<lambda>_ s.
      seq_ok (if pmux s then ssh_packet_send_mux V s else send2_kexinit V s) (\<lambda>_ s. (Inr (), s\<lparr>kex_init_sent := True\<rparr>))))"
    using False p by (simp add: kex_start_rekex_def kex_send_kexinit_def Let_def)
  have sent: "rx_view (snd (if pmux s2 then ssh_packet_send_mux V s2 else send2_kexinit V s2)) = rx_view s2"
    if "sshpkt_start V SSH2_MSG_KEXINIT ?s = (Inr u, s1)" "on_outgoing (\<lambda>b. sshbuf_putb (env_alloc V) b (Some (kex_my s1))) s1 = (Inr u', s2)" for u u' s1 s2
    using kexinit_packet [OF _ _ that] assms send2_kexinit_rx [of s2 V] send_mux_rx [of V s2] by auto
  show ?thesis unfolding eq
  proof (rule seq_ok_rx_run [OF st])
    fix u s1 assume a: "sshpkt_start V SSH2_MSG_KEXINIT ?s = (Inr u, s1)"
    show "rx_view (snd (seq_ok (on_outgoing (\<lambda>b. sshbuf_putb (env_alloc V) b (Some (kex_my s1))) s1) (\<lambda>_ s.
        seq_ok (if pmux s then ssh_packet_send_mux V s else send2_kexinit V s) (\<lambda>_ s. (Inr (), s\<lparr>kex_init_sent := True\<rparr>))))) = rx_view s1"
      by (rule seq_ok_rx_run [OF on_buffers_rx(1)], rule seq_ok_rx_run [OF sent [OF a]]) simp_all
  qed
qed


section \<open>One call of the receiver\<close>

text \<open>How a call ends that takes a packet off the input: it may start a key exchange.\<close>

definition got where
  "got W t r = (if ssh_packet_need_rekeying W 0 r then seq_ok (kex_start_rekex W r) (\<lambda>_ s. (Inr t, s)) else (Inr t, r))"

lemma append_prefix_drop: "a @ rest = w @ str \<Longrightarrow> length w \<le> length a \<Longrightarrow> a = w @ drop (length w) a"
  by (metis append_eq_append_conv_if append_eq_conv_conj append_take_drop_id)

lemma need_bytes_tail:
  assumes "head_len nk + keys_aad nk \<le> n" "10 \<le> n" "n \<le> PACKET_MAX_SIZE + 4" "keys_block nk \<in> {8, 16}"
  shows "unat (need_bytes (keys_aad nk) (keys_block nk) (of_nat (n - 4))) = n - head_len nk - keys_aad nk"
proof (cases "keys_aad nk = 0")
  case False
  then have "keys_aad nk = 4" "head_len nk = 0" by (auto simp: keys_aad_def head_len_def split: if_splits)
  then show ?thesis using packlen_ok(3) [OF assms(2,3)] by (simp add: need_bytes_def)
next
  case True
  have "(4 :: u32) + of_nat (n - 4) = of_nat (4 + (n - 4))" by (simp only: of_nat_add) simp
  then have "(4 :: u32) + of_nat (n - 4) = of_nat n" using assms(2) by simp
  then have "need_bytes (keys_aad nk) (keys_block nk) (of_nat (n - 4)) = of_nat (n - keys_block nk)"
    using assms(1) True by (simp add: need_bytes_def head_len_def of_nat_diff)
  then show ?thesis
    using assms True by (simp only: unat_of_nat PACKET_MAX_SIZE_def head_len_def) simp
qed

lemma read_rest_framed:
  assumes read: "reading V W nk cs q pk plain c cs1 r" and ops: "same_ops V W" and fr: "framed (keys_block nk) (keys_aad nk) pkt plain" "6 \<le> length pkt"
    and big: "length plain \<le> PACKET_MAX_SIZE + 4" and al: "\<forall>n. malloc_ok (env_alloc W) n"
    and c: "length c = length plain + keys_auth nk" "length tag = keys_maclen nk"
    and tag: "tag_accepted W (newkeys_in r) q (if keys_etm nk then c else plain) tag nk1'" "keys_match V W nk1 nk1' (ccipher cs1)"
    and inp: "contents (pinput r) @ rest = drop (head_len nk) (c @ tag) @ str"
    and t: "SSH2_MSG_MIN \<le> pkt ! 5" "pkt ! 5 < SSH2_MSG_LOCAL_MIN" "pkt ! 5 \<noteq> SSH2_MSG_USERAUTH_SUCCESS"
    and wrap: "pk + 1 \<noteq> 0 \<or> norekey r"
  shows "if length (contents (pinput r)) < length (drop (head_len nk) (c @ tag)) then read_rest W msg r = (Inr SSH_MSG_NONE, r)
    else \<exists>r1. waiting V W nk1 cs1 (q + 1) (pk + 1) r1 \<and> contents (incoming_packet r1) = drop 6 pkt \<and> norekey r1 = norekey r \<and>
      contents (pinput r1) = drop (length (drop (head_len nk) (c @ tag))) (contents (pinput r)) \<and> read_rest W msg r = got W (pkt ! 5) r1"
proof -
  let ?w = "drop (head_len nk) (c @ tag)" and ?nk = "newkeys_in r"
  define n where "n = length plain - head_len nk - keys_aad nk"
  have m: "keys_match V W nk ?nk (ccipher cs)" and rx: "rx_ok r" and r: "seqnr (p_read r) = q" "packets (p_read r) = pk"
      "packlen r = of_nat (length plain - 4)"
    using read by (simp_all add: reading_def)
  note p = keys_match_parts [OF m]
  note f = framed_length [OF fr]
  have kl: "head_len nk + keys_aad nk \<le> length plain" using head_len_le [of nk plain] f(1,2) by simp
  have same: "keys_block ?nk = keys_block nk" "keys_aad ?nk = keys_aad nk" "keys_auth ?nk = keys_auth nk" "keys_mac ?nk = keys_mac nk"
    using p(1-4,6,7) by simp_all
  have need: "unat (need_bytes (keys_aad nk) (keys_block nk) (packlen r)) = n"
    using need_bytes_tail [OF kl f(1) big] p(2,5) r(3) n_def by simp
  have "keys_block nk dvd n" using f(2) by (auto simp: n_def head_len_def intro: dvd_diff_nat)
  moreover have len: "keys_aad nk + n + keys_auth nk + (case keys_mac nk of None \<Rightarrow> 0 | Some m \<Rightarrow> mac_len m) = length ?w"
    using c kl by (simp add: n_def keys_maclen_def)
  moreover have "sshbuf_wf (pinput r)" using rx by (simp add: rx_ok_def)
  ultimately have rest: "read_rest W msg r = (if length (contents (pinput r)) < length ?w then (Inr SSH_MSG_NONE, r)
      else decrypt_incoming W n r (\<lambda>s. verify_incoming W n s (\<lambda>s. count_incoming s (finish_incoming W msg))))"
    by (simp add: read_rest_def Let_def same need len del: length_drop length_append)
  show ?thesis
  proof (cases "length (contents (pinput r)) < length ?w")
    case False
    have i: "contents (pinput r) = ?w @ drop (length ?w) (contents (pinput r))"
      using append_prefix_drop [OF inp] False by (simp only: not_less)
    obtain b j cr1 where d: "decrypt_incoming W n r (\<lambda>s. verify_incoming W n s (\<lambda>s. count_incoming s (finish_incoming W msg))) =
        count_incoming (r\<lparr>newkeys_in := nk1', incoming_packet := b, receive_context := Some cr1, pinput := j\<rparr>) (finish_incoming W msg)"
        "sshbuf_wf b" "contents b = plain" "same_header (incoming_packet r) b" "sshbuf_wf j"
        "contents j = drop (length ?w) (contents (pinput r))" "cipher_sync (env_evp V) (env_junk V) (env_junk W) cs1 cr1"
      using decrypt_verify [OF read ops fr big al c tag(1) i n_def] by blast
    obtain ps where ps: "count_incoming (r\<lparr>newkeys_in := nk1', incoming_packet := b, receive_context := Some cr1, pinput := j\<rparr>) (finish_incoming W msg) =
        finish_incoming W msg (r\<lparr>newkeys_in := nk1', incoming_packet := b, receive_context := Some cr1, pinput := j, p_read := ps\<rparr>)"
        "seqnr ps = q + 1" "packets ps = pk + 1"
      using wrap r(1,2) by (auto simp: count_incoming_def Let_def)
    let ?r = "r\<lparr>newkeys_in := nk1', incoming_packet := b, receive_context := Some cr1, pinput := j, p_read := ps\<rparr>"
    note q = keys_match_parts(11) [OF tag(2)]
    obtain b' where b': "sshbuf_wf b'" "contents b' = drop 6 pkt" "same_header b b'"
        "finish_incoming W msg ?r = got W (pkt ! 5) (?r\<lparr>incoming_packet := b', packlen := 0\<rparr>)"
      using finish_incoming_framed [OF fr, of ?r W msg] d(2,3) q t by (auto simp: got_def Let_def)
    note h = same_header_trans [OF d(4) b'(3)]
    have "waiting V W nk1 cs1 (q + 1) (pk + 1) (?r\<lparr>incoming_packet := b', packlen := 0\<rparr>)"
      using rx b'(1) h same_header_writable [OF h] d(5,7) ps(2,3) tag(2)
      by (simp add: waiting_def rx_ok_def keys_agree_def same_header_def)
    moreover have "read_rest W msg r = got W (pkt ! 5) (?r\<lparr>incoming_packet := b', packlen := 0\<rparr>)"
      unfolding rest if_not_P [OF False] d(1) ps(1) b'(4) ..
    ultimately show ?thesis unfolding if_not_P [OF False] using d(6) b'(2)
      by (intro exI [of _ "?r\<lparr>incoming_packet := b', packlen := 0\<rparr>"]) simp
  next
    case True
    show ?thesis unfolding rest if_P [OF True] ..
  qed
qed


lemma head_len_wire:
  assumes "keys_block nk dvd length plain - keys_aad nk" "6 \<le> length plain" "length c = length plain + keys_auth nk"
  shows "head_len nk \<le> length (c @ tag)"
  using head_len_le [OF assms(1,2)] assms(3) by simp

text \<open>The packet \<open>pkt\<close> has been sealed, and the receiver has read its length; \<open>w\<close> is the rest of it on the wire.\<close>

definition sendable :: "byte list \<Rightarrow> bool" where
  "sendable pkt \<longleftrightarrow> 6 \<le> length pkt \<and> length pkt + 251 \<le> PACKET_MAX_SIZE \<and> SSH2_MSG_MIN \<le> pkt ! 5 \<and> pkt ! 5 < SSH2_MSG_LOCAL_MIN \<and>
    pkt ! 5 \<noteq> SSH2_MSG_NEWKEYS \<and> pkt ! 5 \<noteq> SSH2_MSG_USERAUTH_SUCCESS"

definition half_read :: "('e, 'd, 'u, 'z) pkt_env \<Rightarrow> ('e, 'd, 'u, 'z) pkt_env \<Rightarrow> u32 \<Rightarrow> u32 \<Rightarrow> byte list \<Rightarrow> ('d, 'u) newkeys option \<Rightarrow>
    'e sshcipher_ctx \<Rightarrow> byte list \<Rightarrow> ('e, 'd, 'u, 'z) session_state \<Rightarrow> bool" where
  "half_read V W q pk pkt nk1 cs1 w r \<longleftrightarrow>
    (\<exists>nk cs plain c tag nk1'. reading V W nk cs q pk plain c cs1 r \<and> framed (keys_block nk) (keys_aad nk) pkt plain \<and>
      length c = length plain + keys_auth nk \<and> length tag = keys_maclen nk \<and>
      tag_accepted W (newkeys_in r) q (if keys_etm nk then c else plain) tag nk1' \<and> keys_match V W nk1 nk1' (ccipher cs1) \<and>
      w = drop (head_len nk) (c @ tag))"

lemma sendable_framed:
  assumes "sendable pkt" "framed bs aad pkt plain"
  shows "6 \<le> length pkt" "length plain \<le> PACKET_MAX_SIZE + 4"
  using assms framed_length(5) [OF assms(2)] by (simp_all add: sendable_def)

text \<open>What a call returns: nothing yet, or the next packet. In the second case it may start a key exchange.\<close>

definition packet_taken where
  "packet_taken V W pk q nk1 cs1 pkt r x str \<longleftrightarrow>
    (\<exists>r1. waiting V W nk1 cs1 (q + 1) (pk + 1) r1 \<and> contents (incoming_packet r1) = drop 6 pkt \<and> norekey r1 = norekey r \<and>
      contents (pinput r1) = str \<and> x = got W (pkt ! 5) r1)"

lemma rest_half:
  assumes half: "half_read V W q pk pkt nk1 cs1 w r" and env: "same_ops V W" "\<forall>n. malloc_ok (env_alloc W) n"
    and pkt: "sendable pkt" and inp: "contents (pinput r) @ rest = w @ str" and wrap: "pk + 1 \<noteq> 0 \<or> norekey r"
  shows "if length (contents (pinput r)) < length w then read_rest W msg r = (Inr SSH_MSG_NONE, r)
    else packet_taken V W pk q nk1 cs1 pkt r (read_rest W msg r) (drop (length w) (contents (pinput r)))"
proof -
  obtain nk cs plain c tag nk1' where h: "reading V W nk cs q pk plain c cs1 r" "framed (keys_block nk) (keys_aad nk) pkt plain"
      "length c = length plain + keys_auth nk" "length tag = keys_maclen nk"
      "tag_accepted W (newkeys_in r) q (if keys_etm nk then c else plain) tag nk1'" "keys_match V W nk1 nk1' (ccipher cs1)"
      "w = drop (head_len nk) (c @ tag)"
    using half unfolding half_read_def by blast
  note s = sendable_framed [OF pkt h(2)]
  have t: "SSH2_MSG_MIN \<le> pkt ! 5" "pkt ! 5 < SSH2_MSG_LOCAL_MIN" "pkt ! 5 \<noteq> SSH2_MSG_USERAUTH_SUCCESS"
    using pkt by (simp_all add: sendable_def)
  show ?thesis
    using read_rest_framed [OF h(1) env(1) h(2) s env(2) h(3-6) inp [unfolded h(7)] t wrap, of msg]
    unfolding packet_taken_def h(7) by (auto split: if_splits)
qed

lemma poll2_half:
  assumes half: "half_read V W q pk pkt nk1 cs1 w r" and env: "same_ops V W" "\<forall>n. malloc_ok (env_alloc W) n"
    and pkt: "sendable pkt" and inp: "contents (pinput r) @ rest = w @ str" and wrap: "pk + 1 \<noteq> 0 \<or> norekey r"
  shows "if length (contents (pinput r)) < length w then ssh_packet_read_poll2 W msg r = (Inr SSH_MSG_NONE, r)
    else packet_taken V W pk q nk1 cs1 pkt r (ssh_packet_read_poll2 W msg r) (drop (length w) (contents (pinput r)))"
proof -
  obtain nk cs plain c where h: "reading V W nk cs q pk plain c cs1 r" "framed (keys_block nk) (keys_aad nk) pkt plain"
    using half unfolding half_read_def by blast
  note s = sendable_framed [OF pkt h(2)]
  have "ssh_packet_read_poll2 W msg r = read_rest W msg r"
    using h(1) packlen_ok(2) [OF framed_length(1) [OF h(2) s(1)] s(2)]
    by (simp add: ssh_packet_read_poll2_def read_poll2_packet_def read_length_def reading_def rx_ok_def)
  then show ?thesis using rest_half [OF assms, of msg] by simp
qed

lemma poll2_waiting:
  assumes wait: "waiting V W nk cs q pk r" and env: "same_ops V W" "\<forall>n. malloc_ok (env_alloc W) n"
    and seal: "framed (keys_block nk) (keys_aad nk) pkt plain" "sealed V nk cs q plain wire nk1 cs1"
    and pkt: "sendable pkt" and inp: "contents (pinput r) @ rest = wire @ str" and wrap: "pk + 1 \<noteq> 0 \<or> norekey r"
  shows "(\<exists>r'. ssh_packet_read_poll2 W msg r = (Inr SSH_MSG_NONE, r') \<and> norekey r' = norekey r \<and>
      length (contents (pinput r)) < length wire \<and>
      (waiting V W nk cs q pk r' \<and> pinput r' = pinput r \<or>
       (\<exists>w. half_read V W q pk pkt nk1 cs1 w r' \<and> contents (pinput r') @ rest = w @ str))) \<or>
    length wire \<le> length (contents (pinput r)) \<and>
    packet_taken V W pk q nk1 cs1 pkt r (ssh_packet_read_poll2 W msg r) (drop (length wire) (contents (pinput r)))"
proof -
  note s = sendable_framed [OF pkt seal(1)]
  note f = framed_length [OF seal(1) s(1)]
  obtain cr where cr: "receive_context r = Some cr" "keys_agree V W nk (newkeys_in r) cs cr" "rx_ok r" using wait by (auto simp: waiting_def)
  obtain c tag nk1' where o: "cipher_crypt (env_evp V) (env_junk V) cs q plain (length plain - keys_aad nk) (keys_aad nk) (keys_auth nk) = Inr (c, cs1)"
      "wire = c @ tag" "length c = length plain + keys_auth nk" "length tag = keys_maclen nk"
      "tag_accepted W (newkeys_in r) q (if keys_etm nk then c else plain) tag nk1'" "keys_match V W nk1 nk1' (ccipher cs1)"
    using sealed_open [OF seal(2) cr(2) env(1) f(2)] f(1) by auto
  let ?w = "drop (head_len nk) (c @ tag)"
  have hl: "head_len nk \<le> length wire" using head_len_wire [OF f(2) _ o(3)] f(1) o(2) by simp
  have run: "ssh_packet_read_poll2 W msg r = read_length W r (read_rest W msg)"
    using cr(3) by (simp add: ssh_packet_read_poll2_def read_poll2_packet_def rx_ok_def)
  have inp': "contents (pinput r) @ rest = c @ (tag @ str)" using inp o(2) by simp
  have short: "4 \<le> length wire" "keys_block nk \<le> length wire" if "keys_aad nk = 0"
    using that hl f(1) o(2,3) by (simp_all add: head_len_def)
  have "(\<exists>r'. ssh_packet_read_poll2 W msg r = (Inr SSH_MSG_NONE, r') \<and> norekey r' = norekey r \<and> waiting V W nk cs q pk r' \<and>
      pinput r' = pinput r \<and> length (contents (pinput r)) < length wire) \<or>
    (\<exists>r1. ssh_packet_read_poll2 W msg r = read_rest W msg r1 \<and> reading V W nk cs q pk plain c cs1 r1 \<and> newkeys_in r1 = newkeys_in r \<and>
      norekey r1 = norekey r \<and> contents (pinput r1) = drop (head_len nk) (contents (pinput r)) \<and> head_len nk \<le> length (contents (pinput r)))"
  proof (cases "keys_aad nk = 0")
    case True
    show ?thesis
      using read_length_block [OF wait env(1) seal(1) s True env(2) o(1) inp', of "read_rest W msg"] run wait short [OF True] True
      by (auto simp: head_len_def)
  next
    case False
    have "4 \<le> length wire" using f(1) o(2,3) by simp
    then show ?thesis
      using read_length_aad [OF wait env(1) seal(1) s False o(1) inp', of "read_rest W msg"] run False by (auto simp: head_len_def)
  qed
  then show ?thesis
  proof (elim disjE exE conjE)
    fix r' assume "ssh_packet_read_poll2 W msg r = (Inr SSH_MSG_NONE, r')" "norekey r' = norekey r" "waiting V W nk cs q pk r'"
      "pinput r' = pinput r" "length (contents (pinput r)) < length wire"
    then show ?thesis by blast
  next
    fix r1 assume r1: "ssh_packet_read_poll2 W msg r = read_rest W msg r1" "reading V W nk cs q pk plain c cs1 r1" "newkeys_in r1 = newkeys_in r"
      "norekey r1 = norekey r" "contents (pinput r1) = drop (head_len nk) (contents (pinput r))" "head_len nk \<le> length (contents (pinput r))"
    have half: "half_read V W q pk pkt nk1 cs1 ?w r1" unfolding half_read_def using r1(2,3) seal(1) o(3-6) by metis
    have i: "contents (pinput r1) @ rest = ?w @ str"
      using arg_cong [OF inp, of "drop (head_len nk)"] r1(5,6) o(2) hl by simp
    have w: "length (contents (pinput r1)) < length ?w \<longleftrightarrow> length (contents (pinput r)) < length wire"
      using r1(5,6) hl o(2) by simp linarith
    have d: "drop (length ?w) (contents (pinput r1)) = drop (length wire) (contents (pinput r))"
      unfolding r1(5) drop_drop o(2) [symmetric] length_drop using hl by simp
    show ?thesis
      using rest_half [OF half env pkt i, of msg] wrap r1(1,4) half i w unfolding d
      by (auto simp: packet_taken_def not_less split: if_splits simp del: length_drop length_append drop_append)
  qed
qed


section \<open>Two ends and a network\<close>

text \<open>The packets \<open>pkts\<close> sealed one after the other, from the sender's keys, context and counters at the first of them to those
  after the last. \<open>nr\<close> tells that the receiver does not insist on new keys when its counter wraps around.\<close>

fun sealed_stream where
  "sealed_stream V nr nk cs q pk [] wire nk' cs' q' pk' \<longleftrightarrow> wire = [] \<and> nk' = nk \<and> cs' = cs \<and> q' = q \<and> pk' = pk"
| "sealed_stream V nr nk cs q pk (pkt # pkts) wire nk' cs' q' pk' \<longleftrightarrow>
    (\<exists>plain w nk1 cs1 wire1. sendable pkt \<and> framed (keys_block nk) (keys_aad nk) pkt plain \<and> sealed V nk cs q plain w nk1 cs1 \<and>
      (pk + 1 \<noteq> 0 \<or> nr) \<and> wire = w @ wire1 \<and> sealed_stream V nr nk1 cs1 (q + 1) (pk + 1) pkts wire1 nk' cs' q' pk')"

lemma sealed_stream_append:
  assumes "sealed_stream V nr nk cs q pk pkts wire nk' cs' q' pk'" "sealed_stream V nr nk' cs' q' pk' pkts' wire' nk'' cs'' q'' pk''"
  shows "sealed_stream V nr nk cs q pk (pkts @ pkts') (wire @ wire') nk'' cs'' q'' pk''"
  using assms
proof (induction pkts arbitrary: nk cs q pk wire)
  case (Cons pkt pkts)
  then obtain plain w nk1 cs1 wire1 where s: "sendable pkt" "framed (keys_block nk) (keys_aad nk) pkt plain" "sealed V nk cs q plain w nk1 cs1"
      "pk + 1 \<noteq> 0 \<or> nr" "wire = w @ wire1" "sealed_stream V nr nk1 cs1 (q + 1) (pk + 1) pkts wire1 nk' cs' q' pk'"
    by auto
  have "sealed_stream V nr nk1 cs1 (q + 1) (pk + 1) (pkts @ pkts') (wire1 @ wire') nk'' cs'' q'' pk''"
    using Cons.IH [OF s(6) Cons.prems(2)] .
  moreover have "wire @ wire' = w @ (wire1 @ wire')" using s(5) by simp
  ultimately show ?case using s(1-4) unfolding append_Cons sealed_stream.simps by blast
qed simp

text \<open>A direction of a connection: the sending end, the bytes in the network and the receiving end, with the packets that were
  given to \<^verbatim>\<open>sshpkt_send\<close> and those that the receiver returned, both from their type on.\<close>

record ('e, 'd, 'u, 'z) direction =
  sender :: "('e, 'd, 'u, 'z) session_state"
  in_net :: "byte list"
  receiver :: "('e, 'd, 'u, 'z) session_state"
  sent_pkts :: "byte list list"
  got_pkts :: "byte list list"

definition tx_ok :: "('e, 'd, 'u, 'z) session_state \<Rightarrow> bool" where
  "tx_ok s \<longleftrightarrow> sshbuf_wf (outgoing_packet s) \<and> SSHBUF_SIZE_INIT \<le> max_size (outgoing_packet s) \<and> sshbuf_wf (poutput s) \<and> \<not> pmux s"

definition tx_view where
  "tx_view s = (send_context s, newkeys_out s, seqnr (p_send s), packets (p_send s), norekey s, contents (poutput s))"

definition rx_same :: "('e, 'd, 'u, 'z) session_state \<Rightarrow> ('e, 'd, 'u, 'z) session_state \<Rightarrow> bool" where
  "rx_same r r' \<longleftrightarrow> rx_ok r' \<and> receive_context r' = receive_context r \<and> newkeys_in r' = newkeys_in r \<and> p_read r' = p_read r \<and>
    packlen r' = packlen r \<and> norekey r' = norekey r \<and> contents (pinput r') = contents (pinput r) \<and>
    (packlen r \<noteq> 0 \<longrightarrow> contents (incoming_packet r') = contents (incoming_packet r))"

text \<open>The environment of a call: the clock and the random bytes differ from call to call.\<close>

definition at_time where
  "at_time t rnd V = V\<lparr>env_now := t, env_random := rnd\<rparr>"

text \<open>The packet in \<open>outgoing_packet\<close> goes out at once: no key exchange is under way or due, or it is part of one.\<close>

definition goes_out where
  "goes_out V s \<longleftrightarrow> (let t = contents (outgoing_packet s) ! 5 in
    ssh_packet_type_is_kex t \<or> \<not> rekeying s \<and> \<not> ssh_packet_need_rekeying V (sshbuf_len (outgoing_packet s)) s)"

text \<open>The steps. \<open>send_other\<close> and \<open>receive_other\<close> are all that either end does besides: building the next packet, reading the
  fields of the last one, and the other direction of the connection.\<close>

inductive packet_step :: "('e, 'd, 'u, 'z) pkt_env \<Rightarrow> ('e, 'd, 'u, 'z) pkt_env \<Rightarrow> ('e, 'd, 'u, 'z) direction \<Rightarrow> ('e, 'd, 'u, 'z) direction \<Rightarrow> bool"
  for V W where
  send: "sshpkt_send (at_time t rnd V) (sender l) = (Inr (), s') \<Longrightarrow> sendable (contents (outgoing_packet (sender l))) \<Longrightarrow>
     goes_out (at_time t rnd V) (sender l) \<Longrightarrow> \<forall>q n. length (rnd q n) = n \<Longrightarrow>
     packet_step V W l (l\<lparr>sender := s', sent_pkts := sent_pkts l @ [drop 5 (contents (outgoing_packet (sender l)))]\<rparr>)"
| transmit: "ssh_packet_write_poll (Wrote n) (sender l) = (Inr (), s') \<Longrightarrow>
     packet_step V W l (l\<lparr>sender := s', in_net := in_net l @ take n (contents (poutput (sender l)))\<rparr>)"
| arrive: "n \<le> length (in_net l) \<Longrightarrow> ssh_packet_process_incoming W (take n (in_net l)) (receiver l) = (Inr (), r') \<Longrightarrow>
     packet_step V W l (l\<lparr>in_net := drop n (in_net l), receiver := r'\<rparr>)"
| wait: "ssh_packet_read_poll2 (at_time t rnd W) msg (receiver l) = (Inr SSH_MSG_NONE, r') \<Longrightarrow>
     packet_step V W l (l\<lparr>receiver := r'\<rparr>)"
| receive: "ssh_packet_read_poll2 (at_time t rnd W) msg (receiver l) = (Inr ty, r') \<Longrightarrow> ty \<noteq> SSH_MSG_NONE \<Longrightarrow>
     packet_step V W l (l\<lparr>receiver := r', got_pkts := got_pkts l @ [ty # contents (incoming_packet r')]\<rparr>)"
| send_other: "tx_view s' = tx_view (sender l) \<Longrightarrow> tx_ok s' \<Longrightarrow> packet_step V W l (l\<lparr>sender := s'\<rparr>)"
| receive_other: "rx_same (receiver l) r' \<Longrightarrow> packet_step V W l (l\<lparr>receiver := r'\<rparr>)"

inductive_cases packet_stepE: "packet_step V W l l'"


section \<open>The invariant\<close>

lemma at_time_simps [simp]:
  "env_alloc (at_time t rnd V) = env_alloc V" "env_evp (at_time t rnd V) = env_evp V" "env_md (at_time t rnd V) = env_md V"
  "env_umac (at_time t rnd V) = env_umac V" "env_um (at_time t rnd V) = env_um V" "env_junk (at_time t rnd V) = env_junk V"
  "env_random (at_time t rnd V) = rnd"
  by (simp_all add: at_time_def)

lemma sealed_at_time [simp]: "sealed (at_time t rnd V) = sealed V"
  by (intro ext, unfold sealed_def at_time_simps, rule refl)

lemma keys_at_time [simp]:
  "keys_match (at_time t rnd V) W = keys_match V W" "keys_match V (at_time t rnd W) = keys_match V W"
  "keys_agree (at_time t rnd V) W = keys_agree V W" "keys_agree V (at_time t rnd W) = keys_agree V W"
  by (unfold keys_match_def keys_agree_def at_time_simps, (rule refl)+)

lemma same_ops_at_time [simp]: "same_ops V (at_time t rnd W) = same_ops V W"
  by (simp add: same_ops_def)

lemma waiting_at_time [simp]: "waiting V (at_time t rnd W) = waiting V W"
  by (intro ext, unfold waiting_def keys_at_time, rule refl)

lemma half_read_at_time [simp]: "half_read V (at_time t rnd W) = half_read V W"
  by (intro ext, unfold half_read_def reading_def tail_opens_def tag_accepted_def at_time_simps keys_at_time, rule refl)

text \<open>There is a receiver that agrees with the keys and the context \<open>cs\<close> of a sender.\<close>

definition agrees :: "('e, 'd, 'u, 'z) pkt_env \<Rightarrow> ('e, 'd, 'u, 'z) pkt_env \<Rightarrow> ('d, 'u) newkeys option \<Rightarrow> 'e sshcipher_ctx \<Rightarrow> bool" where
  "agrees V W nk cs \<longleftrightarrow> (\<exists>nk' cr. keys_agree V W nk nk' cs cr)"

lemma sealed_agrees:
  assumes "agrees V W nk cs" "same_ops V W" "sealed V nk cs q plain wire nk1 cs1" "framed (keys_block nk) (keys_aad nk) pkt plain" "6 \<le> length pkt"
  shows "agrees V W nk1 cs1"
proof -
  obtain nk' cr where a: "keys_agree V W nk nk' cs cr" using assms(1) by (auto simp: agrees_def)
  note f = framed_length [OF assms(4,5)]
  obtain c nk1' where o: "cipher_crypt (env_evp V) (env_junk V) cs q plain (length plain - keys_aad nk) (keys_aad nk) (keys_auth nk) = Inr (c, cs1)"
      "keys_match V W nk1 nk1' (ccipher cs1)"
  proof (rule sealed_open [OF assms(3) a assms(2) f(2)])
    show "4 \<le> length plain" using f(1) by simp
  qed (rule that)
  have "keys_auth nk = cipher_authlen (ccipher cs)" "keys_block nk = block_size (ccipher cs)"
    using keys_match_parts(1,2) [of V W nk nk' "ccipher cs"] a by (simp_all add: keys_agree_def)
  then obtain cr1 where "cipher_sync (env_evp V) (env_junk V) (env_junk W) cs1 cr1"
    using pc.whole [of "env_evp V" "env_junk V" "env_junk W" cs cr plain "keys_aad nk" "length plain - keys_aad nk" q c cs1 "[]"]
      o(1) a f(1,2) keys_aad_le [of nk] by (auto simp: keys_agree_def)
  then show ?thesis using o(2) by (auto simp: agrees_def keys_agree_def)
qed

text \<open>The packets \<open>pend\<close> are under way: \<open>bytes\<close> is all of them that the receiver has not consumed.\<close>

definition in_flight where
  "in_flight V W r pend bytes nk cs q pk \<longleftrightarrow>
    (\<exists>nk0 cs0 q0 pk0. waiting V W nk0 cs0 q0 pk0 r \<and> sealed_stream V (norekey r) nk0 cs0 q0 pk0 pend bytes nk cs q pk) \<or>
    (\<exists>q0 pk0 pkt pend1 nk1 cs1 w wire1. pend = pkt # pend1 \<and> sendable pkt \<and> (pk0 + 1 \<noteq> 0 \<or> norekey r) \<and>
      half_read V W q0 pk0 pkt nk1 cs1 w r \<and> bytes = w @ wire1 \<and> sealed_stream V (norekey r) nk1 cs1 (q0 + 1) (pk0 + 1) pend1 wire1 nk cs q pk)"

definition delivery_inv where
  "delivery_inv V W l \<longleftrightarrow>
    (\<exists>pend cs. tx_ok (sender l) \<and> send_context (sender l) = Some cs \<and> agrees V W (newkeys_out (sender l)) cs \<and>
      (norekey (sender l) \<longrightarrow> norekey (receiver l)) \<and> sent_pkts l = got_pkts l @ map (drop 5) pend \<and> rx_ok (receiver l) \<and>
      in_flight V W (receiver l) pend (contents (pinput (receiver l)) @ in_net l @ contents (poutput (sender l)))
        (newkeys_out (sender l)) cs (seqnr (p_send (sender l))) (packets (p_send (sender l))))"

lemma in_flight_waitI:
  "waiting V W nk0 cs0 q0 pk0 r \<Longrightarrow> sealed_stream V (norekey r) nk0 cs0 q0 pk0 pend bytes nk cs q pk \<Longrightarrow> in_flight V W r pend bytes nk cs q pk"
  unfolding in_flight_def by blast

lemma in_flight_halfI:
  "half_read V W q0 pk0 pkt nk1 cs1 w r \<Longrightarrow> sendable pkt \<Longrightarrow> pk0 + 1 \<noteq> 0 \<or> norekey r \<Longrightarrow>
   sealed_stream V (norekey r) nk1 cs1 (q0 + 1) (pk0 + 1) pend wire nk cs q pk \<Longrightarrow> in_flight V W r (pkt # pend) (w @ wire) nk cs q pk"
  unfolding in_flight_def by blast

lemma in_flightE:
  assumes "in_flight V W r pend bytes nk cs q pk"
  obtains (wait) nk0 cs0 q0 pk0 where "waiting V W nk0 cs0 q0 pk0 r" "sealed_stream V (norekey r) nk0 cs0 q0 pk0 pend bytes nk cs q pk"
  | (half) q0 pk0 pkt pend1 nk1 cs1 w wire where "half_read V W q0 pk0 pkt nk1 cs1 w r" "sendable pkt" "pk0 + 1 \<noteq> 0 \<or> norekey r"
      "sealed_stream V (norekey r) nk1 cs1 (q0 + 1) (pk0 + 1) pend1 wire nk cs q pk" "pend = pkt # pend1" "bytes = w @ wire"
  using assms unfolding in_flight_def by blast

lemma in_flight_append:
  assumes "in_flight V W r pend bytes nk cs q pk" "sealed_stream V (norekey r) nk cs q pk pkts wire nk' cs' q' pk'"
  shows "in_flight V W r (pend @ pkts) (bytes @ wire) nk' cs' q' pk'"
  using assms(1)
proof (cases rule: in_flightE)
  case wait
  show ?thesis using in_flight_waitI [OF wait(1) sealed_stream_append [OF wait(2) assms(2)]] .
next
  case half
  show ?thesis using in_flight_halfI [OF half(1-3) sealed_stream_append [OF half(4) assms(2)]] half(5,6) by simp
qed

lemma send2_direct:
  assumes "sshpkt_send V s = (Inr (), s')" "tx_ok s" "sendable (contents (outgoing_packet s))" "goes_out V s"
  shows "\<exists>f. ssh_packet_send2_wrapped V (s\<lparr>rekeying := f\<rparr>) = (Inr (), s')"
proof -
  let ?t = "contents (outgoing_packet s) ! 5"
  have l: "\<not> sshbuf_len (outgoing_packet s) < 6" "\<not> pmux s" "?t \<noteq> SSH2_MSG_NEWKEYS" using assms(2,3) by (auto simp: tx_ok_def sendable_def)
  have g: "\<not> ((\<not> ssh_packet_type_is_kex ?t \<and> ssh_packet_need_rekeying V (sshbuf_len (outgoing_packet s)) s \<or> rekeying s) \<and> \<not> ssh_packet_type_is_kex ?t)"
    using assms(4) by (auto simp: goes_out_def Let_def)
  obtain s1 where s1: "ssh_packet_send2_wrapped V (if ?t = SSH2_MSG_KEXINIT then s\<lparr>rekeying := True\<rparr> else s) = (Inr (), s1)" "s1 = s'"
    using assms(1) l unfolding sshpkt_send_def ssh_packet_send2_def Let_def if_not_P [OF l(1)] if_not_P [OF l(2)] if_not_P [OF g]
    by (auto simp: seq_ok_Inr)
  show ?thesis
  proof (cases "?t = SSH2_MSG_KEXINIT")
    case True
    then show ?thesis using s1 by auto
  next
    case False
    then show ?thesis using s1 by (intro exI [of _ "rekeying s"]) simp
  qed
qed

lemma send_inv:
  assumes inv: "delivery_inv V W l" and ops: "same_ops V W"
    and run: "sshpkt_send (at_time t rnd V) (sender l) = (Inr (), s')" and pkt: "sendable (contents (outgoing_packet (sender l)))"
    and out: "goes_out (at_time t rnd V) (sender l)" and rnd: "\<forall>q n. length (rnd q n) = n"
  shows "delivery_inv V W (l\<lparr>sender := s', sent_pkts := sent_pkts l @ [drop 5 (contents (outgoing_packet (sender l)))]\<rparr>)"
proof -
  let ?s = "sender l" and ?r = "receiver l"
  let ?pkt = "contents (outgoing_packet ?s)"
  obtain pend cs where i: "tx_ok ?s" "send_context ?s = Some cs" "agrees V W (newkeys_out ?s) cs" "norekey ?s \<longrightarrow> norekey ?r"
      "sent_pkts l = got_pkts l @ map (drop 5) pend" "rx_ok ?r"
      "in_flight V W ?r pend (contents (pinput ?r) @ in_net l @ contents (poutput ?s)) (newkeys_out ?s) cs (seqnr (p_send ?s)) (packets (p_send ?s))"
    using inv unfolding delivery_inv_def by blast
  obtain f where w: "ssh_packet_send2_wrapped (at_time t rnd V) (?s\<lparr>rekeying := f\<rparr>) = (Inr (), s')" using send2_direct [OF run i(1) pkt out] by blast
  obtain nk' cr where a: "keys_agree V W (newkeys_out ?s) nk' cs cr" using i(3) by (auto simp: agrees_def)
  have p: "6 \<le> length ?pkt" "?pkt ! 5 \<notin> {SSH2_MSG_NEWKEYS, SSH2_MSG_USERAUTH_SUCCESS}" using pkt by (auto simp: sendable_def)
  obtain plain wire nk cs' b x o' ps where
      s': "s' = ?s\<lparr>rekeying := f, extra_pad := x, newkeys_out := nk, send_context := Some cs', poutput := b, p_send := ps, outgoing_packet := o'\<rparr>"
      "framed (keys_block (newkeys_out ?s)) (keys_aad (newkeys_out ?s)) ?pkt plain"
      "sealed V (newkeys_out ?s) cs (seqnr (p_send ?s)) plain wire nk cs'" "sshbuf_wf b" "contents b = contents (poutput ?s) @ wire"
      "seqnr ps = seqnr (p_send ?s) + 1" "packets ps = packets (p_send ?s) + 1" "packets ps \<noteq> 0 \<or> norekey ?s"
      "sshbuf_wf o'" "max_size o' = max_size (outgoing_packet ?s)"
    using send2_wrapped_sealed [OF w, of cs W nk' cr] i(1,2) a p rnd by (auto simp: tx_ok_def)
  have "sealed_stream V (norekey ?r) (newkeys_out ?s) cs (seqnr (p_send ?s)) (packets (p_send ?s)) [?pkt] wire nk cs' (seqnr ps) (packets ps)"
    using pkt s'(2,3,6-8) i(4) by auto
  from in_flight_append [OF i(7) this]
  have "in_flight V W ?r (pend @ [?pkt]) (contents (pinput ?r) @ in_net l @ contents b) nk cs' (seqnr ps) (packets ps)" using s'(5) by simp
  moreover have "agrees V W nk cs'" using sealed_agrees [OF i(3) ops s'(3,2) p(1)] .
  moreover have "tx_ok s'" using i(1) s'(1,4,9,10) by (simp add: tx_ok_def)
  ultimately show ?thesis using i(4-6) s'(1) unfolding delivery_inv_def
    by (intro exI [of _ "pend @ [?pkt]"] exI [of _ cs']) simp
qed

lemma transmit_inv:
  assumes inv: "delivery_inv V W l" and run: "ssh_packet_write_poll (Wrote n) (sender l) = (Inr (), s')"
  shows "delivery_inv V W (l\<lparr>sender := s', in_net := in_net l @ take n (contents (poutput (sender l)))\<rparr>)"
proof -
  let ?s = "sender l"
  have wf: "sshbuf_wf (poutput ?s)" using inv by (auto simp: delivery_inv_def tx_ok_def)
  obtain b where b: "s' = ?s\<lparr>poutput := b\<rparr>" "sshbuf_wf b" "contents b = drop n (contents (poutput ?s))"
  proof (cases "contents (poutput ?s) = []")
    case True
    then show ?thesis using that [of "poutput ?s"] run wf by (simp add: ssh_packet_write_poll_def)
  next
    case False
    then have "0 < sshbuf_len (poutput ?s)" unfolding sshbuf_len_contents [OF wf] by simp
    then have c: "on_output (\<lambda>b. sshbuf_consume b n) ?s = (Inr (), s')"
      using run by (auto simp: ssh_packet_write_poll_def fail_def split: if_splits)
    have "n \<le> length (contents (poutput ?s))"
      using c sshbuf_consume_incomplete [OF wf, of n] by (cases "length (contents (poutput ?s)) < n") (simp_all add: on_output_def)
    then obtain b where "sshbuf_consume (poutput ?s) n = (Inr (), b)" "sshbuf_wf b" "contents b = drop n (contents (poutput ?s))"
      using sshbuf_consume_correct [OF wf] by blast
    then show ?thesis using that [of b] c by (simp add: on_output_def)
  qed
  have "(in_net l @ take n (contents (poutput ?s))) @ contents b = in_net l @ contents (poutput ?s)" using b(3) by simp
  then show ?thesis using inv b(1,2) unfolding delivery_inv_def tx_ok_def by simp
qed


definition rx_keep :: "('e, 'd, 'u, 'z) session_state \<Rightarrow> ('e, 'd, 'u, 'z) session_state \<Rightarrow> bool" where
  "rx_keep r r' \<longleftrightarrow> rx_ok r' \<and> receive_context r' = receive_context r \<and> newkeys_in r' = newkeys_in r \<and> p_read r' = p_read r \<and>
    packlen r' = packlen r \<and> norekey r' = norekey r \<and> (packlen r \<noteq> 0 \<longrightarrow> contents (incoming_packet r') = contents (incoming_packet r))"

lemma half_read_packlen:
  assumes "half_read V W q pk pkt nk1 cs1 w r" "sendable pkt"
  shows "packlen r \<noteq> 0"
proof -
  obtain nk cs plain c where h: "reading V W nk cs q pk plain c cs1 r" "framed (keys_block nk) (keys_aad nk) pkt plain"
    using assms(1) unfolding half_read_def by blast
  note s = sendable_framed [OF assms(2) h(2)]
  show ?thesis using h(1) packlen_ok(2) [OF framed_length(1) [OF h(2) s(1)] s(2)] by (simp add: reading_def)
qed

lemma in_flight_keep:
  assumes "in_flight V W r pend bytes nk cs q pk" "rx_keep r r'"
  shows "in_flight V W r' pend bytes nk cs q pk"
proof -
  have wait_keep: "waiting V W a b c d r \<Longrightarrow> waiting V W a b c d r'" for a b c d
    using assms(2) by (auto simp: waiting_def rx_keep_def)
  have half_keep: "half_read V W a b pkt c d w r \<Longrightarrow> sendable pkt \<Longrightarrow> half_read V W a b pkt c d w r'" for a b c d w pkt
    using assms(2) half_read_packlen [of V W a b pkt c d w r] by (auto simp: half_read_def reading_def rx_keep_def)
  have n: "norekey r' = norekey r" using assms(2) by (simp add: rx_keep_def)
  from assms(1) show ?thesis
  proof (cases rule: in_flightE)
    case wait
    then show ?thesis using wait_keep [OF wait(1)] n by (auto intro: in_flight_waitI)
  next
    case half
    then show ?thesis using half_keep [OF half(1,2)] n by (auto intro: in_flight_halfI)
  qed
qed

lemma keep_inv:
  assumes inv: "delivery_inv V W l" and k: "rx_keep (receiver l) r'" and e: "contents (pinput r') @ net = contents (pinput (receiver l)) @ in_net l"
  shows "delivery_inv V W (l\<lparr>in_net := net, receiver := r'\<rparr>)"
proof -
  let ?s = "sender l" and ?r = "receiver l"
  obtain pend cs where i: "tx_ok ?s" "send_context ?s = Some cs" "agrees V W (newkeys_out ?s) cs" "norekey ?s \<longrightarrow> norekey ?r"
      "sent_pkts l = got_pkts l @ map (drop 5) pend"
      "in_flight V W ?r pend (contents (pinput ?r) @ in_net l @ contents (poutput ?s)) (newkeys_out ?s) cs (seqnr (p_send ?s)) (packets (p_send ?s))"
    using inv unfolding delivery_inv_def by blast
  have b: "contents (pinput r') @ net @ contents (poutput ?s) = contents (pinput ?r) @ in_net l @ contents (poutput ?s)"
    using arg_cong [OF e, of "\<lambda>x. x @ contents (poutput ?s)"] by simp
  note f = in_flight_keep [OF i(6) k, folded b]
  have "rx_ok r'" "norekey r' = norekey ?r" using k by (simp_all add: rx_keep_def)
  then show ?thesis using i(1-5) f unfolding delivery_inv_def
    by (intro exI [of _ pend] exI [of _ cs]) simp
qed

lemma arrive_inv:
  assumes inv: "delivery_inv V W l" and n: "n \<le> length (in_net l)"
    and run: "ssh_packet_process_incoming W (take n (in_net l)) (receiver l) = (Inr (), r')"
  shows "delivery_inv V W (l\<lparr>in_net := drop n (in_net l), receiver := r'\<rparr>)"
proof -
  let ?r = "receiver l"
  have rx: "rx_ok ?r" using inv by (auto simp: delivery_inv_def)
  obtain b where b: "sshbuf_put (env_alloc W) (pinput ?r) (take n (in_net l)) = (Inr (), b)" "r' = ?r\<lparr>pinput := b\<rparr>"
    using run rx by (auto simp: ssh_packet_process_incoming_def rx_ok_def on_input_def split: prod.splits)
  have c: "sshbuf_wf b" "contents b = contents (pinput ?r) @ take n (in_net l)"
    using sshbuf_put_correct [OF _ b(1)] rx by (simp_all add: rx_ok_def)
  have k: "rx_keep ?r r'" using rx b(2) c(1) by (simp add: rx_keep_def rx_ok_def)
  show ?thesis by (rule keep_inv [OF inv k]) (simp add: b(2) c(2))
qed

lemma receive_other_inv:
  assumes "delivery_inv V W l" "rx_same (receiver l) r'"
  shows "delivery_inv V W (l\<lparr>receiver := r'\<rparr>)"
  using keep_inv [OF assms(1), of r' "in_net l"] assms(2) by (simp add: rx_same_def rx_keep_def)

lemma send_other_inv:
  assumes "delivery_inv V W l" "tx_view s' = tx_view (sender l)" "tx_ok s'"
  shows "delivery_inv V W (l\<lparr>sender := s'\<rparr>)"
  using assms unfolding delivery_inv_def tx_view_def by simp

section \<open>Calls of the receiver\<close>

lemma poll2_empty:
  assumes wait: "waiting V W nk cs q pk r" and e: "contents (pinput r) = []"
  shows "\<exists>r'. ssh_packet_read_poll2 W msg r = (Inr SSH_MSG_NONE, r') \<and> waiting V W nk cs q pk r' \<and> pinput r' = pinput r \<and> norekey r' = norekey r"
proof -
  obtain cr where cr: "receive_context r = Some cr" "keys_agree V W nk (newkeys_in r) cs cr" "rx_ok r" "packlen r = 0" using wait by (auto simp: waiting_def)
  have m: "keys_match V W nk (newkeys_in r) (ccipher cs)" and sync: "cipher_sync (env_evp V) (env_junk V) (env_junk W) cs cr"
    using cr(2) by (simp_all add: keys_agree_def)
  obtain x where x: "cipher_get_length (env_junk W) cr (seqnr (p_read r)) [] = (Inl x, cr)" using pc.length_short [OF sync, of "[]"] by auto
  have b: "0 < keys_block (newkeys_in r)" using keys_match_parts(4,5) [OF m] by auto
  have "sshbuf_len (pinput r) = 0" using cr(3) e sshbuf_len_contents [of "pinput r"] by (simp add: rx_ok_def)
  then have "ssh_packet_read_poll2 W msg r = (Inr SSH_MSG_NONE, r)"
    using cr(1,3,4) x b e by (auto simp: ssh_packet_read_poll2_def read_poll2_packet_def read_length_def rx_ok_def Let_def)
  then show ?thesis using wait by auto
qed

lemma got_waiting:
  assumes "got W t r1 = (Inr t', r')" "waiting V W nk cs q pk r1"
  shows "t' = t" "waiting V W nk cs q pk r'" "incoming_packet r' = incoming_packet r1" "pinput r' = pinput r1" "norekey r' = norekey r1"
proof -
  have "t' = t \<and> (r' = r1 \<or> rx_view r' = rx_view (r1\<lparr>kex_done := False\<rparr>))"
  proof (cases "ssh_packet_need_rekeying W 0 r1")
    case True
    then have "kex_done r1" by (simp add: ssh_packet_need_rekeying_def ssh_packet_is_rekeying_def)
    then have "rx_view (snd (kex_start_rekex W r1)) = rx_view (r1\<lparr>kex_done := False\<rparr>)"
      using assms(2) by (intro kex_start_rekex_rx) (auto simp: waiting_def rx_ok_def)
    then show ?thesis using assms(1) True by (auto simp: got_def seq_ok_Inr)
  qed (use assms(1) in \<open>simp add: got_def\<close>)
  then show "t' = t" "waiting V W nk cs q pk r'" "incoming_packet r' = incoming_packet r1" "pinput r' = pinput r1" "norekey r' = norekey r1"
    using assms(2) by (auto simp: rx_view_def waiting_def rx_ok_def)
qed


text \<open>The outcome \<open>x\<close> of a call with the packets \<open>pend\<close> under way, of which \<open>rest\<close> has not arrived: nothing, or the first packet.\<close>

definition polled where
  "polled V W W' x r pend rest nk cs q pk \<longleftrightarrow>
    (\<exists>r'. x = (Inr SSH_MSG_NONE, r') \<and> norekey r' = norekey r \<and> rx_ok r' \<and>
      in_flight V W r' pend (contents (pinput r') @ rest) nk cs q pk \<and> (pend = [] \<or> rest \<noteq> [])) \<or>
    (\<exists>pkt pend1 r1 nk1 cs1 q1 pk1. pend = pkt # pend1 \<and> sendable pkt \<and> waiting V W nk1 cs1 q1 pk1 r1 \<and>
      contents (incoming_packet r1) = drop 6 pkt \<and> norekey r1 = norekey r \<and>
      sealed_stream V (norekey r) nk1 cs1 q1 pk1 pend1 (contents (pinput r1) @ rest) nk cs q pk \<and> x = got W' (pkt ! 5) r1)"

lemma polled_none:
  assumes "x = (Inr SSH_MSG_NONE, r')" "norekey r' = norekey r" "rx_ok r'" "in_flight V W r' pend (contents (pinput r') @ rest) nk cs q pk"
    and "pend = [] \<or> rest \<noteq> []"
  shows "polled V W W' x r pend rest nk cs q pk"
  using assms unfolding polled_def by blast

lemma polled_taken:
  assumes t: "packet_taken V (at_time t rnd W) pk0 q0 nk1 cs1 pkt r x (drop (length w) (contents (pinput r)))" and "sendable pkt"
    and i: "contents (pinput r) @ rest = w @ wire" "length w \<le> length (contents (pinput r))"
    and s: "sealed_stream V (norekey r) nk1 cs1 (q0 + 1) (pk0 + 1) pend wire nk cs q pk"
  shows "polled V W (at_time t rnd W) x r (pkt # pend) rest nk cs q pk"
proof -
  obtain r1 where r1: "waiting V W nk1 cs1 (q0 + 1) (pk0 + 1) r1" "contents (incoming_packet r1) = drop 6 pkt" "norekey r1 = norekey r"
      "contents (pinput r1) = drop (length w) (contents (pinput r))" "x = got (at_time t rnd W) (pkt ! 5) r1"
    using t unfolding packet_taken_def waiting_at_time by blast
  have e: "contents (pinput r1) @ rest = wire" using arg_cong [OF i(1), of "drop (length w)"] i(2) r1(4) by simp
  show ?thesis unfolding polled_def using assms(2) r1(1-3,5) s [folded e] by blast
qed

lemma rest_not_Nil: "xs @ rest = w @ wire \<Longrightarrow> length xs < length w \<Longrightarrow> rest \<noteq> []"
  by (cases rest) (auto dest: arg_cong [of _ _ length])

lemma polled_half:
  assumes h: "half_read V W q0 pk0 pkt nk1 cs1 w r" and env: "same_ops V W" "\<forall>n. malloc_ok (env_alloc W) n"
    and p: "sendable pkt" "pk0 + 1 \<noteq> 0 \<or> norekey r" and i: "contents (pinput r) @ rest = w @ wire"
    and s: "sealed_stream V (norekey r) nk1 cs1 (q0 + 1) (pk0 + 1) pend wire nk cs q pk"
  shows "polled V W (at_time t rnd W) (ssh_packet_read_poll2 (at_time t rnd W) msg r) r (pkt # pend) rest nk cs q pk"
proof -
  let ?W = "at_time t rnd W"
  have e: "half_read V ?W q0 pk0 pkt nk1 cs1 w r" "same_ops V ?W" "\<forall>n. malloc_ok (env_alloc ?W) n" using h env by simp_all
  note q = poll2_half [OF e p(1) i p(2), of msg]
  show ?thesis
  proof (cases "length (contents (pinput r)) < length w")
    case True
    have "rx_ok r" using h by (auto simp: half_read_def reading_def)
    then show ?thesis using rest_not_Nil [OF i True] in_flight_halfI [OF h p s, folded i]
      by (intro polled_none [OF q [unfolded if_P [OF True]] refl]) simp_all
  next
    case False
    then show ?thesis by (intro polled_taken [OF q [unfolded if_not_P [OF False]] p(1) i _ s]) simp
  qed
qed

lemma polled_wait:
  assumes h: "waiting V W nk0 cs0 q0 pk0 r" and env: "same_ops V W" "\<forall>n. malloc_ok (env_alloc W) n"
    and s: "sealed_stream V (norekey r) nk0 cs0 q0 pk0 (pkt # pend) (contents (pinput r) @ rest) nk cs q pk"
  shows "polled V W (at_time t rnd W) (ssh_packet_read_poll2 (at_time t rnd W) msg r) r (pkt # pend) rest nk cs q pk"
proof -
  let ?W = "at_time t rnd W" and ?x = "ssh_packet_read_poll2 (at_time t rnd W) msg r"
  have e: "waiting V ?W nk0 cs0 q0 pk0 r" "same_ops V ?W" "\<forall>n. malloc_ok (env_alloc ?W) n" using h env by simp_all
  obtain plain w nk1 cs1 wire where c: "sendable pkt" "framed (keys_block nk0) (keys_aad nk0) pkt plain" "sealed V nk0 cs0 q0 plain w nk1 cs1"
      "pk0 + 1 \<noteq> 0 \<or> norekey r" "contents (pinput r) @ rest = w @ wire"
      "sealed_stream V (norekey r) nk1 cs1 (q0 + 1) (pk0 + 1) pend wire nk cs q pk"
    using s by auto
  consider (short) r' where "?x = (Inr SSH_MSG_NONE, r')" "norekey r' = norekey r"
      "length (contents (pinput r)) < length w" "waiting V W nk0 cs0 q0 pk0 r'" "pinput r' = pinput r"
    | (half) r' w' where "?x = (Inr SSH_MSG_NONE, r')" "norekey r' = norekey r"
      "length (contents (pinput r)) < length w" "half_read V W q0 pk0 pkt nk1 cs1 w' r'" "contents (pinput r') @ rest = w' @ wire"
    | (all) "length w \<le> length (contents (pinput r))" "packet_taken V ?W pk0 q0 nk1 cs1 pkt r ?x (drop (length w) (contents (pinput r)))"
    using poll2_waiting [OF e c(2,3,1,5,4), of msg, unfolded waiting_at_time half_read_at_time] by blast
  then show ?thesis
  proof cases
    case short
    have "rx_ok r'" using short(4) by (simp add: waiting_def)
    moreover have "in_flight V W r' (pkt # pend) (contents (pinput r') @ rest) nk cs q pk"
      by (rule in_flight_waitI [OF short(4)]) (simp only: short(2,5) s)
    ultimately show ?thesis using rest_not_Nil [OF c(5) short(3)] by (intro polled_none [OF short(1,2)]) simp_all
  next
    case half
    have "rx_ok r'" using half(4) by (auto simp: half_read_def reading_def)
    moreover have "in_flight V W r' (pkt # pend) (contents (pinput r') @ rest) nk cs q pk"
      unfolding half(5) by (rule in_flight_halfI [OF half(4) c(1)]) (simp_all only: half(2) c(4,6))
    ultimately show ?thesis using rest_not_Nil [OF c(5) half(3)] by (intro polled_none [OF half(1,2)]) simp_all
  next
    case all
    show ?thesis by (rule polled_taken [OF all(2) c(1,5) all(1) c(6)])
  qed
qed

lemma poll2_in_flight:
  assumes fl: "in_flight V W r pend (contents (pinput r) @ rest) nk cs q pk" and env: "same_ops V W" "\<forall>n. malloc_ok (env_alloc W) n"
  shows "polled V W (at_time t rnd W) (ssh_packet_read_poll2 (at_time t rnd W) msg r) r pend rest nk cs q pk"
  using fl
proof (cases rule: in_flightE)
  case half
  show ?thesis unfolding half(5) by (rule polled_half [OF half(1) env half(2,3,6,4)])
next
  case (wait nk0 cs0 q0 pk0)
  show ?thesis
  proof (cases pend)
    case Nil
    then have e: "contents (pinput r) = []" "waiting V (at_time t rnd W) nk0 cs0 q0 pk0 r" using wait by simp_all
    obtain r' where r': "ssh_packet_read_poll2 (at_time t rnd W) msg r = (Inr SSH_MSG_NONE, r')" "waiting V W nk0 cs0 q0 pk0 r'"
        "pinput r' = pinput r" "norekey r' = norekey r" using poll2_empty [OF e(2,1), of msg] by auto
    have "in_flight V W r' pend (contents (pinput r') @ rest) nk cs q pk" by (rule in_flight_waitI [OF r'(2)]) (simp only: r'(3,4) wait(2))
    moreover have "rx_ok r'" using r'(2) by (simp add: waiting_def)
    ultimately show ?thesis using Nil by (intro polled_none [OF r'(1,4)]) simp_all
  next
    case (Cons pkt pend1)
    then show ?thesis using polled_wait [OF wait(1) env] wait(2) by simp
  qed
qed

lemma sendable_type: "sendable pkt \<Longrightarrow> pkt ! 5 \<noteq> SSH_MSG_NONE \<and> drop 5 pkt = pkt ! 5 # drop 6 pkt"
  using Cons_nth_drop_Suc [of 5 pkt] by (auto simp: sendable_def msg_types)

lemma delivery_invE:
  assumes "delivery_inv V W l"
  obtains pend cs where "tx_ok (sender l)" "send_context (sender l) = Some cs" "agrees V W (newkeys_out (sender l)) cs"
    "norekey (sender l) \<longrightarrow> norekey (receiver l)" "sent_pkts l = got_pkts l @ map (drop 5) pend"
    "in_flight V W (receiver l) pend (contents (pinput (receiver l)) @ in_net l @ contents (poutput (sender l)))
      (newkeys_out (sender l)) cs (seqnr (p_send (sender l))) (packets (p_send (sender l)))"
  using assms unfolding delivery_inv_def by blast

lemma wait_inv:
  assumes inv: "delivery_inv V W l" and env: "same_ops V W" "\<forall>n. malloc_ok (env_alloc W) n"
    and run: "ssh_packet_read_poll2 (at_time t rnd W) msg (receiver l) = (Inr SSH_MSG_NONE, r')"
  shows "delivery_inv V W (l\<lparr>receiver := r'\<rparr>)"
  using inv
proof (cases rule: delivery_invE)
  case (1 pend cs)
  from poll2_in_flight [OF 1(6) env, of t rnd msg] obtain r1 where
    "r1 = r'" "norekey r1 = norekey (receiver l)" "rx_ok r1" "in_flight V W r1 pend (contents (pinput r1) @ in_net l @ contents (poutput (sender l)))
      (newkeys_out (sender l)) cs (seqnr (p_send (sender l))) (packets (p_send (sender l)))"
    unfolding polled_def run by (auto dest!: got_waiting(1) [OF sym] sendable_type)
  then show ?thesis using 1(1-5) unfolding delivery_inv_def by (intro exI [of _ pend] exI [of _ cs]) simp
qed

lemma receive_inv:
  assumes inv: "delivery_inv V W l" and env: "same_ops V W" "\<forall>n. malloc_ok (env_alloc W) n"
    and run: "ssh_packet_read_poll2 (at_time t rnd W) msg (receiver l) = (Inr ty, r')" "ty \<noteq> SSH_MSG_NONE"
  shows "delivery_inv V W (l\<lparr>receiver := r', got_pkts := got_pkts l @ [ty # contents (incoming_packet r')]\<rparr>)"
  using inv
proof (cases rule: delivery_invE)
  case (1 pend cs)
  let ?rest = "in_net l @ contents (poutput (sender l))"
  from poll2_in_flight [OF 1(6) env, of t rnd msg] obtain pkt pend1 r1 nk1 cs1 q1 pk1 where
    p: "pend = pkt # pend1" "sendable pkt" "waiting V W nk1 cs1 q1 pk1 r1" "contents (incoming_packet r1) = drop 6 pkt" "norekey r1 = norekey (receiver l)"
      "sealed_stream V (norekey (receiver l)) nk1 cs1 q1 pk1 pend1 (contents (pinput r1) @ ?rest)
        (newkeys_out (sender l)) cs (seqnr (p_send (sender l))) (packets (p_send (sender l)))"
      "got (at_time t rnd W) (pkt ! 5) r1 = (Inr ty, r')"
    unfolding polled_def run(1) using run(2) by auto
  have w: "waiting V (at_time t rnd W) nk1 cs1 q1 pk1 r1" using p(3) by simp
  note g = got_waiting [OF p(7) w]
  have "in_flight V W r' pend1 (contents (pinput r') @ ?rest) (newkeys_out (sender l)) cs (seqnr (p_send (sender l))) (packets (p_send (sender l)))"
    using p(5,6) g(2,4,5) by (intro in_flight_waitI [of V W nk1 cs1 q1 pk1]) simp_all
  moreover have "rx_ok r'" using g(2) by (simp add: waiting_def)
  moreover have "drop 5 pkt = ty # contents (incoming_packet r')" using sendable_type [OF p(2)] g(1,3) p(4) by simp
  ultimately show ?thesis using 1(1-5) p(1,5) g(5) unfolding delivery_inv_def by (intro exI [of _ pend1] exI [of _ cs]) simp
qed

lemma step_inv:
  assumes "packet_step V W l l'" "delivery_inv V W l" "same_ops V W" "\<forall>n. malloc_ok (env_alloc W) n"
  shows "delivery_inv V W l'"
  using assms
  by (cases rule: packet_step.cases)
    (blast intro: send_inv transmit_inv arrive_inv wait_inv receive_inv send_other_inv receive_other_inv)+

text \<open>A direction just after both ends have taken new keys (or at its start, with the cipher \<^verbatim>\<open>none\<close>): nothing is under way.\<close>

definition fresh_direction :: "('e, 'd, 'u, 'z) pkt_env \<Rightarrow> ('e, 'd, 'u, 'z) pkt_env \<Rightarrow> ('e, 'd, 'u, 'z) direction \<Rightarrow> bool" where
  "fresh_direction V W l \<longleftrightarrow> tx_ok (sender l) \<and> rx_ok (receiver l) \<and> packlen (receiver l) = 0 \<and>
    (\<exists>cs cr. send_context (sender l) = Some cs \<and> receive_context (receiver l) = Some cr \<and>
      keys_agree V W (newkeys_out (sender l)) (newkeys_in (receiver l)) cs cr) \<and>
    seqnr (p_read (receiver l)) = seqnr (p_send (sender l)) \<and> packets (p_read (receiver l)) = packets (p_send (sender l)) \<and>
    (norekey (sender l) \<longrightarrow> norekey (receiver l)) \<and> contents (poutput (sender l)) = [] \<and> in_net l = [] \<and>
    contents (pinput (receiver l)) = [] \<and> sent_pkts l = [] \<and> got_pkts l = []"

lemma fresh_inv: "fresh_direction V W l \<Longrightarrow> delivery_inv V W l"
  unfolding fresh_direction_def delivery_inv_def agrees_def
  by (elim conjE exE, intro exI [of _ "[]"] exI conjI in_flight_waitI, assumption+) (auto simp: waiting_def)

lemma run_inv:
  assumes "(packet_step V W)\<^sup>*\<^sup>* l0 l" "fresh_direction V W l0" "same_ops V W" "\<forall>n. malloc_ok (env_alloc W) n"
  shows "delivery_inv V W l"
  using assms by (induction rule: rtranclp_induct) (blast intro: fresh_inv step_inv)+

text \<open>C1. One end sends packets with \<^verbatim>\<open>sshpkt_send\<close>, the other calls \<^verbatim>\<open>ssh_packet_read_poll2\<close>, for any cipher and MAC that
  keep their contracts, and any interleaving of sending, transmission in pieces of any size and receiving under one set of keys. What was received
  is always a prefix of what was sent: the same types and payloads in the same order. A call of the receiver fails only where it has taken
  the next packet, its own key exchange is due and starting that fails; otherwise it returns no packet or the next one; and it returns the next one as soon as all bytes have arrived.
  The keys are without compression and neither end is a multiplexing proxy; the packets are those that go out at once (\<open>goes_out\<close>: not queued for
  a key exchange), fit \<open>PACKET_MAX_SIZE\<close> with their padding, and are not the two messages that change the keys or the compression,
  \<^verbatim>\<open>SSH2_MSG_NEWKEYS\<close> and \<^verbatim>\<open>SSH2_MSG_USERAUTH_SUCCESS\<close> (\<open>sendable\<close>). The receiver does not run out of memory.\<close>

theorem packet_stream_delivered:
  assumes "same_ops V W" "\<forall>n. malloc_ok (env_alloc W) n" "fresh_direction V W l0" "(packet_step V W)\<^sup>*\<^sup>* l0 l"
  shows "\<exists>pend. sent_pkts l = got_pkts l @ pend \<and>
    (case ssh_packet_read_poll2 (at_time t rnd W) msg (receiver l) of
       (Inl e, r') \<Rightarrow> \<exists>r1. pend \<noteq> [] \<and> contents (incoming_packet r1) = tl (hd pend) \<and>
         ssh_packet_need_rekeying (at_time t rnd W) 0 r1 \<and> kex_start_rekex (at_time t rnd W) r1 = (Inl e, r')
     | (Inr ty, r') \<Rightarrow>
         if ty = SSH_MSG_NONE then pend = [] \<or> in_net l \<noteq> [] \<or> contents (poutput (sender l)) \<noteq> []
         else pend \<noteq> [] \<and> hd pend = ty # contents (incoming_packet r'))"
  using run_inv [OF assms(4,3,1,2)]
proof (cases rule: delivery_invE)
  case (1 pend cs)
  let ?x = "ssh_packet_read_poll2 (at_time t rnd W) msg (receiver l)"
  from poll2_in_flight [OF 1(6) assms(1,2), of t rnd msg] consider
    (none) r' where "?x = (Inr SSH_MSG_NONE, r')" "pend = [] \<or> in_net l @ contents (poutput (sender l)) \<noteq> []"
  | (packet) pkt pend1 r1 nk1 cs1 q1 pk1 where "pend = pkt # pend1" "sendable pkt" "waiting V W nk1 cs1 q1 pk1 r1"
      "contents (incoming_packet r1) = drop 6 pkt" "?x = got (at_time t rnd W) (pkt ! 5) r1"
    unfolding polled_def by blast
  then show ?thesis
  proof cases
    case none
    then show ?thesis using 1(5) by (intro exI [of _ "map (drop 5) pend"]) auto
  next
    case packet
    have w: "waiting V (at_time t rnd W) nk1 cs1 q1 pk1 r1" using packet(3) by simp
    show ?thesis
    proof (cases ?x)
      case (Pair y r')
      show ?thesis
      proof (cases y)
        case (Inl e)
        then have "ssh_packet_need_rekeying (at_time t rnd W) 0 r1 \<and> kex_start_rekex (at_time t rnd W) r1 = (Inl e, r')"
          using Pair packet(5) by (auto simp: got_def seq_ok_def split: if_splits sum.splits prod.splits)
        then show ?thesis using 1(5) packet(1,4) sendable_type [OF packet(2)] Pair Inl
          by (intro exI [of _ "map (drop 5) pend"]) auto
      next
        case (Inr ty)
        have g: "got (at_time t rnd W) (pkt ! 5) r1 = (Inr ty, r')" using Pair Inr packet(5) by simp
        show ?thesis using 1(5) packet(1,4) sendable_type [OF packet(2)] got_waiting(1,3) [OF g w] Pair Inr
          by (intro exI [of _ "map (drop 5) pend"]) simp
      qed
    qed
  qed
qed


text \<open>A client at the start of a connection, with the cipher \<^verbatim>\<open>none\<close>, that sends a service request.\<close>

definition ex_pkt :: "byte list" where
  "ex_pkt = [0, 0, 0, 0, 0, 5, 0, 0, 0, 1, 97]"

definition ex_evp :: "unit evp_ops" where
  "ex_evp = \<lparr>evp_ctx_new = None, evp_init_type = \<lambda>x t k b. None, evp_set_iv_fixed = \<lambda>x v. None, evp_key_length = \<lambda>x. 0,
     evp_set_key_length = \<lambda>x n. None, evp_init_key = \<lambda>x k. None, evp_iv_gen = \<lambda>x. None, evp_set_tag = \<lambda>x t. None, evp_aad = \<lambda>x a. None,
     evp_cipher = \<lambda>x m. None, evp_final = \<lambda>x. None, evp_get_tag = \<lambda>x n. None\<rparr>"

definition ex_env :: "(unit, string \<times> byte list, unit, unit) pkt_env" where
  "ex_env = \<lparr>env_alloc = ex_alloc, env_evp = ex_evp, env_md = ex_md, env_umac = ex_umac,
     env_zlib = \<lparr>z_deflate_init = Inr (), z_inflate_init = Inr (), z_compress = \<lambda>z d. Inr (d, ()), z_uncompress = \<lambda>z d. Inr (d, ())\<rparr>,
     env_junk = replicate 64 0, env_um = replicate 64 0, env_random = \<lambda>q n. replicate n 0, env_cookie = replicate 16 0, env_now = 0,
     env_write_wait = \<lambda>b. (Inr (), b)\<rparr>"

definition ex_none :: "bool \<Rightarrow> unit sshcipher_ctx" where
  "ex_none enc = \<lparr>plaintext = True, cencrypt = enc, evp = None, cp_ctx = None, ccipher = the cipher_none\<rparr>"

definition ex_big :: "byte list \<Rightarrow> sshbuf" where
  "ex_big xs = (ex_buf xs)\<lparr>max_size := SSHBUF_SIZE_MAX\<rparr>"

definition ex_session :: "byte list \<Rightarrow> (unit, string \<times> byte list, unit, unit) session_state" where
  "ex_session pkt = \<lparr>receive_context = Some (ex_none False), send_context = Some (ex_none True), pinput = ex_big [], poutput = ex_big [],
     outgoing_packet = ex_big pkt, incoming_packet = ex_big [], compression_buffer = None, compression_in = None, compression_out = None,
     server_side = False, after_authentication = False, newkeys_in = None, newkeys_out = None,
     p_read = \<lparr>seqnr = 0, packets = 0, blocks_done = 0, bytes_done = 0\<rparr>, p_send = \<lparr>seqnr = 0, packets = 0, blocks_done = 0, bytes_done = 0\<rparr>,
     max_blocks_in = 0, max_blocks_out = 0, rekey_limit = 0, rekey_interval = 0, rekey_time = 0, extra_pad = 0, packet_discard = 0,
     packet_discard_mac = False, packet_discard_mac_already = 0, packlen = 0, rekeying = False, pmux = False, outgoing = [],
     kex_newkeys_in = None, kex_newkeys_out = None, kex_done = True, kex_init_sent = False, kex_my = ex_big [], norekey = False,
     keep_alive_timeouts = 0, interactive_mode = False, set_maxsize_called = False, max_packet_size = 0\<rparr>"

definition ex_direction :: "(unit, string \<times> byte list, unit, unit) direction" where
  "ex_direction = \<lparr>sender = ex_session ex_pkt, in_net = [], receiver = ex_session [], sent_pkts = [], got_pkts = []\<rparr>"

lemma ex_big: "length xs \<le> 4096 \<Longrightarrow> sshbuf_wf (ex_big xs) \<and> contents (ex_big xs) = xs \<and> writable (ex_big xs) \<and> max_size (ex_big xs) = SSHBUF_SIZE_MAX"
  by (simp add: sshbuf_wf_def sane_iff ex_big_def ex_buf_def sshbuf_consts contents_def writable_def)

lemma ex_cipher_none: "ccipher (ex_none b) = the cipher_none" "block_size (the cipher_none) = 8" "cipher_authlen (the cipher_none) = 0"
    "cflags (the cipher_none) AND CFLAG_CHACHAPOLY = 0" "cflags (the cipher_none) AND CFLAG_NONE \<noteq> 0"
  by (simp_all add: ex_none_def) (code_simp+)

lemma ex_agree: "keys_agree ex_env ex_env None None (ex_none True) (ex_none False)"
proof -
  have "auth_len (the cipher_none) = 0" using ex_cipher_none(3) by code_simp
  then show ?thesis
    using ex_cipher_none
    by (simp add: keys_agree_def keys_match_def cipher_sync_def keys_auth_def keys_block_def keys_mac_def keys_comp_def ex_env_def)
      (simp add: ex_none_def)
qed

lemma ex_fresh: "fresh_direction ex_env ex_env ex_direction"
  using ex_agree ex_big [of "[]"] ex_big [of ex_pkt]
  by (simp add: fresh_direction_def ex_direction_def ex_session_def tx_ok_def rx_ok_def ex_pkt_def sshbuf_consts PACKET_MAX_SIZE_def)

lemma keys_None: "keys_block None = 8" "keys_aad None = 0" "keys_auth None = 0" "keys_mac None = None" "\<not> keys_comp None"
  by (simp_all add: keys_block_def keys_aad_def keys_auth_def keys_etm_def keys_mac_def keys_comp_def)

lemma mutable_ptr_ok: "sshbuf_wf b \<Longrightarrow> writable b \<Longrightarrow> sshbuf_mutable_ptr b = Some (off b)"
  by (auto simp: sshbuf_mutable_ptr_def sshbuf_wf_def sane_def writable_def split: sum.splits)

text \<open>Before the first keys a packet can be sent whenever the buffers have room for it.\<close>

lemma send2_wrapped_plain:
  assumes al: "\<forall>n. malloc_ok (env_alloc V) n" and rnd: "newkeys_out s = None" "extra_pad s = 0" "send_context s = Some cc"
    and none: "cflags (ccipher cc) AND CFLAG_CHACHAPOLY = 0" "cflags (ccipher cc) AND CFLAG_NONE \<noteq> 0"
    and o: "sshbuf_wf (outgoing_packet s)" "writable (outgoing_packet s)" "length (contents (outgoing_packet s)) + 20 \<le> max_size (outgoing_packet s)"
    and out: "sshbuf_wf (poutput s)" "writable (poutput s)"
      "length (contents (poutput s)) + length (contents (outgoing_packet s)) + 20 \<le> max_size (poutput s)"
    and ty: "contents (outgoing_packet s) ! 5 \<notin> {SSH2_MSG_NEWKEYS, SSH2_MSG_USERAUTH_SUCCESS}" and pk: "packets (p_send s) + 1 \<noteq> 0"
    and len: "5 \<le> length (contents (outgoing_packet s))"
  shows "\<exists>s'. ssh_packet_send2_wrapped V s = (Inr (), s')"
proof -
  let ?n = "length (contents (outgoing_packet s))"
  define p where "p = base_pad 8 ?n"
  have p20: "unat p < 20" using base_pad_ok(3) [of 8 ?n] by (simp add: p_def)
  obtain q b where q: "sshbuf_reserve (env_alloc V) (outgoing_packet s) (unat p) = (Inr q, b)"
    using reserve_ok [OF o(1) al o(2), of "unat p"] o(3) p20 by auto
  define b2 where "b2 = sshbuf_write b q (replicate (unat p) 0)"
  have w: "sshbuf_wf b2" "length (contents b2) = ?n + unat p" "writable b2"
    using reserve_write [OF o(1) q, of "replicate (unat p) 0", folded b2_def] o(2) same_header_writable by auto
  define b3 where "b3 = sshbuf_write b2 (off b2) (POKE_U32 (of_nat (sshbuf_len b2 - 4)) @ [p])"
  have ll: "sshbuf_len (outgoing_packet s) = ?n" using o(1) by (rule sshbuf_len_contents)
  have pl: "pad_length 8 (?n - 0) (extra_pad s) = (Inr p, 0)" using rnd(2) by (simp only: pad_length_def p_def Let_def) simp
  have pad: "pad_outgoing V s = (Inr (), s\<lparr>extra_pad := 0, outgoing_packet := b3\<rparr>)"
    unfolding pad_outgoing_def rnd(1) keys_None ll pl using mutable_ptr_ok [OF w(1,3)]
    by (simp add: Let_def on_outgoing_def q b2_def [symmetric] b3_def)
  have "sshbuf_wf b3" "length (contents b3) = ?n + unat p"
    using sshbuf_write_contents [OF w(1), of 0 "POKE_U32 (of_nat (sshbuf_len b2 - 4)) @ [p]"] w(2) len
    by (simp_all add: b3_def write_at_def)
  moreover obtain q' c where "sshbuf_reserve (env_alloc V) (poutput s) (?n + unat p) = (Inr q', c)"
    using reserve_ok [OF out(1) al out(2), of "?n + unat p"] out(3) p20 by auto
  ultimately obtain s1 where s1: "crypt_outgoing V (s\<lparr>extra_pad := 0, outgoing_packet := b3\<rparr>) = (Inr (), s1)" "p_send s1 = p_send s"
    using rnd none by (auto simp: crypt_outgoing_def keys_None cipher_crypt_def Let_def)
  then obtain s2 where "count_outgoing V s1 = (Inr (), s2)" using pk by (auto simp: count_outgoing_def Let_def)
  then show ?thesis using pad s1 ty rnd(1) by (simp add: ssh_packet_send2_wrapped_def compress_outgoing_def Let_def keys_None)
qed

lemma ex_time: "at_time 0 (\<lambda>q n. replicate n 0) ex_env = ex_env"
  by (simp add: at_time_def ex_env_def)

lemma ex_sent: "\<exists>s'. sshpkt_send ex_env (ex_session ex_pkt) = (Inr (), s')"
proof -
  let ?s = "ex_session ex_pkt"
  have big: "sshbuf_wf (ex_big [])" "contents (ex_big []) = []" "writable (ex_big [])" "max_size (ex_big []) = SSHBUF_SIZE_MAX"
      "sshbuf_wf (ex_big ex_pkt)" "contents (ex_big ex_pkt) = ex_pkt" "writable (ex_big ex_pkt)" "max_size (ex_big ex_pkt) = SSHBUF_SIZE_MAX"
    using ex_big [of "[]"] ex_big [of ex_pkt] by (simp_all add: ex_pkt_def)
  have pk: "ex_pkt ! 5 = 5" "length ex_pkt = 11" by (simp_all add: ex_pkt_def)
  obtain s' where "ssh_packet_send2_wrapped ex_env ?s = (Inr (), s')"
    using send2_wrapped_plain [of ex_env ?s "ex_none True"] ex_cipher_none big pk
    by (auto simp: ex_session_def ex_env_def sshbuf_consts msg_types)
  moreover have "sshbuf_len (ex_big ex_pkt) = 11" using sshbuf_len_contents [OF big(5)] big(6) pk(2) by simp
  ultimately show ?thesis using big pk
    by (auto simp: sshpkt_send_def ssh_packet_send2_def ex_session_def ssh_packet_need_rekeying_def Let_def msg_types)
qed

text \<open>The packet is sent, transmitted and arrives.\<close>

lemma ex_step1: "\<exists>s'. packet_step ex_env ex_env ex_direction (ex_direction\<lparr>sender := s', sent_pkts := [drop 5 ex_pkt]\<rparr>) \<and> sshbuf_wf (poutput s')"
proof -
  obtain s' where s': "sshpkt_send ex_env (ex_session ex_pkt) = (Inr (), s')" using ex_sent by blast
  have out: "contents (outgoing_packet (ex_session ex_pkt)) = ex_pkt" using ex_big [of ex_pkt] by (simp add: ex_session_def ex_pkt_def)
  have "sendable ex_pkt" by (simp add: sendable_def ex_pkt_def PACKET_MAX_SIZE_def msg_types)
  moreover have "goes_out ex_env (ex_session ex_pkt)" by (simp add: goes_out_def ssh_packet_need_rekeying_def ex_session_def Let_def)
  ultimately have st: "packet_step ex_env ex_env ex_direction (ex_direction\<lparr>sender := s', sent_pkts := [drop 5 ex_pkt]\<rparr>)"
    using packet_step.send [of 0 "\<lambda>q n. replicate n 0" ex_env ex_direction s' ex_env] s' out
    unfolding ex_time by (simp add: ex_direction_def)
  have "delivery_inv ex_env ex_env (ex_direction\<lparr>sender := s', sent_pkts := [drop 5 ex_pkt]\<rparr>)"
    using step_inv [OF st fresh_inv [OF ex_fresh]] by (simp add: same_ops_def ex_env_def)
  then show ?thesis using st by (auto simp: delivery_inv_def tx_ok_def)
qed

lemma write_all:
  assumes "sshbuf_wf (poutput s)"
  shows "\<exists>b. ssh_packet_write_poll (Wrote (length (contents (poutput s)))) s = (Inr (), s\<lparr>poutput := b\<rparr>) \<and> contents b = []"
proof (cases "contents (poutput s) = []")
  case True
  then show ?thesis using sshbuf_len_contents [OF assms] by (intro exI [of _ "poutput s"]) (simp add: ssh_packet_write_poll_def)
next
  case False
  obtain b where "sshbuf_consume (poutput s) (length (contents (poutput s))) = (Inr (), b)" "contents b = []"
    using sshbuf_consume_correct [OF assms, of "length (contents (poutput s))"] by auto
  then show ?thesis using False sshbuf_len_contents [OF assms]
    by (intro exI [of _ b]) (simp add: ssh_packet_write_poll_def on_output_def)
qed

lemma ex_arrive:
  assumes "length w \<le> SSHBUF_SIZE_MAX"
  shows "\<exists>r'. ssh_packet_process_incoming ex_env w (ex_session []) = (Inr (), r')"
proof -
  have i: "sshbuf_wf (ex_big [])" "contents (ex_big []) = []" "writable (ex_big [])" "max_size (ex_big []) = SSHBUF_SIZE_MAX"
    using ex_big [of "[]"] by simp_all
  obtain p c where "sshbuf_reserve ex_alloc (ex_big []) (length w) = (Inr p, c)"
    using reserve_ok [OF i(1) _ i(3), of ex_alloc "length w"] i(2,4) assms by auto
  then show ?thesis by (simp add: ssh_packet_process_incoming_def ex_session_def ex_env_def on_input_def sshbuf_put_write)
qed

lemma ex_run: "\<exists>l. (packet_step ex_env ex_env)\<^sup>*\<^sup>* ex_direction l \<and> sent_pkts l = [drop 5 ex_pkt] \<and> got_pkts l = [] \<and> in_net l = [] \<and>
    contents (poutput (sender l)) = []"
proof -
  obtain s' where s': "packet_step ex_env ex_env ex_direction (ex_direction\<lparr>sender := s', sent_pkts := [drop 5 ex_pkt]\<rparr>)" "sshbuf_wf (poutput s')"
    using ex_step1 by blast
  let ?w = "contents (poutput s')" and ?l1 = "ex_direction\<lparr>sender := s', sent_pkts := [drop 5 ex_pkt]\<rparr>"
  obtain b where b: "ssh_packet_write_poll (Wrote (length ?w)) s' = (Inr (), s'\<lparr>poutput := b\<rparr>)" "contents b = []" using write_all [OF s'(2)] by blast
  define l2 where "l2 = ?l1\<lparr>sender := s'\<lparr>poutput := b\<rparr>, in_net := ?w\<rparr>"
  have st2: "packet_step ex_env ex_env ?l1 l2"
    using packet_step.transmit [of "length ?w" ?l1 "s'\<lparr>poutput := b\<rparr>" ex_env ex_env] b(1) by (simp add: ex_direction_def l2_def)
  have "length ?w \<le> SSHBUF_SIZE_MAX" using sshbuf_wf_bounds [OF s'(2)] s'(2) by simp
  then obtain r' where "ssh_packet_process_incoming ex_env ?w (ex_session []) = (Inr (), r')" using ex_arrive by blast
  then have st3: "packet_step ex_env ex_env l2 (l2\<lparr>in_net := [], receiver := r'\<rparr>)"
    using packet_step.arrive [of "length ?w" l2 ex_env r' ex_env] by (simp add: ex_direction_def l2_def)
  have "(packet_step ex_env ex_env)\<^sup>*\<^sup>* ex_direction (l2\<lparr>in_net := [], receiver := r'\<rparr>)"
    by (rule converse_rtranclp_into_rtranclp, rule s'(1), rule converse_rtranclp_into_rtranclp, rule st2, rule r_into_rtranclp, rule st3)
  then show ?thesis using b(2) by (intro exI [of _ "l2\<lparr>in_net := [], receiver := r'\<rparr>"]) (simp add: l2_def ex_direction_def)
qed

theorem packet_stream_delivered_witness:
  "\<exists>l. (packet_step ex_env ex_env)\<^sup>*\<^sup>* ex_direction l \<and> sent_pkts l = [[5, 0, 0, 0, 1, 97]] \<and>
    (case ssh_packet_read_poll2 (at_time 0 (\<lambda>q n. []) ex_env) [] (receiver l) of
       (Inl e, r') \<Rightarrow> \<exists>r1. ssh_packet_need_rekeying (at_time 0 (\<lambda>q n. []) ex_env) 0 r1 \<and> kex_start_rekex (at_time 0 (\<lambda>q n. []) ex_env) r1 = (Inl e, r')
     | (Inr ty, r') \<Rightarrow> ty = 5 \<and> contents (incoming_packet r') = [0, 0, 0, 1, 97])"
proof -
  obtain l where l: "(packet_step ex_env ex_env)\<^sup>*\<^sup>* ex_direction l" "sent_pkts l = [drop 5 ex_pkt]" "got_pkts l = []" "in_net l = []"
      "contents (poutput (sender l)) = []" using ex_run by blast
  have ops: "same_ops ex_env ex_env" "\<forall>n. malloc_ok (env_alloc ex_env) n" by (simp_all add: same_ops_def ex_env_def)
  have d: "drop 5 ex_pkt = [5, 0, 0, 0, 1, 97]" by (simp add: ex_pkt_def)
  obtain y r' where x: "ssh_packet_read_poll2 (at_time 0 (\<lambda>q n. []) ex_env) [] (receiver l) = (y, r')" by force
  note t = packet_stream_delivered [OF ops ex_fresh l(1), of 0 "\<lambda>q n. []" "[]", unfolded x l(2-5) d]
  show ?thesis
  proof (intro exI [of _ l] conjI l(1))
    show "case ssh_packet_read_poll2 (at_time 0 (\<lambda>q n. []) ex_env) [] (receiver l) of
       (Inl e, r') \<Rightarrow> \<exists>r1. ssh_packet_need_rekeying (at_time 0 (\<lambda>q n. []) ex_env) 0 r1 \<and> kex_start_rekex (at_time 0 (\<lambda>q n. []) ex_env) r1 = (Inl e, r')
     | (Inr ty, r') \<Rightarrow> ty = 5 \<and> contents (incoming_packet r') = [0, 0, 0, 1, 97]"
      using t unfolding x by (cases y) (auto split: if_splits)
  qed (simp add: l(2) d)
qed

end
