(* ===== verification/Packet_Loop.thy ===== *)
theory Packet_Loop
  imports Packet_Stream
begin

text \<open>
  The loops of the packet protocol against any peer: taking transport messages off the input always ends, and sending a
  packet leaves the queue of a key exchange alone.
\<close>

unbundle bit_operations_syntax

section \<open>Sending leaves the queue alone\<close>

lemma seq_ok_queue:
  assumes "outgoing (snd x) = v" "\<And>a s. outgoing (snd (k a s)) = outgoing s"
  shows "outgoing (snd (seq_ok x k)) = v"
  using assms by (cases x) (auto simp: seq_ok_def split: sum.splits)

lemma on_buffers_queue [simp]: "outgoing (snd (on_outgoing f s)) = outgoing s" "outgoing (snd (on_output f s)) = outgoing s"
  by (simp_all add: on_outgoing_def on_output_def split: prod.splits)

lemma compress_outgoing_queue: "outgoing (snd (compress_outgoing V s)) = outgoing s"
  unfolding compress_outgoing_def
  by (auto simp: Let_def split: option.split sum.split prod.split intro!: seq_ok_queue)

lemma pad_outgoing_queue: "outgoing (snd (pad_outgoing V s)) = outgoing s"
  unfolding pad_outgoing_def
  by (auto simp: Let_def split: option.split sum.split prod.split intro!: seq_ok_queue)

lemma crypt_outgoing_queue: "outgoing (snd (crypt_outgoing V s)) = outgoing s"
  unfolding crypt_outgoing_def Let_def by (auto split: option.split sum.split prod.split)

lemma count_outgoing_queue: "outgoing (snd (count_outgoing V s)) = outgoing s"
  by (simp add: count_outgoing_def Let_def)

lemma newkeys_compression_queue: "outgoing (snd (newkeys_compression V out s)) = outgoing s"
  unfolding newkeys_compression_def ssh_packet_init_compression_def start_compression_out_def start_compression_in_def
  by (auto split: option.split sum.split intro!: seq_ok_queue)

lemma set_keys_queue [simp]: "outgoing (set_keys out nk s) = outgoing s"
  by (simp add: set_keys_def)

lemma take_kex_keys_queue [simp]: "outgoing (take_kex_keys out s) = outgoing s"
  by (simp add: take_kex_keys_def)

lemma delay_compress_queue: "outgoing (snd (delay_compress V out s)) = outgoing s"
  unfolding delay_compress_def by (auto split: option.split intro!: seq_ok_queue newkeys_compression_queue)

lemma enable_delayed_queue: "outgoing (snd (ssh_packet_enable_delayed_compress V s)) = outgoing s"
  unfolding ssh_packet_enable_delayed_compress_def by (intro seq_ok_queue) (simp_all add: delay_compress_queue)

lemma set_newkeys_queue: "outgoing (snd (ssh_set_newkeys V out s)) = outgoing s"
  unfolding ssh_set_newkeys_def Let_def
  by (auto split: option.split sum.split intro!: seq_ok_queue newkeys_compression_queue [THEN trans])

lemma send2_wrapped_queue: "outgoing (snd (ssh_packet_send2_wrapped V s)) = outgoing s"
  unfolding ssh_packet_send2_wrapped_def Let_def
  by (auto intro!: seq_ok_queue compress_outgoing_queue pad_outgoing_queue crypt_outgoing_queue count_outgoing_queue
      set_newkeys_queue enable_delayed_queue)

section \<open>Every message that is taken shortens the input\<close>

lemma consume_shortens: "sshbuf_consume b n = (Inr u, b') \<Longrightarrow> sshbuf_len b' + n \<le> sshbuf_len b"
  by (auto simp: sshbuf_consume_def sshbuf_len_def sshbuf_check_sanity_def Let_def split: if_splits sum.splits)

lemma on_input_consume:
  assumes "on_input (\<lambda>b. sshbuf_consume b n) s = (Inr u, s')"
  obtains b where "s' = s\<lparr>pinput := b\<rparr>" "sshbuf_len b + n \<le> sshbuf_len (pinput s)"
  using assms consume_shortens by (auto simp: on_input_def split: prod.splits)

lemma on_incoming_Inr: "on_incoming f s = (Inr a, s') \<longleftrightarrow> (\<exists>b. f (incoming_packet s) = (Inr a, b) \<and> s' = s\<lparr>incoming_packet := b\<rparr>)"
  by (auto simp: on_incoming_def split: prod.splits)

text \<open>What the loop relies on, and what is left to read: a packet whose first block has been taken off the input counts as well.\<close>

definition loop_ok where
  "loop_ok s \<longleftrightarrow> 0 < keys_block (newkeys_in s) \<and>
    (kex_done s \<longrightarrow> sshbuf_wf (outgoing_packet s) \<and> SSHBUF_SIZE_INIT \<le> max_size (outgoing_packet s))"

definition left_over where
  "left_over s = 2 * sshbuf_len (pinput s) + (if packlen s = 0 then 0 else 1)"

text \<open>How a stage that takes \<open>n\<close> bytes off the input goes on: the state \<open>s1\<close> it leaves.\<close>

definition advanced where
  "advanced n s s1 \<longleftrightarrow> sshbuf_len (pinput s1) + n \<le> sshbuf_len (pinput s) \<and> loop_ok s1"

lemma stop_discard_error [simp]: "ssh_packet_stop_discard V s \<noteq> (Inr t, s')"
  by (auto simp: ssh_packet_stop_discard_def fail_def Let_def seq_ok_Inr split: option.splits sum.splits prod.splits)

lemma start_discard_none: "ssh_packet_start_discard V a d s = (Inr t, s') \<Longrightarrow> t = SSH_MSG_NONE"
  by (auto simp: ssh_packet_start_discard_def fail_def Let_def seq_ok_Inr split: if_splits option.splits)

lemma read_length_advances:
  assumes "read_length V s k = (Inr t, s')" "t \<noteq> SSH_MSG_NONE" "loop_ok s"
  shows "\<exists>s1 n. k s1 = (Inr t, s') \<and> advanced n s s1 \<and> (packlen s \<noteq> 0 \<or> n \<noteq> 0 \<or> keys_aad (newkeys_in s1) \<noteq> 0) \<and> newkeys_in s1 = newkeys_in s"
proof (cases "packlen s = 0")
  case False
  then show ?thesis using assms by (intro exI [of _ s] exI [of _ 0]) (simp add: read_length_def advanced_def)
next
  case z: True
  show ?thesis
  proof (cases "keys_aad (newkeys_in s) = 0")
    case False
    then obtain cc1 n where k: "k (s\<lparr>receive_context := Some cc1, packlen := n, incoming_packet := sshbuf_reset (env_alloc V) (incoming_packet s)\<rparr>) = (Inr t, s')"
      using assms(1,2) z by (auto simp: read_length_def Let_def fail_def seq_ok_Inr split: option.splits sum.splits prod.splits if_splits)
    show ?thesis using assms(3) False k
      by (intro exI [of _ "s\<lparr>receive_context := Some cc1, packlen := n, incoming_packet := sshbuf_reset (env_alloc V) (incoming_packet s)\<rparr>"] exI [of _ 0])
        (simp add: advanced_def loop_ok_def)
  next
    case True
    let ?bs = "keys_block (newkeys_in s)"
    obtain b cc1 n where *: "seq_ok (on_input (\<lambda>b. sshbuf_consume b ?bs) (s\<lparr>incoming_packet := b, receive_context := Some cc1, packlen := n\<rparr>)) (\<lambda>_. k) = (Inr t, s')"
      using assms(1,2) z True start_discard_none
      by (fastforce simp: read_length_def Let_def fail_def split: option.splits sum.splits prod.splits if_splits)
    then obtain u s1 where s1: "on_input (\<lambda>b. sshbuf_consume b ?bs) (s\<lparr>incoming_packet := b, receive_context := Some cc1, packlen := n\<rparr>) = (Inr u, s1)"
        "k s1 = (Inr t, s')" by (auto simp: seq_ok_Inr)
    from s1(1) show ?thesis
    proof (cases rule: on_input_consume)
      case (1 i)
      then have "advanced ?bs s s1" "newkeys_in s1 = newkeys_in s" using assms(3) by (simp_all add: advanced_def loop_ok_def)
      then show ?thesis using s1(2) assms(3) by (intro exI [of _ s1] exI [of _ ?bs]) (simp add: loop_ok_def)
    qed
  qed
qed


lemma loop_ok_set_mac: "loop_ok s \<Longrightarrow> loop_ok (s\<lparr>newkeys_in := set_mac m (newkeys_in s)\<rparr>)"
  by (simp add: loop_ok_def)

lemma decrypt_advances:
  assumes "decrypt_incoming V n s k = (Inr t, s')" "loop_ok s"
  shows "\<exists>s1. k s1 = (Inr t, s') \<and> advanced (keys_aad (newkeys_in s) + n + keys_auth (newkeys_in s)) s s1"
proof -
  let ?m = "keys_aad (newkeys_in s) + n + keys_auth (newkeys_in s)"
  let ?etm = "if keys_etm (newkeys_in s) then
      (case keys_mac (newkeys_in s) of None \<Rightarrow> Inr (newkeys_in s)
       | Some m \<Rightarrow> (case check_mac_in V m (take (keys_aad (newkeys_in s) + n) (contents (pinput s))) (drop ?m (contents (pinput s))) s of
           Inl e \<Rightarrow> Inl e | Inr m1 \<Rightarrow> Inr (set_mac m1 (newkeys_in s))))
    else Inr (newkeys_in s)"
  obtain nk where e: "?etm = Inr nk" using assms(1) by (cases ?etm) (simp_all add: decrypt_incoming_def Let_def fail_def)
  then have nk: "keys_block nk = keys_block (newkeys_in s)" by (auto split: if_splits option.splits sum.splits)
  obtain b cc where
    "seq_ok (on_input (\<lambda>b. sshbuf_consume b ?m) (s\<lparr>newkeys_in := nk, incoming_packet := b, receive_context := Some cc\<rparr>)) (\<lambda>_. k) = (Inr t, s')"
    using assms(1) unfolding decrypt_incoming_def Let_def e
    by (auto simp: fail_def split: option.splits sum.splits prod.splits)
  then obtain u s1 where s1: "on_input (\<lambda>b. sshbuf_consume b ?m) (s\<lparr>newkeys_in := nk, incoming_packet := b, receive_context := Some cc\<rparr>) = (Inr u, s1)"
      "k s1 = (Inr t, s')" by (auto simp: seq_ok_Inr)
  from s1(1) show ?thesis
  proof (cases rule: on_input_consume)
    case (1 i)
    then have "advanced ?m s s1" using assms(2) nk by (simp add: advanced_def loop_ok_def)
    then show ?thesis using s1(2) by blast
  qed
qed

lemma verify_advances:
  assumes "verify_incoming V n s k = (Inr t, s')" "t \<noteq> SSH_MSG_NONE" "loop_ok s"
  shows "\<exists>s1. k s1 = (Inr t, s') \<and> advanced 0 s s1"
proof (cases "keys_mac (newkeys_in s)")
  case None
  then show ?thesis using assms by (auto simp: verify_incoming_def advanced_def)
next
  case (Some m)
  obtain nk where nk: "keys_block nk = keys_block (newkeys_in s)"
      and c: "seq_ok (on_input (\<lambda>b. sshbuf_consume b (mac_len m)) (s\<lparr>newkeys_in := nk\<rparr>)) (\<lambda>_. k) = (Inr t, s')"
  proof (cases "metm m")
    case True
    then show ?thesis using that [of "newkeys_in s"] assms(1) Some by (simp add: verify_incoming_def)
  next
    case False
    show ?thesis
    proof (cases "check_mac_in V m (contents (incoming_packet s)) (contents (pinput s)) s")
      case (Inl e)
      then show ?thesis using assms(1,2) Some False
        by (auto simp: verify_incoming_def Let_def fail_def dest: start_discard_none split: if_splits)
    next
      case (Inr m1)
      then show ?thesis using that [of "set_mac m1 (newkeys_in s)"] assms(1) Some False by (simp add: verify_incoming_def)
    qed
  qed
  then obtain u s1 where s1: "on_input (\<lambda>b. sshbuf_consume b (mac_len m)) (s\<lparr>newkeys_in := nk\<rparr>) = (Inr u, s1)" "k s1 = (Inr t, s')"
    by (auto simp: seq_ok_Inr)
  from s1(1) show ?thesis
  proof (cases rule: on_input_consume)
    case (1 i)
    then have "advanced 0 s s1" using assms(3) nk by (simp add: advanced_def loop_ok_def)
    then show ?thesis using s1(2) by blast
  qed
qed

lemma count_advances: "count_incoming s k = (Inr t, s') \<Longrightarrow> loop_ok s \<Longrightarrow> \<exists>s1. k s1 = (Inr t, s') \<and> advanced 0 s s1"
  by (fastforce simp: count_incoming_def Let_def fail_def advanced_def loop_ok_def split: if_splits)

lemma uncompress_keeps:
  assumes "uncompress_incoming V s = (Inr u, s1)"
  shows "pinput s1 = pinput s \<and> newkeys_in s1 = newkeys_in s \<and> kex_done s1 = kex_done s \<and> outgoing_packet s1 = outgoing_packet s"
  using assms by (auto simp: uncompress_incoming_def Let_def fail_def on_incoming_def split: if_splits option.splits sum.splits prod.splits)

lemma got_advances:
  assumes "(if ssh_packet_need_rekeying V 0 s then seq_ok (kex_start_rekex V s) (\<lambda>_ s. (Inr t, s)) else (Inr t, s)) = (Inr t', s')" "loop_ok s" "packlen s = 0"
  shows "advanced 0 s s' \<and> packlen s' = 0"
proof (cases "ssh_packet_need_rekeying V 0 s")
  case True
  then have "kex_done s" by (simp add: ssh_packet_need_rekeying_def ssh_packet_is_rekeying_def)
  then have "rx_view (snd (kex_start_rekex V s)) = rx_view (s\<lparr>kex_done := False\<rparr>)"
    using assms(2) by (intro kex_start_rekex_rx) (simp_all add: loop_ok_def)
  then have "rx_view s' = rx_view (s\<lparr>kex_done := False\<rparr>)" using assms(1) True by (auto simp: seq_ok_Inr)
  then show ?thesis using assms(2,3) by (auto simp: rx_view_def advanced_def loop_ok_def)
next
  case False
  then show ?thesis using assms by (simp add: advanced_def)
qed

lemma finish_advances:
  fixes s s' :: "('e, 'd, 'u, 'z) session_state"
  assumes "finish_incoming V msg s = (Inr t, s')" "t \<noteq> SSH2_MSG_USERAUTH_SUCCESS" "loop_ok s"
  shows "advanced 0 s s' \<and> packlen s' = 0"
proof -
  define F where "F = (\<lambda>t (s :: ('e, 'd, 'u, 'z) session_state). if t < SSH2_MSG_MIN \<or> t \<ge> SSH2_MSG_LOCAL_MIN then
      seq_ok (sshpkt_disconnect V msg s) (\<lambda>_ s. seq_ok (ssh_packet_write_wait V s) (\<lambda>_ s. fail SSH_ERR_PROTOCOL_ERROR s))
    else let (r, s1) = (if t = SSH2_MSG_USERAUTH_SUCCESS \<and> \<not> server_side s then ssh_packet_enable_delayed_compress V s else (Inr (), s));
             s2 = s1\<lparr>packlen := 0\<rparr>
      in if ssh_packet_need_rekeying V 0 s2 then seq_ok (kex_start_rekex V s2) (\<lambda>_ s. (Inr t, s))
         else (case r of Inl e \<Rightarrow> fail e s2 | Inr _ \<Rightarrow> (Inr t, s2)))"
  have np: "\<not> contents (incoming_packet s) ! 4 < 4" using assms(1) by (auto simp: finish_incoming_def fail_def seq_ok_Inr Let_def)
  have "seq_ok (on_incoming (\<lambda>b. sshbuf_consume b (4 + 1)) s) (\<lambda>_ s0.
      seq_ok (on_incoming (\<lambda>b. sshbuf_consume_end b (unat (contents (incoming_packet s) ! 4))) s0) (\<lambda>_ s.
      seq_ok (uncompress_incoming V s) (\<lambda>_ s. seq_ok (on_incoming sshbuf_get_u8 s) F))) = (Inr t, s')"
    using assms(1) np by (simp add: finish_incoming_def F_def Let_def)
  then obtain b s1 b1 t1 where u: "uncompress_incoming V (s\<lparr>incoming_packet := b\<rparr>) = (Inr (), s1)" and x: "F t1 (s1\<lparr>incoming_packet := b1\<rparr>) = (Inr t, s')"
    by (auto simp: seq_ok_Inr on_incoming_Inr)
  let ?s3 = "s1\<lparr>incoming_packet := b1, packlen := 0\<rparr>"
  have t1: "t1 = t" using x assms(2) by (auto simp: F_def fail_def seq_ok_Inr Let_def split: if_splits prod.splits sum.splits)
  then have "(if ssh_packet_need_rekeying V 0 ?s3 then seq_ok (kex_start_rekex V ?s3) (\<lambda>_ s. (Inr t, s)) else (Inr t, ?s3)) = (Inr t, s')"
    using x assms(2) by (auto simp: F_def fail_def seq_ok_Inr Let_def split: if_splits)
  moreover have "loop_ok ?s3" using assms(3) uncompress_keeps [OF u] by (simp add: loop_ok_def)
  ultimately have "advanced 0 ?s3 s' \<and> packlen s' = 0" by (intro got_advances) simp_all
  then show ?thesis using uncompress_keeps [OF u] by (simp add: advanced_def)
qed


lemma advanced_trans: "advanced m s s1 \<Longrightarrow> advanced n s1 s2 \<Longrightarrow> advanced (m + n) s s2"
  by (simp add: advanced_def)

lemma advanced_ok: "advanced n s s1 \<Longrightarrow> loop_ok s1"
  by (simp add: advanced_def)

lemma advanced_left:
  assumes "advanced n s s1" "packlen s1 = 0" "n \<noteq> 0 \<or> packlen s \<noteq> 0"
  shows "loop_ok s1 \<and> left_over s1 < left_over s"
  using assms by (auto simp: advanced_def left_over_def)

lemma read_rest_advances:
  fixes s s' :: "('e, 'd, 'u, 'z) session_state"
  assumes "read_rest V msg s = (Inr t, s')" "t \<noteq> SSH_MSG_NONE" "t \<noteq> SSH2_MSG_USERAUTH_SUCCESS" "loop_ok s"
  shows "\<exists>n. advanced (keys_aad (newkeys_in s) + n) s s' \<and> packlen s' = 0"
proof -
  obtain n where "decrypt_incoming V n s (\<lambda>s. verify_incoming V n s (\<lambda>s. count_incoming s (finish_incoming V msg))) = (Inr t, s')"
    using assms(1,2) by (auto simp: read_rest_def Let_def dest: start_discard_none split: if_splits)
  from decrypt_advances [OF this assms(4)] obtain s1 where
    s1: "verify_incoming V n s1 (\<lambda>s. count_incoming s (finish_incoming V msg)) = (Inr t, s')"
      "advanced (keys_aad (newkeys_in s) + n + keys_auth (newkeys_in s)) s s1" by blast
  from verify_advances [OF s1(1) assms(2) advanced_ok [OF s1(2)]] obtain s2 where
    s2: "count_incoming s2 (finish_incoming V msg) = (Inr t, s')" "advanced 0 s1 s2" by blast
  from count_advances [OF s2(1) advanced_ok [OF s2(2)]] obtain s3 where
    s3: "finish_incoming V msg s3 = (Inr t, s')" "advanced 0 s2 s3" by blast
  have s4: "advanced 0 s3 s'" "packlen s' = 0" using finish_advances [OF s3(1) assms(3) advanced_ok [OF s3(2)]] by simp_all
  have "advanced (keys_aad (newkeys_in s) + (n + keys_auth (newkeys_in s))) s s'"
    using advanced_trans [OF advanced_trans [OF advanced_trans [OF s1(2) s2(2)] s3(2)] s4(1)] by (simp add: add.assoc)
  then show ?thesis using s4(2) by blast
qed

lemma mux_advances:
  fixes s s' :: "('e, 'd, 'u, 'z) session_state"
  assumes "ssh_packet_read_poll2_mux V s = (Inr t, s')" "t \<noteq> SSH_MSG_NONE" "loop_ok s"
  shows "loop_ok s' \<and> left_over s' < left_over s"
proof -
  obtain n b s1 b2 b3 where c: "on_input (\<lambda>b. sshbuf_consume b (n + 4)) (s\<lparr>packlen := of_nat n, incoming_packet := b\<rparr>) = (Inr (), s1)"
      and e: "s' = s1\<lparr>incoming_packet := b2, incoming_packet := b3, packlen := 0\<rparr>"
  proof -
    define m where "m = (if packlen s \<noteq> 0 then packlen s else PEEK_U32 (contents (pinput s)))"
    have "seq_ok (on_incoming (\<lambda>b. sshbuf_put (env_alloc V) (sshbuf_reset (env_alloc V) b) (take (unat m) (drop 4 (contents (pinput s))))) (s\<lparr>packlen := m\<rparr>)) (\<lambda>_ s.
             seq_ok (on_input (\<lambda>b. sshbuf_consume b (unat m + 4)) s) (\<lambda>_ s.
             seq_ok (on_incoming sshbuf_get_u8 s) (\<lambda>_ s.
             seq_ok (on_incoming sshbuf_get_u8 s) (\<lambda>t s. (Inr t, s\<lparr>packlen := 0\<rparr>))))) = (Inr t, s')"
      using assms(1,2) by (auto simp: ssh_packet_read_poll2_mux_def Let_def m_def fail_def split: if_splits)
    then show ?thesis using that [of "unat m"] by (fastforce simp: seq_ok_Inr on_incoming_Inr)
  qed
  from c show ?thesis
  proof (cases rule: on_input_consume)
    case (1 i)
    then have "advanced (n + 4) s s'" using assms(3) e by (simp add: advanced_def loop_ok_def)
    then show ?thesis using e by (intro advanced_left [of "n + 4"]) (simp_all add: gr0_conv_Suc)
  qed
qed

lemma poll2_advances:
  fixes s s' :: "('e, 'd, 'u, 'z) session_state"
  assumes "ssh_packet_read_poll2 V msg s = (Inr t, s')" "t \<noteq> SSH_MSG_NONE" "t \<noteq> SSH2_MSG_USERAUTH_SUCCESS" "loop_ok s"
  shows "loop_ok s' \<and> left_over s' < left_over s"
proof (cases "pmux s")
  case True
  then show ?thesis using mux_advances assms by (simp add: ssh_packet_read_poll2_def)
next
  case False
  then have "read_length V s (read_rest V msg) = (Inr t, s')"
    using assms(1,2) by (simp add: ssh_packet_read_poll2_def read_poll2_packet_def split: if_splits)
  from read_length_advances [OF this assms(2,4)] obtain s1 n where
    s1: "read_rest V msg s1 = (Inr t, s')" "advanced n s s1" "packlen s \<noteq> 0 \<or> n \<noteq> 0 \<or> keys_aad (newkeys_in s1) \<noteq> 0" by blast
  from read_rest_advances [OF s1(1) assms(2,3) advanced_ok [OF s1(2)]] obtain m where
    m: "advanced (keys_aad (newkeys_in s1) + m) s1 s'" "packlen s' = 0" by blast
  show ?thesis using advanced_left [OF advanced_trans [OF s1(2) m(1)] m(2)] s1(3) by auto
qed

lemma incoming_only:
  "loop_ok (s\<lparr>incoming_packet := b\<rparr>) = loop_ok s" "left_over (s\<lparr>incoming_packet := b\<rparr>) = left_over s"
  "loop_ok (s\<lparr>keep_alive_timeouts := n\<rparr>) = loop_ok s" "left_over (s\<lparr>keep_alive_timeouts := n\<rparr>) = left_over s"
  by (simp_all add: loop_ok_def left_over_def)

text \<open>C9. The loop that takes IGNORE, DEBUG, DISCONNECT and UNIMPLEMENTED messages off the input returns, whatever the peer sends and whatever
  the ciphers, MACs and the decompressor compute: it ends with an error, with no packet, or with a packet for the caller. The block size of the
  incoming keys is not zero, and the buffer for outgoing packets is intact unless a key exchange is already under way.\<close>

theorem read_poll_seqnr_returns:
  fixes s :: "('e, 'd, 'u, 'z) session_state"
  assumes "0 < keys_block (newkeys_in s)"
    and "kex_done s \<Longrightarrow> sshbuf_wf (outgoing_packet s) \<and> SSHBUF_SIZE_INIT \<le> max_size (outgoing_packet s)"
  shows "\<exists>x. ssh_packet_read_poll_seqnr V msg s = Some x"
proof -
  have "loop_ok s" using assms by (simp add: loop_ok_def)
  then show ?thesis
  proof (induction "left_over s" arbitrary: s rule: less_induct)
    case less
    obtain r s1 where run: "ssh_packet_read_poll2 V msg s = (r, s1)" by force
    show ?case
    proof (cases r)
      case (Inl e)
      then show ?thesis using run by (subst ssh_packet_read_poll_seqnr.simps) simp
    next
      case (Inr t)
      have again: "\<exists>x. ssh_packet_read_poll_seqnr V msg s2 = Some x"
        if "t \<in> {SSH2_MSG_IGNORE, SSH2_MSG_DEBUG, SSH2_MSG_UNIMPLEMENTED}" "loop_ok s2 = loop_ok s1" "left_over s2 = left_over s1" for s2 :: "('e, 'd, 'u, 'z) session_state"
      proof (rule less.hyps)
        have "t \<noteq> SSH_MSG_NONE" "t \<noteq> SSH2_MSG_USERAUTH_SUCCESS" using that(1) by (auto simp: msg_types)
        then show "left_over s2 < left_over s" "loop_ok s2"
          using poll2_advances [of V msg s t s1] run Inr less.prems that(2,3) by simp_all
      qed
      show ?thesis
        using run Inr again
        by (subst ssh_packet_read_poll_seqnr.simps)
          (auto simp: Let_def incoming_only on_incoming_def seq_ok_def split: sum.split prod.split)
    qed
  qed
qed


theorem read_poll_seqnr_returns_witness: "\<exists>x. ssh_packet_read_poll_seqnr ex_env [] (ex_session ex_pkt) = Some x"
proof (rule read_poll_seqnr_returns)
  show "0 < keys_block (newkeys_in (ex_session ex_pkt))" by (simp add: ex_session_def keys_None)
  show "sshbuf_wf (outgoing_packet (ex_session ex_pkt)) \<and> SSHBUF_SIZE_INIT \<le> max_size (outgoing_packet (ex_session ex_pkt))"
    using ex_big [of ex_pkt] by (simp add: ex_session_def ex_pkt_def sshbuf_consts)
qed


end
