(* ===== verification/Spec2Isabelle.thy ===== *)
theory Spec2Isabelle
  imports Sshbuf_Heap Addrmatch Bitmap Channels Channel_Flow Fwd_Perm Packet_Loop
begin

text \<open>
  A verification library for PKIX-SSH 12.5.1, an implementation of the SSH protocol with X.509 certificates, in C. All
  file names are relative to \<^verbatim>\<open>src/pkixssh-12.5.1\<close>.

  \<^bold>\<open>The program.\<close> A connection is a stack. At the bottom are growable byte buffers (\<^verbatim>\<open>sshbuf.c\<close> and
  \<^verbatim>\<open>sshbuf-getput-basic.c\<close>), with the encodings of integers, strings and numbers on the wire. The transport encrypts and
  authenticates packets with a cipher of \<^verbatim>\<open>cipher.c\<close> (one of them \<^verbatim>\<open>chacha.c\<close>, \<^verbatim>\<open>poly1305.c\<close>, \<^verbatim>\<open>cipher-chachapoly.c\<close>)
  and with a MAC of \<^verbatim>\<open>mac.c\<close> (\<^verbatim>\<open>hmac.c\<close> over \<^verbatim>\<open>digest-openssl.c\<close>), which \<^verbatim>\<open>packet.c\<close> puts together. Above it, \<^verbatim>\<open>channels.c\<close> and \<^verbatim>\<open>nchan.c\<close> carry the byte streams of
  sessions and forwardings, each with its own flow control and its own closing protocol, and decide which forwardings
  are allowed. Names, patterns and addresses are compared by \<^verbatim>\<open>match.c\<close> and \<^verbatim>\<open>addrmatch.c\<close>; revocation lists store
  sets of numbers in the bitmaps of \<^verbatim>\<open>bitmap.c\<close>.

  \<^bold>\<open>Conventions.\<close> A struct is a record with the fields of the source (a prefix is added where two structs share a field
  name). An error code is a value of \<open>ssh_err\<close> and a fallible operation returns \<open>'a res\<close>, the sum of the two, together
  with the state it leaves; \<^verbatim>\<open>fatal()\<close>, \<^verbatim>\<open>ssh_packet_disconnect()\<close> and a crash are the value \<open>None\<close>. \<^verbatim>\<open>size_t\<close> is a
  natural number whose overflow is written out (\<open>size_add\<close>, \<open>size_sub\<close>), \<^verbatim>\<open>u_int\<close> a 32-bit word, a byte an 8-bit word.
  What memory allocation, system calls, callbacks and OpenSSL return are arguments: \<open>allocator\<close>, the results of
  \<^verbatim>\<open>read\<close> and \<^verbatim>\<open>write\<close>, \<open>evp_ops\<close>, \<open>md_ops\<close>. Pointers between objects are addresses of a store or indices of a
  table, so that dangling ones can be expressed.

  \<^bold>\<open>Theories.\<close>
  \<^item> \<open>Pkix_Prelude\<close>: error codes (\<^verbatim>\<open>ssherr.h\<close>), \<^verbatim>\<open>size_t\<close> arithmetic, arrays, the allocator (\<^verbatim>\<open>recallocarray.c\<close>), and
    the collections of simplification rules the other theories share.
  \<^item> \<open>Sshbuf\<close>, \<open>Sshbuf_Getput\<close>: one buffer, with every operation of \<^verbatim>\<open>sshbuf.c\<close> and \<^verbatim>\<open>sshbuf-getput-basic.c\<close>. The
    invariant \<open>sshbuf_wf\<close> holds for every operation, every access is inside the allocation, and on \<open>contents\<close> the
    buffer is a queue of bytes. \<open>Sshbuf_Heap\<close> adds reference counts and parents (\<^verbatim>\<open>sshbuf_fromb\<close>, \<^verbatim>\<open>sshbuf_free\<close>): no
    client that releases what it owns reaches a dangling pointer or leaks.
  \<^item> \<open>Wire\<close>: the encodings, and the locales \<open>wire_codec\<close> (an encoding with its parser), \<open>byte_queue\<close> (what a client of a
    buffer needs) and \<open>queue_codec\<close> (typed values through a queue). \<open>Sshbuf_Getput\<close> interprets them on the buffer.
  \<^item> \<open>Match\<close>, \<open>Addrmatch\<close>: patterns, lists of patterns, lists of names, addresses and networks, against their meaning
    as languages and sets.
  \<^item> \<open>Bitmap\<close>: bitmaps refine finite sets of numbers (locale \<open>bounded_set\<close>); \<open>msb_loop\<close> is a partial function, proved to
    return.
  \<^item> \<open>Nchan\<close>, \<open>Channel_Data\<close>: one end of a channel, as a state machine whose steps (\<open>chan_step\<close>) are the handlers of the
    event loop and of the peer's messages; its messages always are in a legal order. \<open>Channel_Flow\<close> joins two ends by
    a network (\<open>link_step\<close>): the bytes arrive in order, no window overflows and the flow never stops.
  \<^item> \<open>Channels\<close>: the table of channels, multiplexing and its translation of channel numbers (\<open>mux_step\<close>). \<open>Fwd_Perm\<close>:
    permissions and listeners of forwardings, under every sequence of user operations (\<open>user_step\<close>).
  \<^item> \<open>Chacha\<close>, \<open>Poly1305\<close>, \<open>Chachapoly\<close>: the stream cipher as exclusive-or with a key stream, the authenticator against
    its polynomial, and the packet cipher built from both.
  \<^item> \<open>Cipher\<close>: the table of ciphers and the operations the packet layer calls. The locale \<open>packet_cipher\<close> is their
    contract; its interpretation covers the built-in cipher, the cipher \<^verbatim>\<open>none\<close> and every cipher of OpenSSL that
    behaves as documented (\<open>evp_stream\<close>, \<open>evp_aead\<close>).
  \<^item> \<open>Digest\<close>: digests and HMAC, against the definition of HMAC over the hash function that OpenSSL implements
    (\<open>md_good\<close>). \<open>Mac\<close>: the table of MACs over it; the locale \<open>packet_mac\<close> is what the packet layer relies on.
  \<^item> \<open>Packet\<close>: the packet protocol, with sending, receiving, new keys and the queue during a key exchange.
  \<^item> \<open>Packet_Stream\<close>: a sender, the bytes under way and a receiver as a step relation (\<open>packet_step\<close>), with the same
    keys at both ends. Its invariant \<open>delivery_inv\<close> rests on the locales \<open>packet_cipher\<close> and \<open>packet_mac\<close> and shows that the
    packets sent are the packets received, in order. It covers one set of keys without compression, and packets that
    are not queued for a key exchange.
  \<^item> \<open>Packet_Loop\<close>: what sending keeps of the queue, and that the loop over transport messages returns: each round
    consumes input (\<open>poll2_advances\<close>).

  \<^bold>\<open>Termination.\<close> Every loop is a total function: structural recursion, or a measure such as the length of what is left
  to read. No fuel is used. \<open>msb_loop\<close> of \<open>Bitmap\<close> and \<open>ssh_packet_read_poll_seqnr\<close> of
  \<open>Packet\<close> are partial functions, and both are proved to return.

  \<^bold>\<open>Not modelled.\<close> Logging and debugging output, the clearing of memory, and builds without OpenSSL. Key objects,
  signatures, certificates and the arithmetic of key exchange are calls of OpenSSL, which is not part of the sources.
  The programs around the protocol (client, server, agent, file transfer, key tools, configuration files, platform
  support) are mostly system calls and user interaction.
\<close>

end
